(* ===== verification/Prelude.thy ===== *)
theory Prelude
  imports Main "HOL-Library.Word" "HOL-Library.Monad_Syntax"
begin

unbundle bit_operations_syntax

text \<open>
  Shared vocabulary of the development: the widths of the C types the message queue uses,
  byte strings read from and written to a memory that is a function from offsets to bytes,
  the little-endian layout that \<^verbatim>\<open>memcpy\<close> of an integer produces on the x86 targets the
  project is built for, and the zero-padded decimal numbers of \<^verbatim>\<open>sprintf\<close>.
  The facts that carry the proofs of the components are collected in \<open>bytes_simps\<close>
  (memory and encodings) and \<open>dec_simps\<close> (decimal numbers).
\<close>

named_theorems bytes_simps "reading and writing byte strings"
named_theorems dec_simps "zero-padded decimal numbers"

section \<open>Widths\<close>

type_synonym byte = "8 word"
type_synonym u16 = "16 word"
type_synonym u32 = "32 word"
type_synonym u64 = "64 word"

lemma unat_u32_lt: "unat (w :: u32) < 4294967296"
  using unsigned_less [of w, where 'a = nat] by simp

lemma unat_u64_lt: "unat (w :: u64) < 18446744073709551616"
  using unsigned_less [of w, where 'a = nat] by simp

lemma sint_u32: 
  "sint (w :: u32) = (if unat w < 2147483648 then int (unat w) else int (unat w) - 4294967296)"
proof -
  have lt: "uint w < 4294967296" "0 \<le> uint w"
    using unsigned_less [of w, where 'a = int] by simp_all
  have t: "take_bit 32 (uint w) = uint w" using lt by (simp add: take_bit_int_eq_self)
  have b: "bit (uint w) 31 \<longleftrightarrow> 2147483648 \<le> uint w"
  proof -
    have "uint w div 2147483648 = (if 2147483648 \<le> uint w then 1 else 0)"
      using lt by (auto simp: div_pos_pos_trivial int_div_pos_eq [where q=1 and r="uint w - 2147483648"])
    then show ?thesis by (simp add: bit_iff_odd)
  qed
  have "sint w = signed_take_bit 31 (uint w)"
    by (simp add: sint_uint)
  also have "\<dots> = take_bit 32 (uint w) - 4294967296 * of_bool (bit (uint w) 31)"
    by (subst signed_take_bit_eq_take_bit_minus) simp
  finally have "sint w = uint w - 4294967296 * of_bool (2147483648 \<le> uint w)" by (simp only: t b)
  moreover have "unat w < 2147483648 \<longleftrightarrow> uint w < 2147483648"
    unfolding uint_nat by (simp only: of_nat_less_numeral_iff)
  ultimately show ?thesis by auto
qed

lemma sint_u32_neg: "sint (w :: u32) < 0 \<longleftrightarrow> 2147483648 \<le> unat w"
proof -
  have "int (unat w) < 4294967296" using unat_u32_lt [of w] by (simp only: of_nat_less_numeral_iff)
  then show ?thesis using unat_u32_lt [of w] by (auto simp: sint_u32 simp del: of_nat_unat)
qed

lemma nat_sint_u32: "\<not> sint (w :: u32) < 0 \<Longrightarrow> nat (sint w) = unat w"
  by (simp add: sint_u32_neg) (simp add: sint_u32 del: of_nat_unat)

lemma unat_add_u32: "unat (a + b :: u32) = (unat a + unat b) mod 4294967296"
  by (simp add: unat_word_ariths)

section \<open>Byte strings in a memory\<close>

definition bytes_at :: "(nat \<Rightarrow> byte) \<Rightarrow> nat \<Rightarrow> nat \<Rightarrow> byte list" where
  "bytes_at f p n = map f [p..<p + n]"

definition put_bytes :: "(nat \<Rightarrow> byte) \<Rightarrow> nat \<Rightarrow> byte list \<Rightarrow> (nat \<Rightarrow> byte)" where
  "put_bytes f p bs = (\<lambda>i. if p \<le> i \<and> i < p + length bs then bs ! (i - p) else f i)"

lemma length_bytes_at [simp]: "length (bytes_at f p n) = n"
  by (simp add: bytes_at_def)

lemma nth_bytes_at [simp]: "i < n \<Longrightarrow> bytes_at f p n ! i = f (p + i)"
  by (simp add: bytes_at_def)

lemma bytes_at_0 [simp]: "bytes_at f p 0 = []"
  by (simp add: bytes_at_def)

lemma bytes_at_add [bytes_simps]: "bytes_at f p (m + n) = bytes_at f p m @ bytes_at f (p + m) n"
  by (rule nth_equalityI) (auto simp: nth_append)

lemma bytes_at_cong: "(\<And>i. p \<le> i \<Longrightarrow> i < p + n \<Longrightarrow> f i = g i) \<Longrightarrow> bytes_at f p n = bytes_at g p n"
  by (rule nth_equalityI) auto

lemma bytes_at_eq_iff: "bytes_at f p n = bytes_at g p n \<longleftrightarrow> (\<forall>i. p \<le> i \<and> i < p + n \<longrightarrow> f i = g i)"
proof
  assume eq: "bytes_at f p n = bytes_at g p n"
  show "\<forall>i. p \<le> i \<and> i < p + n \<longrightarrow> f i = g i"
  proof (intro allI impI)
    fix i assume i: "p \<le> i \<and> i < p + n"
    then have "i - p < n" by linarith
    moreover have "bytes_at f p n ! (i - p) = bytes_at g p n ! (i - p)" using eq by simp
    ultimately show "f i = g i" using i by simp
  qed
qed (auto intro: bytes_at_cong)

lemma put_bytes_Nil [simp]: "put_bytes f p [] = f"
  by (auto simp: put_bytes_def fun_eq_iff)

lemma put_bytes_outside [simp]: "i < p \<or> p + length bs \<le> i \<Longrightarrow> put_bytes f p bs i = f i"
  by (auto simp: put_bytes_def)

lemma put_bytes_inside: "p \<le> i \<Longrightarrow> i < p + length bs \<Longrightarrow> put_bytes f p bs i = bs ! (i - p)"
  by (simp add: put_bytes_def)

lemma bytes_at_put_same [bytes_simps]:
  "n = length bs \<Longrightarrow> bytes_at (put_bytes f p bs) p n = bs"
  by (rule nth_equalityI) (auto simp: put_bytes_def)

lemma bytes_at_put_other [bytes_simps]:
  "q + n \<le> p \<or> p + length bs \<le> q \<Longrightarrow> bytes_at (put_bytes f p bs) q n = bytes_at f q n"
  by (rule bytes_at_cong) auto

lemma put_bytes_append:
  "put_bytes f p (as @ bs) = put_bytes (put_bytes f p as) (p + length as) bs"
  by (auto simp: put_bytes_def fun_eq_iff nth_append)

section \<open>Little-endian integers\<close>

definition le16 :: "u16 \<Rightarrow> byte list" where
  "le16 w = [ucast w, ucast (drop_bit 8 w)]"

definition le32 :: "u32 \<Rightarrow> byte list" where
  "le32 w = [ucast w, ucast (drop_bit 8 w), ucast (drop_bit 16 w), ucast (drop_bit 24 w)]"

fun from_le16 :: "byte list \<Rightarrow> u16" where
  "from_le16 (a # b # _) = ucast a OR push_bit 8 (ucast b)"
| "from_le16 _ = 0"

fun from_le32 :: "byte list \<Rightarrow> u32" where
  "from_le32 (a # b # c # d # _) =
     ucast a OR push_bit 8 (ucast b) OR push_bit 16 (ucast c) OR push_bit 24 (ucast d)"
| "from_le32 _ = 0"

lemma length_le16 [simp]: "length (le16 w) = 2"
  by (simp add: le16_def)

lemma length_le32 [simp]: "length (le32 w) = 4"
  by (simp add: le32_def)

lemma from_le16_le16 [bytes_simps]: "from_le16 (le16 w @ rest) = w"
  unfolding le16_def by (simp, rule bit_word_eqI) (auto simp: bit_simps)

lemma from_le32_le32 [bytes_simps]: "from_le32 (le32 w @ rest) = w"
proof -
  have "bit (from_le32 (le32 w @ rest)) n = bit w n" if "n < 32" for n
  proof -
    consider "n < 8" | "8 \<le> n" "n < 16" | "16 \<le> n" "n < 24" | "24 \<le> n" by linarith
    then show ?thesis
      using that by cases (auto simp: le32_def bit_simps)
  qed
  then show ?thesis by (intro bit_word_eqI) simp
qed

lemma from_le16_le16' [bytes_simps]: "from_le16 (le16 w) = w"
  using from_le16_le16 [of w "[]"] by simp

lemma from_le32_le32' [bytes_simps]: "from_le32 (le32 w) = w"
  using from_le32_le32 [of w "[]"] by simp

section \<open>Decimal numbers\<close>

text \<open>\<open>pad_digits w n\<close> is what \<^verbatim>\<open>%0<w>u\<close> prints for \<open>n\<close>, as digit values.\<close>

fun digits :: "nat \<Rightarrow> nat list" where
  "digits n = (if n < 10 then [] else digits (n div 10)) @ [n mod 10]"

declare digits.simps [simp del]

definition pad_digits :: "nat \<Rightarrow> nat \<Rightarrow> nat list" where
  "pad_digits w n = (let ds = digits n in replicate (w - length ds) 0 @ ds)"

definition dec_value :: "nat list \<Rightarrow> nat" where
  "dec_value ds = foldl (\<lambda>acc d. acc * 10 + d) 0 ds"

lemma dec_value_snoc [simp]: "dec_value (ds @ [d]) = dec_value ds * 10 + d"
  by (simp add: dec_value_def)

lemma dec_value_Nil [simp]: "dec_value [] = 0"
  by (simp add: dec_value_def)

lemma dec_value_zeros: "dec_value (replicate k 0 @ ds) = dec_value ds"
proof -
  have "foldl (\<lambda>acc d. acc * 10 + d) 0 (replicate k (0::nat)) = 0"
    by (induction k) auto
  then show ?thesis by (simp add: dec_value_def)
qed

lemma dec_value_digits [dec_simps]: "dec_value (digits n) = n"
proof (induction n rule: digits.induct)
  case (1 n)
  then show ?case
    by (subst digits.simps) (auto simp: dec_value_def)
qed

lemma digits_lt_10: "d \<in> set (digits n) \<Longrightarrow> d < 10"
proof (induction n rule: digits.induct)
  case (1 n)
  then show ?case
    by (subst (asm) (2) digits.simps) (auto split: if_splits)
qed

lemma digits_nonempty [simp]: "digits n \<noteq> []"
  by (subst digits.simps) simp

lemma length_digits_le: "n < 10 ^ Suc k \<Longrightarrow> length (digits n) \<le> Suc k"
proof (induction k arbitrary: n)
  case 0
  then show ?case by (subst digits.simps) simp
next
  case (Suc k)
  have "n div 10 < 10 ^ Suc k"
    using Suc.prems by (simp add: div_less_iff_less_mult)
  then have "length (digits (n div 10)) \<le> Suc k" by (rule Suc.IH)
  then show ?case by (subst digits.simps) simp
qed

lemma length_digits_pos [simp]: "0 < length (digits n)"
  by simp

lemma dec_value_pad_digits [dec_simps]: "dec_value (pad_digits w n) = n"
  by (simp add: pad_digits_def Let_def dec_value_zeros dec_value_digits)

lemma pad_digits_lt_10 [dec_simps]: "d \<in> set (pad_digits w n) \<Longrightarrow> d < 10"
  by (auto simp: pad_digits_def Let_def dest: digits_lt_10)

lemma length_pad_digits [dec_simps]: "n < 10 ^ Suc k \<Longrightarrow> length (pad_digits (Suc k) n) = Suc k"
  using length_digits_le [of n k] by (simp add: pad_digits_def Let_def)

lemma pad_digits_inj: "pad_digits w m = pad_digits w n \<Longrightarrow> m = n"
  by (metis dec_value_pad_digits)

text \<open>The digits as the bytes of a file, and as the characters of a file name.\<close>

definition digit_byte :: "nat \<Rightarrow> byte" where
  "digit_byte d = of_nat (48 + d)"

definition digit_char :: "nat \<Rightarrow> char" where
  "digit_char d = char_of (48 + d)"

lemma unat_digit_byte [dec_simps]: "d < 10 \<Longrightarrow> unat (digit_byte d) = 48 + d"
  by (simp only: digit_byte_def unat_of_nat) simp

end
