(* ===== verification/Posix.thy ===== *)
theory Posix
  imports Prelude
begin

text \<open>
  The part of the C library and of the operating system that the message queue calls.
  A \<open>world\<close> holds a flat name space of paths (the order of the association list is the
  order in which \<^verbatim>\<open>readdir\<close> meets the entries, so a theorem about every world is a theorem
  about every directory order), the inodes, the open descriptors and the live
  \<^verbatim>\<open>mmap\<close> regions. Two regions of one inode see the same bytes, and a region keeps its
  inode alive after \<^verbatim>\<open>unlink\<close>, as \<^verbatim>\<open>MAP_SHARED\<close> does.

  The environment may make a call fail: \<open>w_faults\<close> is a script whose head is consumed by
  every fallible call (\<open>Ok\<close>: the call does its work, \<open>Fail e\<close>: it fails with
  \<^verbatim>\<open>errno = e\<close>, \<open>Short k\<close>: it transfers at most \<open>k\<close> bytes); an exhausted script means
  that nothing fails. \<open>w_ticks\<close> is how far the monotonic clock moves before each reading.

  A memory access through a pointer is an \<open>option\<close>: \<open>None\<close> is an access outside a
  live mapping, which the C program must never make.
\<close>

named_theorems posix_simps "effects of the system calls"

section \<open>State\<close>

record inode =
  f_size :: nat
  f_data :: "nat \<Rightarrow> byte"

datatype node = DirN | RegN nat

record ofd =
  o_ino :: nat
  o_off :: nat
  o_append :: bool
  o_nonblock :: bool

record mapping =
  m_ino :: nat
  m_len :: nat

datatype outcome = Ok | Fail int | Short nat

type_synonym path = string
type_synonym ptr = "nat option"

record world =
  w_fs :: "(path \<times> node) list"
  w_files :: "nat \<Rightarrow> inode"
  w_next_ino :: nat
  w_fds :: "int \<rightharpoonup> ofd"
  w_next_fd :: nat
  w_maps :: "nat \<rightharpoonup> mapping"
  w_next_map :: nat
  w_faults :: "outcome list"
  w_errno :: int
  w_bavail :: u64
  w_bsize :: u64
  w_clock :: int
  w_ticks :: "nat list"
  w_wall :: int

definition empty_file :: inode where
  "empty_file = \<lparr>f_size = 0, f_data = (\<lambda>_. 0)\<rparr>"

definition EINTR :: int where "EINTR = 4"
definition ENOENT :: int where "ENOENT = 2"
definition EBADF :: int where "EBADF = 9"
definition EAGAIN :: int where "EAGAIN = 11"
definition EACCES :: int where "EACCES = 13"
definition EEXIST :: int where "EEXIST = 17"
definition EINVAL :: int where "EINVAL = 22"
definition ENOTEMPTY :: int where "ENOTEMPTY = 39"
definition ETIMEDOUT :: int where "ETIMEDOUT = 110"
definition POLLIN :: int where "POLLIN = 1"
definition POLLOUT :: int where "POLLOUT = 4"

lemmas errno_defs = EINTR_def ENOENT_def EBADF_def EAGAIN_def EACCES_def EEXIST_def EINVAL_def
  ENOTEMPTY_def ETIMEDOUT_def POLLIN_def POLLOUT_def

section \<open>The fault script\<close>

definition next_outcome :: "world \<Rightarrow> outcome \<times> world" where
  "next_outcome w =
     (case w_faults w of [] \<Rightarrow> (Ok, w) | f # fs \<Rightarrow> (f, w\<lparr>w_faults := fs\<rparr>))"

lemma next_outcome_Nil [simp, posix_simps]: "w_faults w = [] \<Longrightarrow> next_outcome w = (Ok, w)"
  by (simp add: next_outcome_def)

section \<open>Names\<close>

fun last_slash :: "string \<Rightarrow> nat option" where
  "last_slash [] = None"
| "last_slash (c # cs) =
     (case last_slash cs of Some k \<Rightarrow> Some (Suc k)
      | None \<Rightarrow> if c = CHR ''/'' then Some 0 else None)"

definition parent :: "path \<Rightarrow> path option" where
  "parent p = map_option (\<lambda>k. take k p) (last_slash p)"

definition lookup_path :: "world \<Rightarrow> path \<Rightarrow> node option" where
  "lookup_path w p = map_of (w_fs w) p"

definition has_dir :: "world \<Rightarrow> path \<Rightarrow> bool" where
  "has_dir w p \<longleftrightarrow> lookup_path w p = Some DirN"

definition parent_ok :: "world \<Rightarrow> path \<Rightarrow> bool" where
  "parent_ok w p = (case parent p of None \<Rightarrow> True | Some d \<Rightarrow> d = [] \<or> has_dir w d)"

text \<open>The names that \<^verbatim>\<open>readdir\<close> returns for a directory, in the order of the name space.\<close>

definition child_of :: "path \<Rightarrow> path \<Rightarrow> string option" where
  "child_of d p =
     (let n = drop (Suc (length d)) p in
      if take (Suc (length d)) p = d @ ''/'' \<and> n \<noteq> [] \<and> CHR ''/'' \<notin> set n then Some n else None)"

definition dir_entries :: "world \<Rightarrow> path \<Rightarrow> (string \<times> node) list" where
  "dir_entries w d =
     List.map_filter (\<lambda>(p, n). map_option (\<lambda>c. (c, n)) (child_of d p)) (w_fs w)"

definition sys_opendir :: "path \<Rightarrow> world \<Rightarrow> (string \<times> node) list option \<times> world" where
  "sys_opendir d w =
     (case next_outcome w of
        (Fail e, w1) \<Rightarrow> (None, w1\<lparr>w_errno := e\<rparr>)
      | (_, w1) \<Rightarrow>
          if has_dir w1 d
          then (Some ([(''.'', DirN), (''..'', DirN)] @ dir_entries w1 d), w1)
          else (None, w1\<lparr>w_errno := ENOENT\<rparr>))"

section \<open>Descriptors\<close>

definition alloc_fd :: "ofd \<Rightarrow> world \<Rightarrow> int \<times> world" where
  "alloc_fd d w =
     (int (w_next_fd w),
      w\<lparr>w_fds := (w_fds w)(int (w_next_fd w) \<mapsto> d), w_next_fd := Suc (w_next_fd w)\<rparr>)"

definition new_inode :: "path \<Rightarrow> world \<Rightarrow> nat \<times> world" where
  "new_inode p w =
     (w_next_ino w,
      w\<lparr>w_fs := w_fs w @ [(p, RegN (w_next_ino w))],
        w_files := (w_files w)(w_next_ino w := empty_file),
        w_next_ino := Suc (w_next_ino w)\<rparr>)"

text \<open>\<^verbatim>\<open>open(path, O_RDWR | O_NONBLOCK [| O_CREAT] [| O_APPEND], ...)\<close>\<close>

definition sys_open :: "path \<Rightarrow> bool \<Rightarrow> bool \<Rightarrow> world \<Rightarrow> int \<times> world" where
  "sys_open p creat app w =
     (case next_outcome w of
        (Fail e, w1) \<Rightarrow> (-1, w1\<lparr>w_errno := e\<rparr>)
      | (_, w1) \<Rightarrow>
         (case lookup_path w1 p of
            Some (RegN i) \<Rightarrow>
              alloc_fd \<lparr>o_ino = i, o_off = 0, o_append = app, o_nonblock = True\<rparr> w1
          | Some DirN \<Rightarrow> (-1, w1\<lparr>w_errno := EACCES\<rparr>)
          | None \<Rightarrow>
              if creat \<and> parent_ok w1 p
              then (case new_inode p w1 of
                      (i, w2) \<Rightarrow>
                        alloc_fd \<lparr>o_ino = i, o_off = 0, o_append = app, o_nonblock = True\<rparr> w2)
              else (-1, w1\<lparr>w_errno := ENOENT\<rparr>)))"

definition sys_close :: "int \<Rightarrow> world \<Rightarrow> world" where
  "sys_close fd w = w\<lparr>w_fds := (w_fds w)(fd := None)\<rparr>"

text \<open>The bytes of a file past its end are zero as soon as the file grows over them.\<close>

definition live_data :: "inode \<Rightarrow> nat \<Rightarrow> byte" where
  "live_data f = (\<lambda>i. if i < f_size f then f_data f i else 0)"

definition file_write :: "inode \<Rightarrow> nat \<Rightarrow> byte list \<Rightarrow> inode" where
  "file_write f p bs =
     f\<lparr>f_data := put_bytes (live_data f) p bs, f_size := max (f_size f) (p + length bs)\<rparr>"

definition file_truncate :: "inode \<Rightarrow> nat \<Rightarrow> inode" where
  "file_truncate f n = f\<lparr>f_data := live_data f, f_size := n\<rparr>"

definition sys_write :: "int \<Rightarrow> byte list \<Rightarrow> world \<Rightarrow> int \<times> world" where
  "sys_write fd bs w =
     (case next_outcome w of
        (Fail e, w1) \<Rightarrow> (-1, w1\<lparr>w_errno := e\<rparr>)
      | (out, w1) \<Rightarrow>
         (case w_fds w1 fd of
            None \<Rightarrow> (-1, w1\<lparr>w_errno := EBADF\<rparr>)
          | Some d \<Rightarrow>
             (let f = w_files w1 (o_ino d);
                  k = (case out of Short n \<Rightarrow> min n (length bs) | _ \<Rightarrow> length bs);
                  p = (if o_append d then f_size f else o_off d)
              in (int k,
                  if k = 0 then w1
                  else w1\<lparr>w_files := (w_files w1)(o_ino d := file_write f p (take k bs)),
                          w_fds := (w_fds w1)(fd \<mapsto> d\<lparr>o_off := p + k\<rparr>)\<rparr>))))"

definition sys_read :: "int \<Rightarrow> nat \<Rightarrow> world \<Rightarrow> int \<times> byte list \<times> world" where
  "sys_read fd n w =
     (case next_outcome w of
        (Fail e, w1) \<Rightarrow> (-1, [], w1\<lparr>w_errno := e\<rparr>)
      | (out, w1) \<Rightarrow>
         (case w_fds w1 fd of
            None \<Rightarrow> (-1, [], w1\<lparr>w_errno := EBADF\<rparr>)
          | Some d \<Rightarrow>
             (let f = w_files w1 (o_ino d);
                  a = min n (f_size f - o_off d);
                  k = (case out of Short s \<Rightarrow> min s a | _ \<Rightarrow> a)
              in (int k, bytes_at (f_data f) (o_off d) k,
                  w1\<lparr>w_fds := (w_fds w1)(fd \<mapsto> d\<lparr>o_off := o_off d + k\<rparr>)\<rparr>))))"

text \<open>\<^verbatim>\<open>lseek(fd, delta, SEEK_END)\<close>\<close>

definition sys_lseek_end :: "int \<Rightarrow> int \<Rightarrow> world \<Rightarrow> int \<times> world" where
  "sys_lseek_end fd delta w =
     (case next_outcome w of
        (Fail e, w1) \<Rightarrow> (-1, w1\<lparr>w_errno := e\<rparr>)
      | (_, w1) \<Rightarrow>
         (case w_fds w1 fd of
            None \<Rightarrow> (-1, w1\<lparr>w_errno := EBADF\<rparr>)
          | Some d \<Rightarrow>
             (let t = int (f_size (w_files w1 (o_ino d))) + delta
              in if t < 0 then (-1, w1\<lparr>w_errno := EINVAL\<rparr>)
                 else (t, w1\<lparr>w_fds := (w_fds w1)(fd \<mapsto> d\<lparr>o_off := nat t\<rparr>)\<rparr>))))"

definition sys_ftruncate :: "int \<Rightarrow> nat \<Rightarrow> world \<Rightarrow> int \<times> world" where
  "sys_ftruncate fd n w =
     (case next_outcome w of
        (Fail e, w1) \<Rightarrow> (-1, w1\<lparr>w_errno := e\<rparr>)
      | (_, w1) \<Rightarrow>
         (case w_fds w1 fd of
            None \<Rightarrow> (-1, w1\<lparr>w_errno := EBADF\<rparr>)
          | Some d \<Rightarrow>
             (0, w1\<lparr>w_files :=
                      (w_files w1)(o_ino d := file_truncate (w_files w1 (o_ino d)) n)\<rparr>)))"

text \<open>\<^verbatim>\<open>fcntl(fd, F_GETFL, 0)\<close>, reduced to the bit \<^verbatim>\<open>O_NONBLOCK\<close> that the code tests.\<close>

definition sys_getfl_nonblock :: "int \<Rightarrow> world \<Rightarrow> bool option \<times> world" where
  "sys_getfl_nonblock fd w =
     (case next_outcome w of
        (Fail e, w1) \<Rightarrow> (None, w1\<lparr>w_errno := e\<rparr>)
      | (_, w1) \<Rightarrow>
         (case w_fds w1 fd of
            None \<Rightarrow> (None, w1\<lparr>w_errno := EBADF\<rparr>)
          | Some d \<Rightarrow> (Some (o_nonblock d), w1)))"

text \<open>
  \<^verbatim>\<open>poll\<close> on one descriptor: a regular file is always ready; \<open>Short k\<close> makes the call
  return with \<^verbatim>\<open>revents = k\<close> (0 is a timeout).
\<close>

definition sys_poll :: "int \<Rightarrow> int \<Rightarrow> world \<Rightarrow> int \<times> int \<times> world" where
  "sys_poll fd events w =
     (case next_outcome w of
        (Fail e, w1) \<Rightarrow> (-1, 0, w1\<lparr>w_errno := e\<rparr>)
      | (Short k, w1) \<Rightarrow> (if k = 0 then 0 else 1, int k, w1)
      | (Ok, w1) \<Rightarrow> (1, events, w1))"

section \<open>Names that come and go\<close>

definition sys_unlink :: "path \<Rightarrow> world \<Rightarrow> world" where
  "sys_unlink p w =
     (case next_outcome w of
        (Fail e, w1) \<Rightarrow> w1\<lparr>w_errno := e\<rparr>
      | (_, w1) \<Rightarrow>
         (case lookup_path w1 p of
            Some (RegN _) \<Rightarrow> w1\<lparr>w_fs := filter (\<lambda>(q, _). q \<noteq> p) (w_fs w1)\<rparr>
          | Some DirN \<Rightarrow> w1\<lparr>w_errno := EACCES\<rparr>
          | None \<Rightarrow> w1\<lparr>w_errno := ENOENT\<rparr>))"

definition sys_mkdir :: "path \<Rightarrow> world \<Rightarrow> int \<times> world" where
  "sys_mkdir p w =
     (case next_outcome w of
        (Fail e, w1) \<Rightarrow> (-1, w1\<lparr>w_errno := e\<rparr>)
      | (_, w1) \<Rightarrow>
          if lookup_path w1 p \<noteq> None then (-1, w1\<lparr>w_errno := EEXIST\<rparr>)
          else if \<not> parent_ok w1 p then (-1, w1\<lparr>w_errno := ENOENT\<rparr>)
          else (0, w1\<lparr>w_fs := w_fs w1 @ [(p, DirN)]\<rparr>))"

definition sys_rmdir :: "path \<Rightarrow> world \<Rightarrow> world" where
  "sys_rmdir p w =
     (case next_outcome w of
        (Fail e, w1) \<Rightarrow> w1\<lparr>w_errno := e\<rparr>
      | (_, w1) \<Rightarrow>
          if \<not> has_dir w1 p then w1\<lparr>w_errno := ENOENT\<rparr>
          else if dir_entries w1 p \<noteq> [] then w1\<lparr>w_errno := ENOTEMPTY\<rparr>
          else w1\<lparr>w_fs := filter (\<lambda>(q, _). q \<noteq> p) (w_fs w1)\<rparr>)"

text \<open>\<^verbatim>\<open>access(path, F_OK | R_OK | W_OK)\<close>\<close>

definition sys_access :: "path \<Rightarrow> world \<Rightarrow> int \<times> world" where
  "sys_access p w =
     (case next_outcome w of
        (Fail e, w1) \<Rightarrow> (-1, w1\<lparr>w_errno := e\<rparr>)
      | (_, w1) \<Rightarrow>
          if lookup_path w1 p = None then (-1, w1\<lparr>w_errno := ENOENT\<rparr>) else (0, w1))"

text \<open>\<^verbatim>\<open>lstat\<close>: the kind of an entry; \<^verbatim>\<open>stat\<close>: the size of a file.\<close>

definition sys_lstat :: "path \<Rightarrow> world \<Rightarrow> node option" where
  "sys_lstat p w = lookup_path w p"

definition sys_stat_size :: "path \<Rightarrow> world \<Rightarrow> nat option" where
  "sys_stat_size p w =
     (case lookup_path w p of
        Some (RegN i) \<Rightarrow> Some (f_size (w_files w i))
      | Some DirN \<Rightarrow> Some 4096
      | None \<Rightarrow> None)"

section \<open>Mapped memory\<close>

definition sys_mmap :: "nat \<Rightarrow> int \<Rightarrow> world \<Rightarrow> ptr \<times> world" where
  "sys_mmap len fd w =
     (case next_outcome w of
        (Fail e, w1) \<Rightarrow> (None, w1\<lparr>w_errno := e\<rparr>)
      | (_, w1) \<Rightarrow>
         (case w_fds w1 fd of
            None \<Rightarrow> (None, w1\<lparr>w_errno := EBADF\<rparr>)
          | Some d \<Rightarrow>
             (Some (w_next_map w1),
              w1\<lparr>w_maps := (w_maps w1)(w_next_map w1 \<mapsto> \<lparr>m_ino = o_ino d, m_len = len\<rparr>),
                 w_next_map := Suc (w_next_map w1)\<rparr>)))"

definition sys_munmap :: "ptr \<Rightarrow> world \<Rightarrow> world" where
  "sys_munmap p w =
     (case p of None \<Rightarrow> w | Some m \<Rightarrow> w\<lparr>w_maps := (w_maps w)(m := None)\<rparr>)"

definition map_file :: "world \<Rightarrow> ptr \<Rightarrow> (nat \<times> nat) option" where
  "map_file w p =
     (case p of None \<Rightarrow> None
      | Some m \<Rightarrow> (case w_maps w m of None \<Rightarrow> None
                   | Some mp \<Rightarrow> Some (m_ino mp, min (m_len mp) (f_size (w_files w (m_ino mp))))))"

definition mem_load :: "world \<Rightarrow> ptr \<Rightarrow> nat \<Rightarrow> nat \<Rightarrow> byte list option" where
  "mem_load w p off n =
     (case map_file w p of
        None \<Rightarrow> None
      | Some (i, lim) \<Rightarrow>
          if off + n \<le> lim then Some (bytes_at (f_data (w_files w i)) off n) else None)"

definition mem_store :: "ptr \<Rightarrow> nat \<Rightarrow> byte list \<Rightarrow> world \<Rightarrow> world option" where
  "mem_store p off bs w =
     (case map_file w p of
        None \<Rightarrow> None
      | Some (i, lim) \<Rightarrow>
          if off + length bs \<le> lim
          then Some (w\<lparr>w_files := (w_files w)
                       (i := (w_files w i)\<lparr>f_data := put_bytes (f_data (w_files w i)) off bs\<rparr>)\<rparr>)
          else None)"

section \<open>Clocks\<close>

text \<open>\<^verbatim>\<open>clock_gettime(CLOCK_MONOTONIC)\<close> in nanoseconds; \<^verbatim>\<open>gettimeofday\<close> in seconds.\<close>

definition sys_clock :: "world \<Rightarrow> int \<times> world" where
  "sys_clock w =
     (case w_ticks w of
        [] \<Rightarrow> (w_clock w, w)
      | t # ts \<Rightarrow> (w_clock w + int t, w\<lparr>w_clock := w_clock w + int t, w_ticks := ts\<rparr>))"

definition sys_gettimeofday :: "world \<Rightarrow> int" where
  "sys_gettimeofday w = w_wall w"

text \<open>Reading the clock changes nothing else.\<close>

definition tick :: "world \<Rightarrow> world" where
  "tick w = snd (sys_clock w)"

lemma tick_simps [simp]:
  "w_fs (tick w) = w_fs w" "w_files (tick w) = w_files w" "w_next_ino (tick w) = w_next_ino w"
  "w_fds (tick w) = w_fds w" "w_next_fd (tick w) = w_next_fd w" "w_maps (tick w) = w_maps w"
  "w_next_map (tick w) = w_next_map w" "w_faults (tick w) = w_faults w"
  "w_errno (tick w) = w_errno w" "w_bavail (tick w) = w_bavail w" "w_bsize (tick w) = w_bsize w"
  "w_wall (tick w) = w_wall w"
  by (simp_all add: tick_def sys_clock_def split: list.splits)

lemma tick_Nil [simp]: "w_ticks w = [] \<Longrightarrow> tick w = w"
  by (simp add: tick_def sys_clock_def)

section \<open>Effects of calls that do not fail\<close>

text \<open>Appending or writing at the offset of a descriptor, when nothing fails.\<close>

definition fd_put :: "int \<Rightarrow> ofd \<Rightarrow> byte list \<Rightarrow> world \<Rightarrow> world" where
  "fd_put fd d bs w =
     (let f = w_files w (o_ino d); p = (if o_append d then f_size f else o_off d)
      in w\<lparr>w_files := (w_files w)(o_ino d := file_write f p bs),
           w_fds := (w_fds w)(fd \<mapsto> d\<lparr>o_off := p + length bs\<rparr>)\<rparr>)"

lemma sys_write_ok [posix_simps]:
  "w_faults w = [] \<Longrightarrow> w_fds w fd = Some d \<Longrightarrow> bs \<noteq> [] \<Longrightarrow>
   sys_write fd bs w = (int (length bs), fd_put fd d bs w)"
  by (simp add: sys_write_def fd_put_def Let_def)

lemma fd_put_simps [simp]:
  "w_fs (fd_put fd d bs w) = w_fs w" "w_next_ino (fd_put fd d bs w) = w_next_ino w"
  "w_next_fd (fd_put fd d bs w) = w_next_fd w" "w_maps (fd_put fd d bs w) = w_maps w"
  "w_next_map (fd_put fd d bs w) = w_next_map w" "w_faults (fd_put fd d bs w) = w_faults w"
  "w_bavail (fd_put fd d bs w) = w_bavail w" "w_bsize (fd_put fd d bs w) = w_bsize w"
  "w_ticks (fd_put fd d bs w) = w_ticks w" "w_clock (fd_put fd d bs w) = w_clock w"
  by (simp_all add: fd_put_def Let_def)

lemma fd_put_other_file [simp]: "i \<noteq> o_ino d \<Longrightarrow> w_files (fd_put fd d bs w) i = w_files w i"
  by (simp add: fd_put_def Let_def)

lemma fd_put_other_fd [simp]: "fd' \<noteq> fd \<Longrightarrow> w_fds (fd_put fd d bs w) fd' = w_fds w fd'"
  by (simp add: fd_put_def Let_def)

lemma sys_read_ok [posix_simps]:
  "w_faults w = [] \<Longrightarrow> w_fds w fd = Some d \<Longrightarrow>
   sys_read fd n w =
     (let k = min n (f_size (w_files w (o_ino d)) - o_off d)
      in (int k, bytes_at (f_data (w_files w (o_ino d))) (o_off d) k,
          w\<lparr>w_fds := (w_fds w)(fd \<mapsto> d\<lparr>o_off := o_off d + k\<rparr>)\<rparr>))"
  by (simp add: sys_read_def Let_def)

lemma sys_lseek_end_ok [posix_simps]:
  "w_faults w = [] \<Longrightarrow> w_fds w fd = Some d \<Longrightarrow> n \<le> f_size (w_files w (o_ino d)) \<Longrightarrow>
   sys_lseek_end fd (- int n) w =
     (int (f_size (w_files w (o_ino d)) - n),
      w\<lparr>w_fds := (w_fds w)(fd \<mapsto> d\<lparr>o_off := f_size (w_files w (o_ino d)) - n\<rparr>)\<rparr>)"
  by (simp add: sys_lseek_end_def Let_def of_nat_diff nat_diff_distrib)

text \<open>A world for examples: files of 64 megabytes of zeros, one of them mapped.\<close>

definition sample_world :: world where
  "sample_world = \<lparr>w_fs = [], w_files = (\<lambda>_. \<lparr>f_size = 67108864, f_data = (\<lambda>_. 0)\<rparr>), w_next_ino = 2,
     w_fds = [3 \<mapsto> \<lparr>o_ino = 0, o_off = 0, o_append = False, o_nonblock = True\<rparr>,
       4 \<mapsto> \<lparr>o_ino = 1, o_off = 0, o_append = True, o_nonblock = True\<rparr>], w_next_fd = 5,
     w_maps = [0 \<mapsto> \<lparr>m_ino = 0, m_len = 67108864\<rparr>], w_next_map = 1, w_faults = [], w_errno = 0,
     w_bavail = 0, w_bsize = 0, w_clock = 0, w_ticks = [], w_wall = 0\<rparr>"

end
