(* ===== verification/Config.thy ===== *)
theory Config
  imports Prelude
begin

text \<open>
  \<^verbatim>\<open>src/src/mq_config.c\<close> and \<^verbatim>\<open>mq_config.h\<close>: the configuration record with its defaults, and
  the size limit of a data file that \<^verbatim>\<open>mq_util.h\<close> derives from it.
\<close>

record ucmq_conf =
  output_log_path :: string
  output_log_level :: string
  res_store_space :: u64
  max_qlist_itmes :: int
  sync_interval :: int
  sync_time_interval :: int
  def_max_queue :: u32
  data_file_path :: string
  db_file_max_size :: int

definition g_mq_conf :: ucmq_conf where
  "g_mq_conf = \<lparr>
     output_log_path = ''../log'',
     output_log_level = ''info'',
     res_store_space = 1,
     max_qlist_itmes = 32,
     sync_interval = 100,
     sync_time_interval = 100,
     def_max_queue = 100000000,
     data_file_path = ''../data'',
     db_file_max_size = 64\<rparr>"

text \<open>
  \<^verbatim>\<open>MAX_DB_FILE_SIZE\<close> is an \<^verbatim>\<open>int\<close> product; it is compared with \<^verbatim>\<open>uint32_t\<close> positions, which
  converts it to 32 unsigned bits.
\<close>

definition MAX_DB_FILE_SIZE :: "ucmq_conf \<Rightarrow> u32" where
  "MAX_DB_FILE_SIZE cf = word_of_int (db_file_max_size cf * 1024 * 1024)"

definition MAX_DB_FILE_SIZE_LIMIT :: int where
  "MAX_DB_FILE_SIZE_LIMIT = 64"

text \<open>
  The configurations the code is written for: at least one megabyte, at most the
  documented limit, and a limit on the number of queues that is an \<^verbatim>\<open>int\<close>.
\<close>

definition conf_ok :: "ucmq_conf \<Rightarrow> bool" where
  "conf_ok cf \<longleftrightarrow> 1 \<le> db_file_max_size cf \<and> db_file_max_size cf \<le> MAX_DB_FILE_SIZE_LIMIT
     \<and> max_qlist_itmes cf < 2 ^ 31"

abbreviation max_db :: "ucmq_conf \<Rightarrow> nat" where
  "max_db cf \<equiv> unat (MAX_DB_FILE_SIZE cf)"

lemma g_mq_conf_ok: "conf_ok g_mq_conf"
  by (simp add: conf_ok_def g_mq_conf_def MAX_DB_FILE_SIZE_LIMIT_def)

lemma max_db_eq:
  assumes "conf_ok cf"
  shows "int (max_db cf) = db_file_max_size cf * 1048576"
proof -
  let ?n = "db_file_max_size cf * 1024 * 1024"
  have "0 \<le> ?n" and "?n < 2 ^ 32"
    using assms by (auto simp: conf_ok_def MAX_DB_FILE_SIZE_LIMIT_def)
  then have "uint (word_of_int ?n :: u32) = ?n"
    by (simp only: uint_word_of_int_eq take_bit_int_eq_self_iff) simp
  then show ?thesis by (simp only: MAX_DB_FILE_SIZE_def of_nat_unat)
qed

lemma max_db_lower: "conf_ok cf \<Longrightarrow> 1048576 \<le> max_db cf"
  using max_db_eq [of cf] by (simp add: conf_ok_def del: of_nat_unat)

lemma max_db_upper: "conf_ok cf \<Longrightarrow> max_db cf \<le> 67108864"
  using max_db_eq [of cf] by (simp add: conf_ok_def MAX_DB_FILE_SIZE_LIMIT_def del: of_nat_unat)

end
