(* ===== verification/Crc16.thy ===== *)
theory Crc16
  imports Prelude
begin

unbundle bit_operations_syntax

text \<open>
  \<^verbatim>\<open>src/src/crc16.c\<close>: the table-driven CRC-16 over message bodies.
  The table is the source's table. The lemmas show that it is the byte-wise form of the
  bit-serial CRC with the reflected polynomial \<open>0xA001\<close> (\<open>X16 + X15 + X2 + 1\<close>), that the checksum of a message
  is linear in the message, and that it detects every corruption confined to two
  neighbouring bytes.
\<close>

section \<open>The code\<close>

definition crc16tab :: "u16 list" where
  "crc16tab = [
     0x0000, 0xC0C1, 0xC181, 0x0140, 0xC301, 0x03C0, 0x0280, 0xC241,
     0xC601, 0x06C0, 0x0780, 0xC741, 0x0500, 0xC5C1, 0xC481, 0x0440,
     0xCC01, 0x0CC0, 0x0D80, 0xCD41, 0x0F00, 0xCFC1, 0xCE81, 0x0E40,
     0x0A00, 0xCAC1, 0xCB81, 0x0B40, 0xC901, 0x09C0, 0x0880, 0xC841,
     0xD801, 0x18C0, 0x1980, 0xD941, 0x1B00, 0xDBC1, 0xDA81, 0x1A40,
     0x1E00, 0xDEC1, 0xDF81, 0x1F40, 0xDD01, 0x1DC0, 0x1C80, 0xDC41,
     0x1400, 0xD4C1, 0xD581, 0x1540, 0xD701, 0x17C0, 0x1680, 0xD641,
     0xD201, 0x12C0, 0x1380, 0xD341, 0x1100, 0xD1C1, 0xD081, 0x1040,
     0xF001, 0x30C0, 0x3180, 0xF141, 0x3300, 0xF3C1, 0xF281, 0x3240,
     0x3600, 0xF6C1, 0xF781, 0x3740, 0xF501, 0x35C0, 0x3480, 0xF441,
     0x3C00, 0xFCC1, 0xFD81, 0x3D40, 0xFF01, 0x3FC0, 0x3E80, 0xFE41,
     0xFA01, 0x3AC0, 0x3B80, 0xFB41, 0x3900, 0xF9C1, 0xF881, 0x3840,
     0x2800, 0xE8C1, 0xE981, 0x2940, 0xEB01, 0x2BC0, 0x2A80, 0xEA41,
     0xEE01, 0x2EC0, 0x2F80, 0xEF41, 0x2D00, 0xEDC1, 0xEC81, 0x2C40,
     0xE401, 0x24C0, 0x2580, 0xE541, 0x2700, 0xE7C1, 0xE681, 0x2640,
     0x2200, 0xE2C1, 0xE381, 0x2340, 0xE101, 0x21C0, 0x2080, 0xE041,
     0xA001, 0x60C0, 0x6180, 0xA141, 0x6300, 0xA3C1, 0xA281, 0x6240,
     0x6600, 0xA6C1, 0xA781, 0x6740, 0xA501, 0x65C0, 0x6480, 0xA441,
     0x6C00, 0xACC1, 0xAD81, 0x6D40, 0xAF01, 0x6FC0, 0x6E80, 0xAE41,
     0xAA01, 0x6AC0, 0x6B80, 0xAB41, 0x6900, 0xA9C1, 0xA881, 0x6840,
     0x7800, 0xB8C1, 0xB981, 0x7940, 0xBB01, 0x7BC0, 0x7A80, 0xBA41,
     0xBE01, 0x7EC0, 0x7F80, 0xBF41, 0x7D00, 0xBDC1, 0xBC81, 0x7C40,
     0xB401, 0x74C0, 0x7580, 0xB541, 0x7700, 0xB7C1, 0xB681, 0x7640,
     0x7200, 0xB2C1, 0xB381, 0x7340, 0xB101, 0x71C0, 0x7080, 0xB041,
     0x5000, 0x90C1, 0x9181, 0x5140, 0x9301, 0x53C0, 0x5280, 0x9241,
     0x9601, 0x56C0, 0x5780, 0x9741, 0x5500, 0x95C1, 0x9481, 0x5440,
     0x9C01, 0x5CC0, 0x5D80, 0x9D41, 0x5F00, 0x9FC1, 0x9E81, 0x5E40,
     0x5A00, 0x9AC1, 0x9B81, 0x5B40, 0x9901, 0x59C0, 0x5880, 0x9841,
     0x8801, 0x48C0, 0x4980, 0x8941, 0x4B00, 0x8BC1, 0x8A81, 0x4A40,
     0x4E00, 0x8EC1, 0x8F81, 0x4F40, 0x8D01, 0x4DC0, 0x4C80, 0x8C41,
     0x4400, 0x84C1, 0x8581, 0x4540, 0x8701, 0x47C0, 0x4680, 0x8641,
     0x8201, 0x42C0, 0x4380, 0x8341, 0x4100, 0x81C1, 0x8081, 0x4040]"

text \<open>The loop body \<^verbatim>\<open>c16 = (c16 >> 8) ^ crc16tab[(c16 ^ buf[i]) & 0xff]\<close>.\<close>

definition crc16_step :: "u16 \<Rightarrow> byte \<Rightarrow> u16" where
  "crc16_step c16 b = drop_bit 8 c16 XOR crc16tab ! unat ((c16 XOR ucast b) AND 0xff)"

fun crc16_loop :: "u16 \<Rightarrow> byte list \<Rightarrow> u16" where
  "crc16_loop c16 [] = c16"
| "crc16_loop c16 (b # bs) = crc16_loop (crc16_step c16 b) bs"

text \<open>
  \<^verbatim>\<open>crc16_append(crc16, data, len)\<close> reads the first \<open>len\<close> bytes of \<open>data\<close> (none for
  \<open>len \<le> 0\<close>), stores the result through \<^verbatim>\<open>crc16\<close> and returns \<^verbatim>\<open>true\<close>. Despite its name it
  starts from 0, whatever \<^verbatim>\<open>*crc16\<close> holds.
\<close>

definition crc16_append :: "u16 \<Rightarrow> byte list \<Rightarrow> int \<Rightarrow> u16 \<times> bool" where
  "crc16_append crc16 data len = (crc16_loop 0 (take (nat len) data), True)"

section \<open>The bit-serial reference\<close>

definition crc_bit :: "u16 \<Rightarrow> u16" where
  "crc_bit x = (if bit x 0 then drop_bit 1 x XOR 0xA001 else drop_bit 1 x)"

definition crc_byte :: "u16 \<Rightarrow> u16" where
  "crc_byte x = crc_bit (crc_bit (crc_bit (crc_bit (crc_bit (crc_bit (crc_bit (crc_bit x)))))))"

fun crc_ref :: "u16 \<Rightarrow> byte list \<Rightarrow> u16" where
  "crc_ref c [] = c"
| "crc_ref c (b # bs) = crc_ref (crc_byte (c XOR ucast b)) bs"

lemma crc16tab_length [simp]: "length crc16tab = 256"
  by (simp add: crc16tab_def)

lemma crc16tab_crc_byte_list: "crc16tab = map crc_byte [
     0, 1, 2, 3, 4, 5, 6, 7, 8, 9, 10, 11, 12, 13, 14, 15, 16, 17, 18, 19, 20, 21, 22, 23, 24,
     25, 26, 27, 28, 29, 30, 31, 32, 33, 34, 35, 36, 37, 38, 39, 40, 41, 42, 43, 44, 45, 46,
     47, 48, 49, 50, 51, 52, 53, 54, 55, 56, 57, 58, 59, 60, 61, 62, 63, 64, 65, 66, 67, 68,
     69, 70, 71, 72, 73, 74, 75, 76, 77, 78, 79, 80, 81, 82, 83, 84, 85, 86, 87, 88, 89, 90,
     91, 92, 93, 94, 95, 96, 97, 98, 99, 100, 101, 102, 103, 104, 105, 106, 107, 108, 109, 110,
     111, 112, 113, 114, 115, 116, 117, 118, 119, 120, 121, 122, 123, 124, 125, 126, 127, 128,
     129, 130, 131, 132, 133, 134, 135, 136, 137, 138, 139, 140, 141, 142, 143, 144, 145, 146,
     147, 148, 149, 150, 151, 152, 153, 154, 155, 156, 157, 158, 159, 160, 161, 162, 163, 164,
     165, 166, 167, 168, 169, 170, 171, 172, 173, 174, 175, 176, 177, 178, 179, 180, 181, 182,
     183, 184, 185, 186, 187, 188, 189, 190, 191, 192, 193, 194, 195, 196, 197, 198, 199, 200,
     201, 202, 203, 204, 205, 206, 207, 208, 209, 210, 211, 212, 213, 214, 215, 216, 217, 218,
     219, 220, 221, 222, 223, 224, 225, 226, 227, 228, 229, 230, 231, 232, 233, 234, 235, 236,
     237, 238, 239, 240, 241, 242, 243, 244, 245, 246, 247, 248, 249, 250, 251, 252, 253, 254,
     255]"
  by (simp add: crc16tab_def crc_byte_def crc_bit_def)

lemma upt_256_words: "map of_nat [0..<256] = ([
     0, 1, 2, 3, 4, 5, 6, 7, 8, 9, 10, 11, 12, 13, 14, 15, 16, 17, 18, 19, 20, 21, 22, 23, 24,
     25, 26, 27, 28, 29, 30, 31, 32, 33, 34, 35, 36, 37, 38, 39, 40, 41, 42, 43, 44, 45, 46,
     47, 48, 49, 50, 51, 52, 53, 54, 55, 56, 57, 58, 59, 60, 61, 62, 63, 64, 65, 66, 67, 68,
     69, 70, 71, 72, 73, 74, 75, 76, 77, 78, 79, 80, 81, 82, 83, 84, 85, 86, 87, 88, 89, 90,
     91, 92, 93, 94, 95, 96, 97, 98, 99, 100, 101, 102, 103, 104, 105, 106, 107, 108, 109, 110,
     111, 112, 113, 114, 115, 116, 117, 118, 119, 120, 121, 122, 123, 124, 125, 126, 127, 128,
     129, 130, 131, 132, 133, 134, 135, 136, 137, 138, 139, 140, 141, 142, 143, 144, 145, 146,
     147, 148, 149, 150, 151, 152, 153, 154, 155, 156, 157, 158, 159, 160, 161, 162, 163, 164,
     165, 166, 167, 168, 169, 170, 171, 172, 173, 174, 175, 176, 177, 178, 179, 180, 181, 182,
     183, 184, 185, 186, 187, 188, 189, 190, 191, 192, 193, 194, 195, 196, 197, 198, 199, 200,
     201, 202, 203, 204, 205, 206, 207, 208, 209, 210, 211, 212, 213, 214, 215, 216, 217, 218,
     219, 220, 221, 222, 223, 224, 225, 226, 227, 228, 229, 230, 231, 232, 233, 234, 235, 236,
     237, 238, 239, 240, 241, 242, 243, 244, 245, 246, 247, 248, 249, 250, 251, 252, 253, 254,
     255] :: u16 list)"
  by (simp add: upt_conv_Cons [of 0] upt_conv_Cons [of "Suc 0"] flip: numeral_2_eq_2)

lemma crc16tab_nth: "i < 256 \<Longrightarrow> crc16tab ! i = crc_byte (of_nat i)"
  by (simp add: crc16tab_crc_byte_list flip: upt_256_words)

section \<open>Linearity\<close>

lemma xor_eq_0: "(x::'a::len word) XOR y = 0 \<Longrightarrow> x = y"
  by (metis xor.assoc xor.right_neutral xor_self_eq)

lemma xor_cancel_right: "(x::'a::len word) XOR z = y XOR z \<Longrightarrow> x = y"
  by (metis xor.assoc xor.right_neutral xor_self_eq)

lemma crc_bit_xor: "crc_bit (x XOR y) = crc_bit x XOR crc_bit y"
  by (auto simp: crc_bit_def bit_xor_iff drop_bit_xor xor.assoc xor.left_commute xor.commute)

lemma crc_byte_xor: "crc_byte (x XOR y) = crc_byte x XOR crc_byte y"
  by (simp add: crc_byte_def crc_bit_xor)

lemma crc_bit_0 [simp]: "crc_bit 0 = 0"
  by (simp add: crc_bit_def)

lemma crc_byte_0 [simp]: "crc_byte 0 = 0"
  by (simp add: crc_byte_def)

lemma crc_bit_drop: "\<not> bit x i \<Longrightarrow> crc_bit (drop_bit i x) = drop_bit (Suc i) x"
  by (simp add: crc_bit_def bit_drop_bit_eq)

lemma crc_byte_high: "crc_byte (push_bit 8 x) = drop_bit 8 (push_bit 8 x)"
proof -
  let ?y = "push_bit 8 x"
  have z: "\<not> bit ?y i" if "i < 8" for i
    using that by (simp add: bit_push_bit_iff)
  have s: "crc_bit (drop_bit i ?y) = drop_bit (Suc i) ?y" if "i < 8" for i
    using that z by (simp add: crc_bit_drop del: push_bit_numeral)
  show ?thesis
    using s [of 0] s [of 1] s [of 2] s [of 3] s [of 4] s [of 5] s [of 6] s [of 7]
    by (simp add: crc_byte_def flip: numeral_2_eq_2)
qed

lemma split_low_byte: "(x::u16) = (x AND 0xff) XOR push_bit 8 (drop_bit 8 x)"
proof -
  have m: "(0xff::u16) = mask 8" by (simp add: mask_eq_exp_minus_1)
  show ?thesis unfolding m
    by (rule bit_word_eqI) (auto simp: bit_simps)
qed

lemma crc_byte_split: "crc_byte x = drop_bit 8 x XOR crc_byte (x AND 0xff)"
proof -
  have "drop_bit 8 (push_bit 8 (drop_bit 8 x)) = drop_bit 8 x"
    by (rule bit_word_eqI) (auto simp: bit_simps dest: bit_imp_le_length)
  then have "crc_byte (push_bit 8 (drop_bit 8 x)) = drop_bit 8 x"
    by (simp add: crc_byte_high)
  then show ?thesis
    by (metis crc_byte_xor split_low_byte xor.commute)
qed

lemma low_byte_lt: "unat ((x::u16) AND 0xff) < 256"
proof -
  have "(x AND 0xff) \<le> 0xff" by (rule word_and_le1)
  then show ?thesis by (simp add: word_le_nat_alt)
qed

lemma crc16_step_crc_byte: "crc16_step c b = crc_byte (c XOR ucast b)"
proof -
  have "drop_bit 8 (c XOR ucast b) = drop_bit 8 c"
    by (rule bit_word_eqI) (auto simp: bit_simps dest: bit_imp_le_length)
  then show ?thesis
    using crc_byte_split [of "c XOR ucast b"]
    by (simp add: crc16_step_def crc16tab_nth low_byte_lt)
qed

lemma crc16_loop_ref: "crc16_loop c bs = crc_ref c bs"
  by (induction bs arbitrary: c) (simp_all add: crc16_step_crc_byte)

lemma crc16_loop_append: "crc16_loop c (as @ bs) = crc16_loop (crc16_loop c as) bs"
  by (induction as arbitrary: c) simp_all

section \<open>Injectivity\<close>

lemma crc_bit_eq_0: "crc_bit x = 0 \<Longrightarrow> x = 0"
proof (cases "bit x 0")
  case True
  assume "crc_bit x = 0"
  with True have "drop_bit 1 x XOR 0xA001 = 0" by (simp add: crc_bit_def)
  then have "\<not> bit (drop_bit 1 x XOR 0xA001) 15" by simp
  then have "bit x 16" by (simp add: bit_simps bit_numeral_rec)
  then show ?thesis by (auto dest: bit_imp_le_length)
next
  case False
  assume "crc_bit x = 0"
  with False have d: "drop_bit 1 x = 0" by (simp add: crc_bit_def)
  show ?thesis
  proof (rule bit_word_eqI)
    fix n
    from d have "\<not> bit (drop_bit 1 x) (n - 1)" by simp
    then show "bit x n = bit 0 n"
      using False by (cases n) (auto simp: bit_simps)
  qed
qed

lemma crc_byte_eq_0: "crc_byte x = 0 \<Longrightarrow> x = 0"
  unfolding crc_byte_def by (blast dest: crc_bit_eq_0)

lemma crc_byte_inj: "crc_byte x = crc_byte y \<Longrightarrow> x = y"
proof -
  assume "crc_byte x = crc_byte y"
  then have "crc_byte (x XOR y) = 0" by (simp add: crc_byte_xor)
  then have "x XOR y = 0" by (rule crc_byte_eq_0)
  then show ?thesis by (rule xor_eq_0)
qed

lemma unat_ucast_byte: "unat (ucast (e :: byte) :: u16) = unat e"
proof -
  have "unat e < 2 ^ 16" using unsigned_less [of e, where 'a = nat] by simp
  then show ?thesis by (simp add: unsigned_ucast_eq take_bit_nat_eq_self)
qed

lemma ucast_byte_lt_256: "256 \<le> (ucast (e :: byte) :: u16) \<Longrightarrow> False"
  using unsigned_less [of e, where 'a = nat] by (simp add: word_le_nat_alt unat_ucast_byte)

lemma crc_byte_difference:
  assumes "crc_byte (c XOR ucast a) XOR ucast b = crc_byte (c XOR ucast a') XOR ucast b'"
  shows "crc_byte (ucast ((a::byte) XOR a')) = ucast ((b::byte) XOR b')"
proof -
  let ?p = "crc_byte (c XOR ucast a)" and ?q = "crc_byte (c XOR ucast a')"
  have "ucast (a XOR a') = (c XOR ucast a) XOR (c XOR ucast a')"
    by (simp add: unsigned_xor_eq ac_simps)
  then have "crc_byte (ucast (a XOR a')) = ?p XOR ?q" by (simp only: crc_byte_xor)
  also have "?p = ?q XOR (ucast b XOR ucast b')"
    using arg_cong [OF assms, of "\<lambda>x. x XOR ucast b"] by (simp add: ac_simps)
  finally show ?thesis by (simp add: unsigned_xor_eq ac_simps)
qed

lemma crc16_step_inj: "crc16_step c b = crc16_step d b \<Longrightarrow> c = d"
  unfolding crc16_step_crc_byte by (drule crc_byte_inj) (rule xor_cancel_right)

lemma crc16_loop_inj: "crc16_loop c bs = crc16_loop d bs \<Longrightarrow> c = d"
  by (induction bs arbitrary: c d) (auto dest: crc16_step_inj)

lemma crc16tab_high: "\<forall>t \<in> set (tl crc16tab). 256 \<le> t"
  by (simp add: crc16tab_def)

lemma crc_byte_ucast_high: "crc_byte (ucast (d :: byte)) = ucast (e :: byte) \<Longrightarrow> d = 0"
proof (rule ccontr)
  assume eq: "crc_byte (ucast d) = ucast e" and "d \<noteq> 0"
  then have pos: "0 < unat d" by (simp add: unat_gt_0)
  have lt: "unat d < 256" using unsigned_less [of d, where 'a = nat] by simp
  have "of_nat (unat d) = (ucast d :: u16)" by (simp add: unat_ucast_byte flip: unat_ucast_byte)
  then have "crc16tab ! unat d = crc_byte (ucast d)"
    using lt by (simp add: crc16tab_nth)
  moreover have "crc16tab ! unat d \<in> set (tl crc16tab)"
    using pos lt by (metis One_nat_def Suc_pred crc16tab_length diff_less_mono length_tl
        less_eq_Suc_le nth_mem nth_tl)
  ultimately have "256 \<le> (ucast e :: u16)" using crc16tab_high eq by simp
  then show False by (rule ucast_byte_lt_256)
qed

lemma crc16_two_bytes:
  assumes "crc16_loop c [a, b] = crc16_loop c [a', b']"
  shows "a = a' \<and> b = b'"
proof -
  from assms have "crc_byte (c XOR ucast a) XOR ucast b = crc_byte (c XOR ucast a') XOR ucast b'"
    by (auto simp: crc16_step_crc_byte dest: crc_byte_inj)
  then have eq: "crc_byte (ucast (a XOR a')) = ucast (b XOR b')" by (rule crc_byte_difference)
  then have z: "a XOR a' = 0" by (rule crc_byte_ucast_high)
  with eq have "unat (ucast (b XOR b') :: u16) = 0" by simp
  then have "b XOR b' = 0" by (simp add: unat_ucast_byte unsigned_eq_0_iff)
  with z show ?thesis by (auto dest: xor_eq_0)
qed

section \<open>Properties\<close>

text \<open>
  The comment above the table in \<^verbatim>\<open>crc16.c\<close> names the polynomial \<open>X16 + X12 + X5 + X0\<close>, and next to it \<open>A001\<close>, which
  stands for another one. \<open>crc_poly es\<close> is the bit-serial checksum for \<open>X16\<close> and the powers \<open>es\<close>, low bits first.
\<close>

definition reflected :: "nat list \<Rightarrow> u16" where
  "reflected es = foldr (\<lambda>e r. r OR push_bit (15 - e) 1) es 0"

definition poly_bit :: "nat list \<Rightarrow> u16 \<Rightarrow> u16" where
  "poly_bit es x = (if bit x 0 then drop_bit 1 x XOR reflected es else drop_bit 1 x)"

fun crc_poly :: "nat list \<Rightarrow> u16 \<Rightarrow> byte list \<Rightarrow> u16" where
  "crc_poly es c [] = c"
| "crc_poly es c (b # bs) = crc_poly es ((poly_bit es ^^ 8) (c XOR ucast b)) bs"

lemma poly_bit_A001: "poly_bit [15, 2, 0] = crc_bit"
  by (rule ext) (simp add: poly_bit_def crc_bit_def reflected_def)

lemma crc_byte_pow: "(crc_bit ^^ 8) x = crc_byte x"
  by (simp add: crc_byte_def eval_nat_numeral)

lemma crc_poly_ref: "crc_poly [15, 2, 0] c bs = crc_ref c bs"
  by (induction bs arbitrary: c) (simp_all only: crc_poly.simps crc_ref.simps poly_bit_A001 crc_byte_pow)

text \<open>
  C28. The checksum that the table-driven loop of \<^verbatim>\<open>crc16_append\<close> stores is the bit-serial CRC-16 of the first \<open>n\<close>
  bytes with the polynomial \<open>X16 + X15 + X2 + 1\<close> and initial value 0, whatever the result variable held before, and the
  call returns true. It is not that of the polynomial in the comment, which differs on the byte 1.
\<close>

theorem crc16_append_reference:
  "crc16_append c data n = (crc_poly [15, 2, 0] 0 (take (nat n) data), True)
   \<and> crc_poly [12, 5, 0] 0 [1] \<noteq> fst (crc16_append c [1] 1)"
proof
  show "crc16_append c data n = (crc_poly [15, 2, 0] 0 (take (nat n) data), True)"
    by (simp add: crc16_append_def crc16_loop_ref crc_poly_ref)
  have "crc_poly [12, 5, 0] 0 [1] = 0x1189"
    by code_simp
  moreover have "fst (crc16_append c [1] 1) = 0xC0C1" by (simp add: crc16_append_def crc16_step_def crc16tab_def)
  ultimately show "crc_poly [12, 5, 0] 0 [1] \<noteq> fst (crc16_append c [1] 1)" by simp
qed

text \<open>
  C29. Two messages of the same length that differ only inside two adjacent bytes never have the
  same checksum: any corruption confined to two adjacent bytes is detected.
\<close>

theorem crc16_detects_two_bytes:
  assumes "(a, b) \<noteq> (a', b')"
  shows "fst (crc16_append c (xs @ [a, b] @ ys) (int (length xs + 2 + length ys)))
       \<noteq> fst (crc16_append c (xs @ [a', b'] @ ys) (int (length xs + 2 + length ys)))"
proof -
  have split: "crc16_loop 0 (xs @ [x, y] @ ys) = crc16_loop (crc16_loop (crc16_loop 0 xs) [x, y]) ys"
    for x y by (simp only: crc16_loop_append)
  have "crc16_loop (crc16_loop 0 xs) [a, b] \<noteq> crc16_loop (crc16_loop 0 xs) [a', b']"
    using assms crc16_two_bytes by blast
  then have "crc16_loop 0 (xs @ [a, b] @ ys) \<noteq> crc16_loop 0 (xs @ [a', b'] @ ys)"
    unfolding split by (blast dest: crc16_loop_inj)
  then show ?thesis by (simp add: crc16_append_def)
qed

theorem crc16_detects_two_bytes_witness:
  "fst (crc16_append 0 ([1, 2] @ [3, 4] @ [5]) 5) \<noteq> fst (crc16_append 0 ([1, 2] @ [3, 5] @ [5]) 5)"
  using crc16_detects_two_bytes [of 3 4 3 5 0 "[1, 2]" "[5]"] by simp

end
