(* ===== verification/Store_Types.thy ===== *)
theory Store_Types
  imports Posix Config
begin

text \<open>
  The data of \<^verbatim>\<open>src/src/mq_util.h\<close>: layout constants of data files and messages, the mapped
  data file, the queue, the names found by a directory scan, and the message item.
  A \<^verbatim>\<open>char *\<close> to a message is either the caller's buffer or a place in a mapped file, so
  that reading a message through it is an access that can be out of bounds.
\<close>

named_theorems store_consts "layout constants"

definition DB_FILE_HEAD_LEN :: nat where [store_consts]: "DB_FILE_HEAD_LEN = 128"
definition DB_FILE_VERSION :: nat where [store_consts]: "DB_FILE_VERSION = 1"
definition MSG_HEAD_LEN :: nat where [store_consts]: "MSG_HEAD_LEN = 12"
definition MSG_HEAD_OF_FIRST_MAGIC_NUM :: byte where
  [store_consts]: "MSG_HEAD_OF_FIRST_MAGIC_NUM = 0xFE"
definition MSG_HEAD_OF_SECOND_MAGIC_NUM :: byte where
  [store_consts]: "MSG_HEAD_OF_SECOND_MAGIC_NUM = 0xAC"
definition MAX_FULL_FILE_NAME_LEN :: nat where [store_consts]: "MAX_FULL_FILE_NAME_LEN = 256"
definition MAX_DATA_PATH_NAME_LEN :: nat where [store_consts]: "MAX_DATA_PATH_NAME_LEN = 128"
definition MAX_QUEUE_NAME_LEN :: nat where [store_consts]: "MAX_QUEUE_NAME_LEN = 32"

record mq_db_map =
  d_fd :: int
  d_stat :: int
  d_flag :: int
  d_map_mem :: ptr
  d_pos :: u32
  d_opt_count :: u32
  d_cur_index :: u64

record mq_queue =
  q_name :: string
  rtag_fd :: int
  wtag_fd :: int
  sync_intv :: int
  maxque :: u32
  put_num :: u64
  get_num :: u64
  cur_rdb :: mq_db_map
  cur_wdb :: mq_db_map
  q_mutex :: bool

text \<open>A queue list node of the hash table: its key and the queue.\<close>

type_synonym mq_queue_list = "(string \<times> mq_queue) list"

record queue_file =
  rtag_fname :: string
  wtag_fname :: string
  read_fname :: string
  write_fname :: string
  rtag_fid :: u64
  wtag_fid :: u64
  read_fid :: u64
  write_fid :: u64

datatype msgptr = NullMsg | Caller "byte list" | InMap ptr nat

record msg_item =
  magic_num1 :: byte
  magic_num2 :: byte
  delay :: u32
  crc16 :: u16
  len :: u32
  msg :: msgptr

text \<open>What \<^verbatim>\<open>memset(p, 0, sizeof *p)\<close> leaves.\<close>

definition zero_db_map :: mq_db_map where
  "zero_db_map = \<lparr>d_fd = 0, d_stat = 0, d_flag = 0, d_map_mem = None, d_pos = 0, d_opt_count = 0,
     d_cur_index = 0\<rparr>"

definition zero_queue :: mq_queue where
  "zero_queue = \<lparr>q_name = [], rtag_fd = 0, wtag_fd = 0, sync_intv = 0, maxque = 0, put_num = 0,
     get_num = 0, cur_rdb = zero_db_map, cur_wdb = zero_db_map, q_mutex = False\<rparr>"

definition zero_queue_file :: queue_file where
  "zero_queue_file = \<lparr>rtag_fname = [], wtag_fname = [], read_fname = [], write_fname = [],
     rtag_fid = 0, wtag_fid = 0, read_fid = 0, write_fid = 0\<rparr>"

text \<open>Reading \<open>n\<close> bytes through a message pointer.\<close>

definition load_msg :: "world \<Rightarrow> msgptr \<Rightarrow> nat \<Rightarrow> byte list option" where
  "load_msg w p n =
     (case p of
        NullMsg \<Rightarrow> None
      | Caller bs \<Rightarrow> (if n \<le> length bs then Some (take n bs) else None)
      | InMap m off \<Rightarrow> mem_load w m off n)"

text \<open>
  \<^verbatim>\<open>pthread_mutex_lock\<close> blocks for ever on a mutex the thread already holds;
  \<^verbatim>\<open>pthread_mutex_unlock\<close> releases it.
\<close>

definition mutex_lock :: "mq_queue \<Rightarrow> mq_queue option" where
  "mutex_lock q = (if q_mutex q then None else Some (q\<lparr>q_mutex := True\<rparr>))"

definition mutex_unlock :: "mq_queue \<Rightarrow> mq_queue" where
  "mutex_unlock q = q\<lparr>q_mutex := False\<rparr>"

text \<open>Updates of the two mapped files of a queue.\<close>

abbreviation upd_rdb :: "(mq_db_map \<Rightarrow> mq_db_map) \<Rightarrow> mq_queue \<Rightarrow> mq_queue" where
  "upd_rdb f q \<equiv> q\<lparr>cur_rdb := f (cur_rdb q)\<rparr>"

abbreviation upd_wdb :: "(mq_db_map \<Rightarrow> mq_db_map) \<Rightarrow> mq_queue \<Rightarrow> mq_queue" where
  "upd_wdb f q \<equiv> q\<lparr>cur_wdb := f (cur_wdb q)\<rparr>"

end
