(* ===== verification/Store_Msg.thy ===== *)
theory Store_Msg
  imports Store_Types Crc16
begin

text \<open>
  \<^verbatim>\<open>src/src/mq_store_msg.c\<close>: checking and decoding the message at a position of a mapped data
  file, the head of a data file, and the scan that counts the messages of a file
  (\<^verbatim>\<open>mq_sm_db_write_msg\<close>, which may switch files, is in the theory \<open>Store_Manage\<close>).
\<close>

datatype msg_check_ret =
    MSG_CHECK_RET_OK
  | MSG_CHECK_RET_MSG_ERR
  | MSG_CHECK_RET_MAG_NUM_ERR
  | MSG_CHECK_RET_PARSE_ERR
  | MSG_CHECK_RET_CRC_ERR
  | MSG_CHECK_RET_LEN_BEY

section \<open>The code\<close>

text \<open>The length arrives as an \<^verbatim>\<open>int\<close>: a \<^verbatim>\<open>uint32_t\<close> above \<open>2^31 - 1\<close> is negative there.\<close>

definition mq_sm_db_build_msg_crc16 :: "world \<Rightarrow> u16 \<Rightarrow> msgptr \<Rightarrow> u32 \<Rightarrow> (bool \<times> u16) option" where
  "mq_sm_db_build_msg_crc16 w crc data n =
     (if sint n < 0 \<or> data = NullMsg then Some (False, crc)
      else do {
        bs \<leftarrow> load_msg w data (unat n);
        let (tmp_crc16, ok) = crc16_append 0 bs (sint n);
        Some (if ok then (True, tmp_crc16) else (False, crc))
      })"

text \<open>The head is read field by field, at the offsets the writer uses.\<close>

definition mq_sm_db_parse_msg_head :: "msg_item \<Rightarrow> byte list \<Rightarrow> bool \<times> msg_item" where
  "mq_sm_db_parse_msg_head item h =
     (True, item\<lparr>magic_num1 := h ! 0, magic_num2 := h ! 1,
                 delay := from_le32 (drop 2 h),
                 crc16 := from_le16 (drop 6 h),
                 len := from_le32 (drop 8 h)\<rparr>)"

definition mq_sm_db_parse_msg ::
    "ucmq_conf \<Rightarrow> world \<Rightarrow> ptr \<Rightarrow> u32 \<Rightarrow> msg_item \<Rightarrow> (msg_check_ret \<times> msg_item) option" where
  "mq_sm_db_parse_msg cf w m cur_pos item =
     (if m = None then Some (MSG_CHECK_RET_MSG_ERR, item)
      else if cur_pos + of_nat MSG_HEAD_LEN \<ge> MAX_DB_FILE_SIZE cf
      then Some (MSG_CHECK_RET_LEN_BEY, item)
      else do {
        magic \<leftarrow> mem_load w m (unat cur_pos) 2;
        if magic ! 0 \<noteq> MSG_HEAD_OF_FIRST_MAGIC_NUM \<or> magic ! 1 \<noteq> MSG_HEAD_OF_SECOND_MAGIC_NUM
        then Some (MSG_CHECK_RET_MAG_NUM_ERR, item)
        else do {
          h \<leftarrow> mem_load w m (unat cur_pos) MSG_HEAD_LEN;
          let (ok, item) = mq_sm_db_parse_msg_head item h;
          if \<not> ok then Some (MSG_CHECK_RET_PARSE_ERR, item)
          else if cur_pos + len item + of_nat MSG_HEAD_LEN > MAX_DB_FILE_SIZE cf
          then Some (MSG_CHECK_RET_LEN_BEY, item)
          else do {
            let body = InMap m (unat cur_pos + MSG_HEAD_LEN);
            (ok, tmp_crc16) \<leftarrow> mq_sm_db_build_msg_crc16 w 0 body (len item);
            if ok \<and> crc16 item = tmp_crc16
            then Some (MSG_CHECK_RET_OK, item\<lparr>msg := body\<rparr>)
            else Some (MSG_CHECK_RET_CRC_ERR, item)
          }
        }
      })"

text \<open>
  The head of a data file: \<^verbatim>\<open>"%01d%012u"\<close> of the version and the number of messages, in a
  block of 128 zero bytes.
\<close>

definition db_file_head :: "u32 \<Rightarrow> byte list" where
  "db_file_head cnt =
     (let s = map digit_byte (pad_digits 1 DB_FILE_VERSION @ pad_digits 12 (unat cnt))
      in s @ replicate (DB_FILE_HEAD_LEN - length s) 0)"

definition mq_sm_db_write_file_head :: "mq_queue \<Rightarrow> world \<Rightarrow> (bool \<times> world) option" where
  "mq_sm_db_write_file_head q w = do {
     w \<leftarrow> mem_store (d_map_mem (cur_wdb q)) 0 (db_file_head (d_opt_count (cur_wdb q))) w;
     Some (True, w)
   }"

text \<open>
  The counting scan. \<^verbatim>\<open>curr_file_pos\<close> is an \<^verbatim>\<open>int\<close>, so an advance past \<open>2^31 - 1\<close> is
  undefined (\<open>None\<close>). The step is how far each verdict moves the position.
\<close>

definition count_step :: "msg_check_ret \<Rightarrow> u32 \<Rightarrow> nat" where
  "count_step r n =
     (case r of
        MSG_CHECK_RET_OK \<Rightarrow> MSG_HEAD_LEN + unat n
      | MSG_CHECK_RET_MAG_NUM_ERR \<Rightarrow> 1
      | MSG_CHECK_RET_PARSE_ERR \<Rightarrow> 2
      | MSG_CHECK_RET_CRC_ERR \<Rightarrow> 2
      | MSG_CHECK_RET_LEN_BEY \<Rightarrow> 2
      | MSG_CHECK_RET_MSG_ERR \<Rightarrow> 0)"

function count_loop ::
    "ucmq_conf \<Rightarrow> world \<Rightarrow> ptr \<Rightarrow> nat \<Rightarrow> nat \<Rightarrow> msg_item \<Rightarrow> u32 \<Rightarrow> u32 option" where
  "count_loop cf w m end_pos p item cnt =
     (if end_pos \<le> p then Some cnt
      else case mq_sm_db_parse_msg cf w m (of_nat p) item of
             None \<Rightarrow> None
           | Some (r, item') \<Rightarrow>
               if r = MSG_CHECK_RET_MSG_ERR then Some cnt
               else (let p' = p + count_step r (len item') in
                     if p' < 2 ^ 31
                     then count_loop cf w m end_pos p' item'
                            (if r = MSG_CHECK_RET_OK then cnt + 1 else cnt)
                     else None))"
  by pat_completeness auto
termination
  by (relation "measure (\<lambda>(cf, w, m, e, p, item, cnt). 2 ^ 31 - p)")
     (auto simp: count_step_def MSG_HEAD_LEN_def split: msg_check_ret.splits)

declare count_loop.simps [simp del]

definition mq_sm_db_cal_msg_count ::
    "ucmq_conf \<Rightarrow> int \<Rightarrow> u32 \<Rightarrow> msg_item \<Rightarrow> world \<Rightarrow> (u32 \<times> world) option" where
  "mq_sm_db_cal_msg_count cf fd end_pos item w =
     (case sys_mmap (max_db cf) fd w of
        (None, w) \<Rightarrow> Some (-1, w)
      | (Some m, w) \<Rightarrow> do {
          cnt \<leftarrow> count_loop cf w (Some m) (unat end_pos) 0 item 0;
          Some (cnt, sys_munmap (Some m) w)
        })"

section \<open>The layout of a message\<close>

definition msg_head_bytes :: "msg_item \<Rightarrow> byte list" where
  "msg_head_bytes it = [magic_num1 it, magic_num2 it] @ le32 (delay it) @ le16 (crc16 it) @ le32 (len it)"

definition encode_msg :: "u32 \<Rightarrow> byte list \<Rightarrow> byte list" where
  "encode_msg d body =
     [MSG_HEAD_OF_FIRST_MAGIC_NUM, MSG_HEAD_OF_SECOND_MAGIC_NUM] @ le32 d
       @ le16 (crc16_loop 0 body) @ le32 (of_nat (length body)) @ body"

text \<open>The bodies that \<^verbatim>\<open>mq_store_put\<close> accepts for a given file size.\<close>

definition body_ok :: "ucmq_conf \<Rightarrow> byte list \<Rightarrow> bool" where
  "body_ok cf body \<longleftrightarrow> 0 < length body \<and> length body + DB_FILE_HEAD_LEN + MSG_HEAD_LEN \<le> max_db cf"

definition no_magic :: "(nat \<Rightarrow> byte) \<Rightarrow> nat \<Rightarrow> bool" where
  "no_magic f p \<longleftrightarrow> f p \<noteq> MSG_HEAD_OF_FIRST_MAGIC_NUM \<or> f (Suc p) \<noteq> MSG_HEAD_OF_SECOND_MAGIC_NUM"

text \<open>A live mapping of a whole data file.\<close>

definition maps_db :: "ucmq_conf \<Rightarrow> world \<Rightarrow> ptr \<Rightarrow> nat \<Rightarrow> bool" where
  "maps_db cf w m i \<longleftrightarrow> map_file w m = Some (i, max_db cf)"

lemma length_encode_msg [simp]: "length (encode_msg d body) = MSG_HEAD_LEN + length body"
  by (simp add: encode_msg_def MSG_HEAD_LEN_def)

lemma length_msg_head_bytes [simp]: "length (msg_head_bytes it) = MSG_HEAD_LEN"
  by (simp add: msg_head_bytes_def MSG_HEAD_LEN_def)

lemma parse_msg_head_bytes:
  "mq_sm_db_parse_msg_head item (msg_head_bytes it) = (True, it\<lparr>msg := msg item\<rparr>)"
proof -
  have "drop 2 (msg_head_bytes it) = le32 (delay it) @ le16 (crc16 it) @ le32 (len it)"
    and "drop 6 (msg_head_bytes it) = le16 (crc16 it) @ le32 (len it)"
    and "drop 8 (msg_head_bytes it) = le32 (len it)"
    by (simp_all add: msg_head_bytes_def)
  then show ?thesis
    by (simp add: mq_sm_db_parse_msg_head_def bytes_simps) (simp add: msg_head_bytes_def)
qed

lemma load_msg_InMap [simp]: "load_msg w (InMap m off) n = mem_load w m off n"
  by (simp add: load_msg_def)

lemma mem_load_maps_db:
  "maps_db cf w m i \<Longrightarrow> off + n \<le> max_db cf \<Longrightarrow>
   mem_load w m off n = Some (bytes_at (f_data (w_files w i)) off n)"
  by (simp add: maps_db_def mem_load_def)

lemma maps_db_not_Null: "maps_db cf w m i \<Longrightarrow> m \<noteq> None"
  by (auto simp: maps_db_def map_file_def split: option.splits)

section \<open>What the check of a message returns\<close>

lemma of_nat_MSG_HEAD_LEN [simp]: "(of_nat MSG_HEAD_LEN :: u32) = 12"
  by (simp add: MSG_HEAD_LEN_def)

text \<open>Positions are compared at 32 bits; inside a file nothing wraps.\<close>

lemma unat_pos_head: "conf_ok cf \<Longrightarrow> unat p \<le> max_db cf \<Longrightarrow> unat (p + 12 :: u32) = unat p + 12"
  using max_db_upper [of cf] by (simp add: unat_add_u32)

lemma pos_head_guard:
  "conf_ok cf \<Longrightarrow> unat p \<le> max_db cf \<Longrightarrow>
   (MAX_DB_FILE_SIZE cf \<le> p + 12) = (max_db cf \<le> unat p + 12)"
  by (simp add: word_le_nat_alt unat_pos_head)

lemma pos_len_guard:
  assumes "conf_ok cf" and "unat p \<le> max_db cf" and "unat n < 2147483648"
  shows "(MAX_DB_FILE_SIZE cf < p + n + 12) = (max_db cf < unat p + unat n + 12)"
  using assms max_db_upper [of cf] by (simp add: word_less_nat_alt unat_add_u32)

lemma crc_check_Some:
  assumes "maps_db cf w m i" and "sint n < 0 \<or> off + unat n \<le> max_db cf"
  shows "mq_sm_db_build_msg_crc16 w c (InMap m off) n =
     Some (if sint n < 0 then (False, c)
           else (True, crc16_loop 0 (bytes_at (f_data (w_files w i)) off (unat n))))"
  using assms
  by (auto simp: mq_sm_db_build_msg_crc16_def mem_load_maps_db crc16_append_def nat_sint_u32)

lemma parse_msg_null: "mq_sm_db_parse_msg cf w None p item = Some (MSG_CHECK_RET_MSG_ERR, item)"
  by (simp add: mq_sm_db_parse_msg_def)

lemma parse_msg_beyond:
  assumes "conf_ok cf" and "maps_db cf w m i" and "unat p \<le> max_db cf" and "max_db cf \<le> unat p + 12"
  shows "mq_sm_db_parse_msg cf w m p item = Some (MSG_CHECK_RET_LEN_BEY, item)"
  using assms maps_db_not_Null [OF assms(2)]
  by (simp add: mq_sm_db_parse_msg_def pos_head_guard)

lemma parse_msg_no_magic:
  assumes "conf_ok cf" and "maps_db cf w m i" and "unat p + 12 < max_db cf"
    and "no_magic (f_data (w_files w i)) (unat p)"
  shows "mq_sm_db_parse_msg cf w m p item = Some (MSG_CHECK_RET_MAG_NUM_ERR, item)"
  using assms maps_db_not_Null [OF assms(2)]
  by (simp add: mq_sm_db_parse_msg_def pos_head_guard mem_load_maps_db no_magic_def)

text \<open>
  The central fact on well-placed messages: where a data file holds the encoding of a body,
  the check succeeds and describes exactly this body.
\<close>

lemma parse_msg_encoded:
  assumes cf: "conf_ok cf" and m: "maps_db cf w m i"
    and body: "0 < length body" and fit: "unat p + MSG_HEAD_LEN + length body \<le> max_db cf"
    and enc: "bytes_at (f_data (w_files w i)) (unat p) (MSG_HEAD_LEN + length body) = encode_msg d body"
  shows "mq_sm_db_parse_msg cf w m p item =
     Some (MSG_CHECK_RET_OK,
       \<lparr>magic_num1 = MSG_HEAD_OF_FIRST_MAGIC_NUM, magic_num2 = MSG_HEAD_OF_SECOND_MAGIC_NUM,
        delay = d, crc16 = crc16_loop 0 body, len = of_nat (length body),
        msg = InMap m (unat p + MSG_HEAD_LEN)\<rparr>)"
proof -
  let ?f = "f_data (w_files w i)"
  let ?it = "\<lparr>magic_num1 = MSG_HEAD_OF_FIRST_MAGIC_NUM, magic_num2 = MSG_HEAD_OF_SECOND_MAGIC_NUM,
        delay = d, crc16 = crc16_loop 0 body, len = of_nat (length body), msg = msg item\<rparr>"
  have up: "max_db cf \<le> 67108864" using cf by (rule max_db_upper)
  have n: "unat (of_nat (length body) :: u32) = length body"
    using fit up by (simp add: unat_of_nat take_bit_nat_eq_self MSG_HEAD_LEN_def)
  have enc': "encode_msg d body = msg_head_bytes ?it @ body"
    by (simp add: encode_msg_def msg_head_bytes_def)
  from enc have "bytes_at ?f (unat p) MSG_HEAD_LEN @ bytes_at ?f (unat p + MSG_HEAD_LEN) (length body)
      = msg_head_bytes ?it @ body"
    by (simp only: bytes_at_add enc')
  then have h: "bytes_at ?f (unat p) MSG_HEAD_LEN = msg_head_bytes ?it"
    and b: "bytes_at ?f (unat p + MSG_HEAD_LEN) (length body) = body"
    by (simp_all add: append_eq_append_conv)
  have "bytes_at ?f (unat p) 2 = take 2 (bytes_at ?f (unat p) MSG_HEAD_LEN)"
    by (rule nth_equalityI) (auto simp: MSG_HEAD_LEN_def)
  then have mg: "bytes_at ?f (unat p) 2 = [MSG_HEAD_OF_FIRST_MAGIC_NUM, MSG_HEAD_OF_SECOND_MAGIC_NUM]"
    by (simp add: h msg_head_bytes_def)
  have sn: "\<not> sint (of_nat (length body) :: u32) < 0"
    using fit up by (simp add: sint_u32_neg n)
  have parse: "mq_sm_db_parse_msg_head item (msg_head_bytes ?it) = (True, ?it)"
    by (simp add: parse_msg_head_bytes)
  have crc: "mq_sm_db_build_msg_crc16 w 0 (InMap m (unat p + MSG_HEAD_LEN)) (of_nat (length body))
      = Some (True, crc16_loop 0 body)"
    using crc_check_Some [OF m, of "of_nat (length body)" "unat p + MSG_HEAD_LEN" 0] sn fit
    by (simp add: n b)
  have g1: "\<not> MAX_DB_FILE_SIZE cf \<le> p + 12"
    using pos_head_guard [OF cf, of p] fit body by (simp add: MSG_HEAD_LEN_def del: length_greater_0_conv)
  have g2: "\<not> MAX_DB_FILE_SIZE cf < p + of_nat (length body) + 12"
    using pos_len_guard [OF cf, of p "of_nat (length body)"] fit up by (simp add: n MSG_HEAD_LEN_def)
  have l2: "mem_load w m (unat p) 2 = Some (bytes_at ?f (unat p) 2)"
    and l12: "mem_load w m (unat p) MSG_HEAD_LEN = Some (bytes_at ?f (unat p) MSG_HEAD_LEN)"
    using fit by (simp_all add: mem_load_maps_db [OF m] MSG_HEAD_LEN_def)
  show ?thesis
    using maps_db_not_Null [OF m] g1 g2
    by (simp add: mq_sm_db_parse_msg_def l2 l12 mg h parse crc)
qed

text \<open>
  Whatever a data file holds, the check of a position inside it stays inside the mapping:
  the length of a damaged head may make \<^verbatim>\<open>cur_pos + len + MSG_HEAD_LEN\<close> wrap around and pass the
  bound, but such a length is negative as an \<^verbatim>\<open>int\<close> and the checksum is not computed.
\<close>

lemma parse_msg_safe:
  assumes cf: "conf_ok cf" and m: "maps_db cf w m i" and p: "unat p \<le> max_db cf"
  obtains r item' where "mq_sm_db_parse_msg cf w m p item = Some (r, item')"
    and "r \<noteq> MSG_CHECK_RET_MSG_ERR" and "r \<noteq> MSG_CHECK_RET_PARSE_ERR"
    and "r = MSG_CHECK_RET_LEN_BEY \<or> unat p + MSG_HEAD_LEN < max_db cf"
    and "r = MSG_CHECK_RET_OK \<Longrightarrow>
           unat p + MSG_HEAD_LEN + unat (len item') \<le> max_db cf
           \<and> \<not> no_magic (f_data (w_files w i)) (unat p)
           \<and> msg item' = InMap m (unat p + MSG_HEAD_LEN)
           \<and> crc16 item' = crc16_loop 0 (bytes_at (f_data (w_files w i)) (unat p + MSG_HEAD_LEN) (unat (len item')))"
proof (cases "max_db cf \<le> unat p + 12")
  case True
  with parse_msg_beyond [OF cf m p] that show ?thesis by (auto simp: MSG_HEAD_LEN_def)
next
  case False
  let ?f = "f_data (w_files w i)"
  let ?h = "bytes_at ?f (unat p) MSG_HEAD_LEN"
  obtain it where head: "mq_sm_db_parse_msg_head item ?h = (True, it)"
    by (simp add: mq_sm_db_parse_msg_head_def)
  show ?thesis
  proof (cases "no_magic ?f (unat p)")
    case True
    have "mq_sm_db_parse_msg cf w m p item = Some (MSG_CHECK_RET_MAG_NUM_ERR, item)"
      using False True by (intro parse_msg_no_magic [OF cf m]) simp_all
    then show ?thesis using False by (intro that) (auto simp: MSG_HEAD_LEN_def)
  next
    case magic: False
    have l2: "mem_load w m (unat p) 2 = Some (bytes_at ?f (unat p) 2)"
      and l12: "mem_load w m (unat p) MSG_HEAD_LEN = Some ?h"
      using False by (simp_all add: mem_load_maps_db [OF m] MSG_HEAD_LEN_def)
    have g1: "\<not> MAX_DB_FILE_SIZE cf \<le> p + 12"
      using pos_head_guard [OF cf p] False by simp
    let ?bey = "MAX_DB_FILE_SIZE cf < p + len it + 12"
    let ?crc = "mq_sm_db_build_msg_crc16 w 0 (InMap m (unat p + MSG_HEAD_LEN)) (len it)"
    have eq: "mq_sm_db_parse_msg cf w m p item =
        (if ?bey then Some (MSG_CHECK_RET_LEN_BEY, it)
         else do { (ok, c) \<leftarrow> ?crc;
                   if ok \<and> crc16 it = c
                   then Some (MSG_CHECK_RET_OK, it\<lparr>msg := InMap m (unat p + MSG_HEAD_LEN)\<rparr>)
                   else Some (MSG_CHECK_RET_CRC_ERR, it) })"
      using maps_db_not_Null [OF m] g1 magic
      by (auto simp: mq_sm_db_parse_msg_def l2 l12 no_magic_def head Let_def)
    show ?thesis
    proof (cases ?bey)
      case True
      then show ?thesis using eq by (intro that) auto
    next
      case fits: False
      have "sint (len it) < 0 \<or> unat p + MSG_HEAD_LEN + unat (len it) \<le> max_db cf"
        using pos_len_guard [OF cf p, of "len it"] fits by (force simp: sint_u32_neg MSG_HEAD_LEN_def not_less)
      then have crc: "?crc = Some (if sint (len it) < 0 then (False, 0)
          else (True, crc16_loop 0 (bytes_at ?f (unat p + MSG_HEAD_LEN) (unat (len it)))))"
        and bnd: "\<not> sint (len it) < 0 \<Longrightarrow> unat p + MSG_HEAD_LEN + unat (len it) \<le> max_db cf"
        using crc_check_Some [OF m] by auto
      have lt: "unat p + MSG_HEAD_LEN < max_db cf" using False by (simp add: MSG_HEAD_LEN_def)
      show ?thesis
      proof (cases "\<not> sint (len it) < 0
          \<and> crc16 it = crc16_loop 0 (bytes_at ?f (unat p + MSG_HEAD_LEN) (unat (len it)))")
        case True
        then show ?thesis
          using eq fits crc bnd lt magic by (intro that [of MSG_CHECK_RET_OK]) auto
      next
        case False
        then show ?thesis
          using eq fits crc lt by (intro that [of MSG_CHECK_RET_CRC_ERR]) (auto split: if_splits)
      qed
    qed
  qed
qed

section \<open>Runs of messages in a file\<close>

fun msgs_at :: "(nat \<Rightarrow> byte) \<Rightarrow> nat \<Rightarrow> (u32 \<times> byte list) list \<Rightarrow> nat \<Rightarrow> bool" where
  "msgs_at f p [] e \<longleftrightarrow> p = e"
| "msgs_at f p ((d, b) # ms) e \<longleftrightarrow>
     0 < length b \<and> bytes_at f p (MSG_HEAD_LEN + length b) = encode_msg d b
     \<and> msgs_at f (p + MSG_HEAD_LEN + length b) ms e"

definition skips :: "(nat \<Rightarrow> byte) \<Rightarrow> nat \<Rightarrow> nat \<Rightarrow> bool" where
  "skips f p q \<longleftrightarrow> p \<le> q \<and> (\<forall>i. p \<le> i \<and> i < q \<longrightarrow> no_magic f i)"

lemma msgs_at_le: "msgs_at f p ms e \<Longrightarrow> p \<le> e"
  by (induction ms arbitrary: p) force+

lemma msgs_at_append:
  "msgs_at f p ms e \<Longrightarrow> msgs_at f e ms' e' \<Longrightarrow> msgs_at f p (ms @ ms') e'"
  by (induction ms arbitrary: p) auto

lemma msgs_at_cong:
  "msgs_at f p ms e \<Longrightarrow> (\<And>i. p \<le> i \<Longrightarrow> i < e \<Longrightarrow> f i = g i) \<Longrightarrow> msgs_at g p ms e"
proof (induction ms arbitrary: p)
  case Nil
  then show ?case by simp
next
  case (Cons m ms)
  obtain d b where m: "m = (d, b)" by force
  have e: "p + MSG_HEAD_LEN + length b \<le> e" using Cons.prems(1) m by (auto dest: msgs_at_le)
  have "bytes_at f p (MSG_HEAD_LEN + length b) = bytes_at g p (MSG_HEAD_LEN + length b)"
    using e by (intro bytes_at_cong Cons.prems(2)) auto
  moreover have "msgs_at g (p + MSG_HEAD_LEN + length b) ms e"
    using Cons.prems m by (intro Cons.IH) auto
  ultimately show ?case using Cons.prems(1) m by simp
qed

lemma skips_trans: "skips f p q \<Longrightarrow> skips f q r \<Longrightarrow> skips f p r"
  by (fastforce simp: skips_def not_less)

lemma skips_refl [simp]: "skips f p p"
  by (auto simp: skips_def)

lemma skips_cong: "skips f p q \<Longrightarrow> (\<And>i. p \<le> i \<Longrightarrow> i \<le> q \<Longrightarrow> f i = g i) \<Longrightarrow> skips g p q"
  by (auto simp: skips_def no_magic_def)

lemma msgs_at_singleton:
  "0 < length b \<Longrightarrow> msgs_at (put_bytes f p (encode_msg d b)) p [(d, b)] (p + MSG_HEAD_LEN + length b)"
  by (simp add: bytes_at_put_same)

section \<open>Counting\<close>

lemma count_loop_skips:
  assumes "conf_ok cf" and "maps_db cf w m i" and "q + 12 < max_db cf" and "q \<le> e"
  shows "skips (f_data (w_files w i)) p q \<Longrightarrow> count_loop cf w m e p item cnt = count_loop cf w m e q item cnt"
proof (induction "q - p" arbitrary: p)
  case 0
  then show ?case by (auto simp: skips_def)
next
  case (Suc n)
  have up: "max_db cf \<le> 67108864" using assms(1) by (rule max_db_upper)
  have p: "p < q" "no_magic (f_data (w_files w i)) p" "skips (f_data (w_files w i)) (Suc p) q"
    using Suc by (auto simp: skips_def)
  have u: "unat (of_nat p :: u32) = p"
    using p(1) assms(3) up by (simp add: unat_of_nat take_bit_nat_eq_self)
  have "mq_sm_db_parse_msg cf w m (of_nat p) item = Some (MSG_CHECK_RET_MAG_NUM_ERR, item)"
    using p assms(3) u by (intro parse_msg_no_magic [OF assms(1,2)]) simp_all
  moreover have "Suc p < 2 ^ 31" using p(1) assms(3) up by simp
  moreover have "\<not> e \<le> p" using p(1) assms(4) by simp
  ultimately have "count_loop cf w m e p item cnt = count_loop cf w m e (Suc p) item cnt"
    by (simp add: count_loop.simps [of cf w m e p] count_step_def Let_def)
  then show ?case using Suc.hyps(1) [of "Suc p"] Suc.hyps(2) p(3) by simp
qed

lemma count_loop_msgs:
  assumes "conf_ok cf" and "maps_db cf w m i" and "e \<le> max_db cf"
  shows "msgs_at (f_data (w_files w i)) p ms e \<Longrightarrow>
         count_loop cf w m e p item cnt = Some (cnt + of_nat (length ms))"
proof (induction ms arbitrary: p item cnt)
  case Nil
  then show ?case by (simp add: count_loop.simps)
next
  case (Cons x ms)
  obtain d b where x: "x = (d, b)" by force
  have up: "max_db cf \<le> 67108864" using assms(1) by (rule max_db_upper)
  let ?p = "p + MSG_HEAD_LEN + length b"
  have b: "0 < length b" "bytes_at (f_data (w_files w i)) p (MSG_HEAD_LEN + length b) = encode_msg d b"
    and ms: "msgs_at (f_data (w_files w i)) ?p ms e" and e: "?p \<le> e"
    using Cons.prems x by (auto dest: msgs_at_le)
  have u: "unat (of_nat p :: u32) = p" "unat (of_nat (length b) :: u32) = length b"
    using e assms(3) up by (simp_all add: unat_of_nat take_bit_nat_eq_self)
  obtain it where "mq_sm_db_parse_msg cf w m (of_nat p) item = Some (MSG_CHECK_RET_OK, it)"
    "len it = of_nat (length b)"
    using parse_msg_encoded [OF assms(1,2) b(1), of "of_nat p" d item] b(2) e assms(3) u by simp
  moreover have "\<not> e \<le> p" "?p < 2 ^ 31" using e assms(3) up by (simp_all add: MSG_HEAD_LEN_def)
  ultimately have "count_loop cf w m e p item cnt = count_loop cf w m e ?p it (cnt + 1)"
    by (simp add: count_loop.simps [of cf w m e p] count_step_def Let_def u add.assoc)
  then show ?case using Cons.IH [OF ms] by (simp add: add.commute)
qed

section \<open>Properties\<close>

text \<open>
  C27. Checking a message at any position of a mapped data file, whatever bytes the file holds,
  never reads outside the mapping and gives a verdict; when the verdict is OK the whole
  message lies inside the file, carries the magic numbers and its checksum is right. This holds
  although a damaged length makes the 32-bit bound computation wrap around.
\<close>

theorem parse_msg_memory_safe:
  assumes "conf_ok cf" and "maps_db cf w m i" and "unat p \<le> max_db cf"
  shows "\<exists>r item'. mq_sm_db_parse_msg cf w m p item = Some (r, item')
     \<and> (r = MSG_CHECK_RET_OK \<longrightarrow>
          unat p + MSG_HEAD_LEN + unat (len item') \<le> max_db cf
          \<and> \<not> no_magic (f_data (w_files w i)) (unat p)
          \<and> msg item' = InMap m (unat p + MSG_HEAD_LEN)
          \<and> crc16 item' = crc16_loop 0
               (bytes_at (f_data (w_files w i)) (unat p + MSG_HEAD_LEN) (unat (len item'))))"
  using parse_msg_safe [OF assms, of item] by metis

lemma sample_maps: "maps_db g_mq_conf sample_world (Some 0) 0"
  by (simp add: maps_db_def map_file_def sample_world_def g_mq_conf_def MAX_DB_FILE_SIZE_def)

theorem parse_msg_memory_safe_witness:
  "\<exists>r item'. mq_sm_db_parse_msg g_mq_conf sample_world (Some 0) 128
      \<lparr>magic_num1 = 0, magic_num2 = 0, delay = 0, crc16 = 0, len = 0, msg = NullMsg\<rparr> = Some (r, item')"
  using parse_msg_memory_safe [OF g_mq_conf_ok sample_maps, of 128
      "\<lparr>magic_num1 = 0, magic_num2 = 0, delay = 0, crc16 = 0, len = 0, msg = NullMsg\<rparr>"]
    max_db_lower [OF g_mq_conf_ok] by auto

text \<open>
  C33. The scan that counts the messages of a data file returns their number: on a file in which
  a stretch without magic numbers (the file head) is followed by a run of encoded messages up
  to \<open>e\<close>, \<^verbatim>\<open>mq_sm_db_cal_msg_count\<close> returns the length of the run and unmaps the file again.
\<close>

theorem cal_msg_count_exact:
  assumes "conf_ok cf" and "w_faults w = []" and "w_fds w fd = Some d"
    and "f_size (w_files w (o_ino d)) = max_db cf"
    and "skips (f_data (w_files w (o_ino d))) 0 s" and "msgs_at (f_data (w_files w (o_ino d))) s ms e"
    and "s + 12 < max_db cf" and "e \<le> max_db cf"
  shows "\<exists>w'. mq_sm_db_cal_msg_count cf fd (of_nat e) item w = Some (of_nat (length ms), w')
     \<and> w_files w' = w_files w \<and> (w_next_map w \<notin> dom (w_maps w) \<longrightarrow> w_maps w' = w_maps w)"
proof -
  let ?w = "w\<lparr>w_maps := (w_maps w)(w_next_map w \<mapsto> \<lparr>m_ino = o_ino d, m_len = max_db cf\<rparr>),
     w_next_map := Suc (w_next_map w)\<rparr>"
  have mm: "sys_mmap (max_db cf) fd w = (Some (w_next_map w), ?w)"
    using assms(2,3) by (simp add: sys_mmap_def)
  have m: "maps_db cf ?w (Some (w_next_map w)) (o_ino d)"
    using assms(4) by (simp add: maps_db_def map_file_def)
  have se: "s \<le> e" using assms(6) by (rule msgs_at_le)
  have "unat (of_nat e :: u32) = e"
    using assms(8) max_db_upper [OF assms(1)] by (simp add: unat_of_nat take_bit_nat_eq_self)
  moreover have "count_loop cf ?w (Some (w_next_map w)) e 0 item 0 = Some (of_nat (length ms))"
    using count_loop_skips [OF assms(1) m assms(7) se, of 0 item 0]
      count_loop_msgs [OF assms(1) m assms(8), of s ms item 0] assms(5,6) by simp
  ultimately show ?thesis
    by (auto simp: mq_sm_db_cal_msg_count_def mm sys_munmap_def fun_upd_idem)
qed

theorem cal_msg_count_exact_witness:
  "\<exists>w'. mq_sm_db_cal_msg_count g_mq_conf 3 128
       \<lparr>magic_num1 = 0, magic_num2 = 0, delay = 0, crc16 = 0, len = 0, msg = NullMsg\<rparr> sample_world
     = Some (0, w')"
  using cal_msg_count_exact [OF g_mq_conf_ok, of sample_world 3
      "\<lparr>o_ino = 0, o_off = 0, o_append = False, o_nonblock = True\<rparr>" 128 "[]" 128
      "\<lparr>magic_num1 = 0, magic_num2 = 0, delay = 0, crc16 = 0, len = 0, msg = NullMsg\<rparr>"]
  by (auto simp: sample_world_def skips_def no_magic_def MSG_HEAD_OF_FIRST_MAGIC_NUM_def
      g_mq_conf_def MAX_DB_FILE_SIZE_def)

end
