(* ===== verification/Util.thy ===== *)
theory Util
  imports Posix "HOL-Library.Signed_Division"
begin

text \<open>
  \<^verbatim>\<open>src/src/mq_errno.c\<close> (error numbers are kept negative) and the parts of \<^verbatim>\<open>src/src/util.c\<close>
  that the queue relies on: the deadline arithmetic of the I/O loops and \<^verbatim>\<open>do_mkdir\<close>.
  \<^verbatim>\<open>get_rel_time\<close> computes in \<^verbatim>\<open>double\<close> and truncates to an \<^verbatim>\<open>int32_t\<close>; the model computes
  the same quotient exactly.
\<close>

section \<open>Error numbers\<close>

definition MQ_ENOENT :: int where "MQ_ENOENT = - ENOENT"
definition MQ_EINVAL :: int where "MQ_EINVAL = - EINVAL"
definition MQ_ETIMEDOUT :: int where "MQ_ETIMEDOUT = - ETIMEDOUT"

definition mq_errno :: "world \<Rightarrow> int" where
  "mq_errno w = (let tmp = w_errno w in if tmp \<le> 0 then tmp else - tmp)"

definition set_errno :: "int \<Rightarrow> world \<Rightarrow> int \<times> world" where
  "set_errno e w = (let tmp = w_errno w in (tmp, w\<lparr>w_errno := if e \<le> 0 then e else - e\<rparr>))"

text \<open>The argument that \<^verbatim>\<open>mq_strerror\<close> and \<^verbatim>\<open>mq_last_error\<close> hand to \<^verbatim>\<open>strerror\<close>.\<close>

definition mq_strerror_arg :: "int \<Rightarrow> int" where
  "mq_strerror_arg e = \<bar>e\<bar>"

definition mq_last_error_arg :: "world \<Rightarrow> int" where
  "mq_last_error_arg w = (let tmp = w_errno w in if tmp \<ge> 0 then tmp else - tmp)"

lemma mq_errno_set_errno: "mq_errno (snd (set_errno e w)) = - \<bar>e\<bar>"
  by (simp add: mq_errno_def set_errno_def)

lemma set_errno_faults [simp]: "w_faults (snd (set_errno e w)) = w_faults w"
  by (simp add: set_errno_def Let_def)

section \<open>Time\<close>

record timespec =
  tv_sec :: int
  tv_nsec :: int

definition get_time_tick :: "world \<Rightarrow> timespec \<times> world" where
  "get_time_tick w =
     (case sys_clock w of (t, w) \<Rightarrow> (\<lparr>tv_sec = t div 1000000000, tv_nsec = t mod 1000000000\<rparr>, w))"

definition get_time_diff_nsec :: "timespec \<Rightarrow> timespec \<Rightarrow> int" where
  "get_time_diff_nsec start e =
     (tv_sec e - tv_sec start) * 1000000000 + tv_nsec e - tv_nsec start"

definition get_abs_time :: "int \<Rightarrow> world \<Rightarrow> timespec \<times> world" where
  "get_abs_time time_affter w =
     (case get_time_tick w of
        (ts, w) \<Rightarrow>
          (\<lparr>tv_sec = tv_sec ts + time_affter sdiv 1000,
            tv_nsec = tv_nsec ts + (time_affter smod 1000) * 1000000\<rparr>, w))"

definition get_rel_time :: "timespec \<Rightarrow> world \<Rightarrow> int \<times> world" where
  "get_rel_time abs_time w =
     (case get_time_tick w of
        (now, w) \<Rightarrow>
          (((tv_sec abs_time - tv_sec now) * 1000 * 1000000 + (tv_nsec abs_time - tv_nsec now))
             sdiv 1000000, w))"

text \<open>A deadline as nanoseconds of the monotonic clock.\<close>

definition ts_ns :: "timespec \<Rightarrow> int" where
  "ts_ns t = tv_sec t * 1000000000 + tv_nsec t"

lemma get_time_diff_nsec_ts: "get_time_diff_nsec s e = ts_ns e - ts_ns s"
  by (simp add: get_time_diff_nsec_def ts_ns_def algebra_simps)

lemma get_time_tick_ns: "get_time_tick w = (t, w') \<Longrightarrow> sys_clock w = (ts_ns t, w')"
  by (auto simp: get_time_tick_def ts_ns_def split: prod.splits)

lemma get_abs_time_ns:
  assumes "get_abs_time d w = (t, w')"
  obtains now where "sys_clock w = (now, w')" and "ts_ns t = now + d * 1000000"
proof -
  obtain s where s: "get_time_tick w = (s, w')"
    and t: "t = \<lparr>tv_sec = tv_sec s + d sdiv 1000, tv_nsec = tv_nsec s + (d smod 1000) * 1000000\<rparr>"
    using assms by (auto simp: get_abs_time_def split: prod.splits)
  have "ts_ns t = ts_ns s + (1000 * (d sdiv 1000) + d smod 1000) * 1000000"
    by (simp add: t ts_ns_def algebra_simps)
  then have "ts_ns t = ts_ns s + d * 1000000" by (simp add: mult_sdiv_smod_eq)
  with get_time_tick_ns [OF s] show ?thesis by (rule that)
qed

lemma get_rel_time_ns:
  assumes "get_rel_time a w = (r, w')"
  obtains now where "sys_clock w = (now, w')" and "r = (ts_ns a - now) sdiv 1000000"
proof -
  obtain s where s: "get_time_tick w = (s, w')"
    and r: "r = ((tv_sec a - tv_sec s) * 1000 * 1000000 + (tv_nsec a - tv_nsec s)) sdiv 1000000"
    using assms by (auto simp: get_rel_time_def split: prod.splits)
  have "r = (ts_ns a - ts_ns s) sdiv 1000000"
    by (simp add: r ts_ns_def algebra_simps)
  with get_time_tick_ns [OF s] show ?thesis by (rule that)
qed

lemma get_time_tick_faults [simp]: "w_faults (snd (get_time_tick w)) = w_faults w"
  by (simp add: get_time_tick_def sys_clock_def split: list.splits)

lemma get_abs_time_faults [simp]: "w_faults (snd (get_abs_time d w)) = w_faults w"
  by (simp add: get_abs_time_def split_beta)

lemma get_rel_time_faults [simp]: "w_faults (snd (get_rel_time a w)) = w_faults w"
  by (simp add: get_rel_time_def split_beta)

section \<open>Creating a path of directories\<close>

text \<open>
  The loop of \<^verbatim>\<open>do_mkdir\<close> meets every \<^verbatim>\<open>'/'\<close> of the path from left to right and creates the
  prefix before it; \<open>k\<close> is the offset of the search pointer \<^verbatim>\<open>p\<close>.
\<close>

definition mkdir_ok :: "path \<Rightarrow> world \<Rightarrow> int \<times> world" where
  "mkdir_ok p w =
     (case sys_mkdir p w of
        (r, w) \<Rightarrow> if r < 0 \<and> w_errno w \<noteq> EEXIST then (mq_errno w, w) else (0, w))"

fun do_mkdir_loop :: "path \<Rightarrow> nat \<Rightarrow> string \<Rightarrow> world \<Rightarrow> int \<times> world" where
  "do_mkdir_loop dir k [] w = (0, w)"
| "do_mkdir_loop dir k (c # cs) w =
     (if c = CHR ''/'' \<and> 0 < k
      then (case mkdir_ok (take k dir) w of
              (r, w) \<Rightarrow> if r < 0 then (r, w) else do_mkdir_loop dir (Suc k) cs w)
      else do_mkdir_loop dir (Suc k) cs w)"

definition do_mkdir :: "path \<Rightarrow> world \<Rightarrow> int \<times> world" where
  "do_mkdir dir w =
     (case do_mkdir_loop dir 0 dir w of
        (r, w) \<Rightarrow> if r < 0 then (r, w) else mkdir_ok dir w)"

end
