(* ===== verification/File_IO.thy ===== *)
theory File_IO
  imports Util
begin

text \<open>
  \<^verbatim>\<open>src/src/file.c\<close>: reading and writing up to a number of bytes on a descriptor, retrying
  after interrupted and partial calls until a deadline. A read returns the count (or -1)
  together with the bytes it put into the buffer. The C loops test their condition after
  \<^verbatim>\<open>continue\<close>, and so do the recursive calls here. The loops end because every pass
  transfers a byte or consumes an entry of the fault script.
\<close>

section \<open>Progress of the calls\<close>

definition nfaults :: "world \<Rightarrow> nat" where
  "nfaults w = length (w_faults w)"

lemma next_outcome_nfaults:
  "next_outcome w = (out, w') \<Longrightarrow> nfaults w' \<le> nfaults w \<and> (out \<noteq> Ok \<longrightarrow> nfaults w' < nfaults w)"
  by (auto simp: next_outcome_def nfaults_def split: list.splits)

lemma sys_read_progress:
  assumes "sys_read fd n w = (r, bs, w')"
  shows "nfaults w' \<le> nfaults w"
    and "r < 0 \<Longrightarrow> w_errno w' \<in> {EINTR, EAGAIN} \<Longrightarrow> nfaults w' < nfaults w"
    and "0 \<le> r \<Longrightarrow> r = int (length bs) \<and> length bs \<le> n"
    and "r < 0 \<Longrightarrow> r = -1 \<and> bs = []"
  using assms
  by (auto simp: sys_read_def nfaults_def next_outcome_def errno_defs Let_def
      split: prod.splits outcome.splits option.splits list.splits)

lemma sys_write_progress:
  assumes "sys_write fd bs w = (r, w')"
  shows "nfaults w' \<le> nfaults w"
    and "r < 0 \<Longrightarrow> w_errno w' \<in> {EINTR, EAGAIN} \<Longrightarrow> nfaults w' < nfaults w"
    and "r \<le> int (length bs)"
    and "r < 0 \<Longrightarrow> r = -1"
  using assms
  by (auto simp: sys_write_def nfaults_def next_outcome_def errno_defs Let_def
      split: prod.splits outcome.splits option.splits list.splits if_splits)

lemma sys_poll_progress:
  assumes "sys_poll fd ev w = (r, rv, w')"
  shows "nfaults w' \<le> nfaults w" and "r < 0 \<Longrightarrow> nfaults w' < nfaults w"
  using assms
  by (auto simp: sys_poll_def nfaults_def next_outcome_def
      split: prod.splits outcome.splits list.splits if_splits)

lemma time_nfaults [simp]:
  "nfaults (snd (get_abs_time d w)) = nfaults w" "nfaults (snd (get_rel_time a w)) = nfaults w"
  "nfaults (snd (set_errno e w)) = nfaults w"
  by (simp_all add: nfaults_def)

section \<open>The code\<close>

datatype fd_block = FD_INVALID | FD_UNKNOWN | FD_BLOCK | FD_NONBLOCK

text \<open>
  \<^verbatim>\<open>wait_fd\<close> clears \<^verbatim>\<open>errno\<close> once and calls \<^verbatim>\<open>poll\<close> again, with the same timeout, as long as it is interrupted.
\<close>

function poll_loop :: "int \<Rightarrow> int \<Rightarrow> int \<Rightarrow> world \<Rightarrow> int \<times> world" where
  "poll_loop fd events timeout w =
     (case sys_poll fd events w of
        (r, revents, w') \<Rightarrow>
          if 0 \<le> r then (revents, w')
          else if w_errno w' = EINTR then poll_loop fd events timeout w'
          else (-1, w'))"
  by pat_completeness auto
termination
  by (relation "measure (\<lambda>(fd, ev, t, w). nfaults w)") (auto dest: sys_poll_progress(2) [OF sym])

declare poll_loop.simps [simp del]

definition wait_fd :: "int \<Rightarrow> int \<Rightarrow> int \<Rightarrow> world \<Rightarrow> int \<times> world" where
  "wait_fd fd events timeout w = poll_loop fd events timeout (w\<lparr>w_errno := 0\<rparr>)"

lemma poll_loop_nfaults: "nfaults (snd (poll_loop fd ev t w)) \<le> nfaults w"
proof (induction fd ev t w rule: poll_loop.induct)
  case (1 fd events timeout w)
  obtain r rv w' where p: "sys_poll fd events w = (r, rv, w')" by (metis prod_cases3)
  show ?case
  proof (cases "r < 0 \<and> w_errno w' = EINTR")
    case True
    then have "nfaults (snd (poll_loop fd events timeout w')) \<le> nfaults w'" using "1" p by auto
    moreover have "nfaults w' \<le> nfaults w" using sys_poll_progress(1) [OF p] .
    ultimately show ?thesis using True p by (simp add: poll_loop.simps [of fd events timeout w])
  next
    case False
    then show ?thesis using p sys_poll_progress(1) [OF p]
      by (auto simp: poll_loop.simps [of fd events timeout w])
  qed
qed

lemma wait_fd_nfaults: "nfaults (snd (wait_fd fd ev t w)) \<le> nfaults w"
  using poll_loop_nfaults [of fd ev t "w\<lparr>w_errno := 0\<rparr>"] by (simp add: wait_fd_def nfaults_def)

definition is_nonblock :: "int \<Rightarrow> fd_block \<Rightarrow> world \<Rightarrow> int \<times> world" where
  "is_nonblock fd block_type w =
     (case block_type of
        FD_BLOCK \<Rightarrow> (0, w)
      | FD_NONBLOCK \<Rightarrow> (1, w)
      | FD_UNKNOWN \<Rightarrow>
         (case sys_getfl_nonblock fd w of
            (None, w) \<Rightarrow> (-1, w)
          | (Some True, w) \<Rightarrow> (1, w)
          | (Some False, w) \<Rightarrow> (0, w))
      | FD_INVALID \<Rightarrow> (-1, snd (set_errno MQ_EINVAL w)))"

text \<open>The inner loops \<^verbatim>\<open>do { ... } while (r < 0 && errno == EINTR)\<close>.\<close>

function read_retry :: "int \<Rightarrow> nat \<Rightarrow> world \<Rightarrow> int \<times> byte list \<times> world" where
  "read_retry fd n w =
     (case sys_read fd n w of
        (r, bs, w') \<Rightarrow>
          if r < 0 \<and> w_errno w' = EINTR then read_retry fd n w' else (r, bs, w'))"
  by pat_completeness auto
termination
  by (relation "measure (\<lambda>(fd, n, w). nfaults w)") (auto dest: sys_read_progress(2) [OF sym])

function write_retry :: "int \<Rightarrow> byte list \<Rightarrow> world \<Rightarrow> int \<times> world" where
  "write_retry fd bs w =
     (case sys_write fd bs w of
        (r, w') \<Rightarrow> if r < 0 \<and> w_errno w' = EINTR then write_retry fd bs w' else (r, w'))"
  by pat_completeness auto
termination
  by (relation "measure (\<lambda>(fd, bs, w). nfaults w)") (auto dest: sys_write_progress(2) [OF sym])

declare read_retry.simps [simp del] write_retry.simps [simp del]

lemma read_retry_progress:
  "read_retry fd n w = (r, bs, w') \<Longrightarrow>
   nfaults w' \<le> nfaults w \<and> (0 \<le> r \<longrightarrow> r = int (length bs) \<and> length bs \<le> n)
   \<and> (r < 0 \<longrightarrow> r = -1 \<and> bs = [])"
proof (induction fd n w rule: read_retry.induct)
  case (1 fd n w)
  obtain r1 bs1 w1 where s: "sys_read fd n w = (r1, bs1, w1)" by (metis prod_cases3)
  show ?case
    using "1.prems" s "1.IH" [OF s [symmetric] refl] sys_read_progress [OF s]
    by (force simp: read_retry.simps [of fd n w] split: if_splits)
qed

lemma write_retry_progress:
  "write_retry fd bs w = (r, w') \<Longrightarrow>
   nfaults w' \<le> nfaults w \<and> r \<le> int (length bs) \<and> (r < 0 \<longrightarrow> r = -1)"
proof (induction fd bs w rule: write_retry.induct)
  case (1 fd bs w)
  obtain r1 w1 where s: "sys_write fd bs w = (r1, w1)" by fastforce
  show ?case
    using "1.prems" s "1.IH" [OF s [symmetric]] sys_write_progress [OF s]
    by (force simp: write_retry.simps [of fd bs w] split: if_splits)
qed

text \<open>
  The buffer filled so far is \<open>acc\<close>, so \<^verbatim>\<open>total_read_size\<close> is its length. A loop ends with the
  total, or with -1 (the bytes already read stay in the buffer).
\<close>

function block_read_loop ::
    "int \<Rightarrow> nat \<Rightarrow> int \<Rightarrow> timespec \<Rightarrow> byte list \<Rightarrow> world \<Rightarrow> int \<times> byte list \<times> world" where
  "block_read_loop fd sz timeout abs_to acc w =
     (case get_rel_time abs_to w of
        (next_to, w1) \<Rightarrow>
          if timeout > 0 \<and> next_to \<le> 0 then (-1, acc, snd (set_errno MQ_ETIMEDOUT w1))
          else case wait_fd fd POLLIN (if timeout \<le> 0 then timeout else next_to) w1 of
            (revents, w2) \<Rightarrow>
              if revents = POLLIN
              then case read_retry fd (sz - length acc) w2 of
                  (r, bs, w3) \<Rightarrow>
                    if r = -1 then (-1, acc, w3)
                    else if r = 0 then (int (length acc), acc, w3)
                    else if length (acc @ bs) < sz \<and> timeout \<noteq> 0
                    then block_read_loop fd sz timeout abs_to (acc @ bs) w3
                    else (int (length (acc @ bs)), acc @ bs, w3)
              else if revents = 0 then (-1, acc, snd (set_errno MQ_ETIMEDOUT w2))
              else (-1, acc, w2))"
  by pat_completeness auto
termination
proof (relation "measure (\<lambda>(fd, sz, t, a, acc, w). sz - length acc)", goal_cases)
  case 1
  show ?case by simp
next
  case (2 fd sz timeout abs_to acc w n w1 v w2 r p bs w3)
  then have "0 < length bs"
    using read_retry_progress [of fd "sz - length acc" w2 r bs w3] by (cases "0 \<le> r") auto
  moreover have "length (acc @ bs) < sz" using 2 by simp
  ultimately show ?case by (simp del: length_greater_0_conv)
qed

definition block_read_n :: "int \<Rightarrow> nat \<Rightarrow> int \<Rightarrow> world \<Rightarrow> int \<times> byte list \<times> world" where
  "block_read_n fd sz timeout w =
     (case get_abs_time timeout w of
        (abs_to, w) \<Rightarrow> block_read_loop fd sz timeout abs_to [] w)"

function nonblock_read_loop ::
    "int \<Rightarrow> nat \<Rightarrow> int \<Rightarrow> timespec \<Rightarrow> byte list \<Rightarrow> world \<Rightarrow> int \<times> byte list \<times> world" where
  "nonblock_read_loop fd sz timeout abs_to acc w =
     (case sys_read fd (sz - length acc) w of
        (r, bs, w1) \<Rightarrow>
          if r = -1
          then
            if w_errno w1 = EINTR
            then if length acc < sz \<and> timeout \<noteq> 0
                 then nonblock_read_loop fd sz timeout abs_to acc w1
                 else (int (length acc), acc, w1)
            else if w_errno w1 = EAGAIN
            then case get_rel_time abs_to w1 of
                (next_to, w2) \<Rightarrow>
                  if timeout = 0 \<or> timeout > 0 \<and> next_to \<le> 0
                  then (-1, acc, snd (set_errno MQ_ETIMEDOUT w2))
                  else case wait_fd fd POLLIN (if timeout < 0 then timeout else next_to) w2 of
                    (revents, w3) \<Rightarrow>
                      if revents = POLLIN
                      then if length acc < sz \<and> timeout \<noteq> 0
                           then nonblock_read_loop fd sz timeout abs_to acc w3
                           else (int (length acc), acc, w3)
                      else if revents = 0 then (-1, acc, snd (set_errno MQ_ETIMEDOUT w3))
                      else (-1, acc, w3)
            else (-1, acc, w1)
          else if r = 0 then (int (length acc), acc, w1)
          else if length (acc @ bs) < sz \<and> timeout \<noteq> 0
          then nonblock_read_loop fd sz timeout abs_to (acc @ bs) w1
          else (int (length (acc @ bs)), acc @ bs, w1))"
  by pat_completeness auto
termination
proof (relation "measure (\<lambda>(fd, sz, t, a, acc, w). (sz - length acc) + nfaults w)", goal_cases)
  case 1
  show ?case by simp
next
  case (2 fd sz timeout abs_to acc w r p bs w1)
  have "nfaults w1 < nfaults w"
    using 2 sys_read_progress(2) [of fd "sz - length acc" w r bs w1] by simp
  then show ?case by simp
next
  case (3 fd sz timeout abs_to acc w r p bs w1 n w2 v w3)
  have "nfaults w1 < nfaults w"
    using 3 sys_read_progress(2) [of fd "sz - length acc" w r bs w1] by simp
  moreover have "nfaults w2 = nfaults w1" using time_nfaults(2) [of abs_to w1] 3 by (metis snd_conv)
  moreover have "nfaults w3 \<le> nfaults w2" using wait_fd_nfaults 3 by (metis snd_conv)
  ultimately show ?case by simp
next
  case (4 fd sz timeout abs_to acc w r p bs w1)
  have "nfaults w1 \<le> nfaults w" and "0 < length bs"
    using 4 sys_read_progress [of fd "sz - length acc" w r bs w1] by (cases "0 \<le> r"; auto)+
  moreover have "length (acc @ bs) < sz" using 4 by simp
  ultimately show ?case by (simp del: length_greater_0_conv)
qed

definition nonblock_read_n :: "int \<Rightarrow> nat \<Rightarrow> int \<Rightarrow> world \<Rightarrow> int \<times> byte list \<times> world" where
  "nonblock_read_n fd sz timeout w =
     (case get_abs_time timeout w of
        (abs_to, w) \<Rightarrow> nonblock_read_loop fd sz timeout abs_to [] w)"

definition read_n :: "int \<Rightarrow> fd_block \<Rightarrow> nat \<Rightarrow> int \<Rightarrow> world \<Rightarrow> int \<times> byte list \<times> world" where
  "read_n fd block_type sz timeout w =
     (case is_nonblock fd block_type w of
        (f, w) \<Rightarrow>
          if f < 0 then (-1, [], w)
          else if f \<noteq> 0 then nonblock_read_n fd sz timeout w
          else block_read_n fd sz timeout w)"

text \<open>The writers: \<open>ttl\<close> bytes of \<open>buf\<close> are out.\<close>

function block_write_loop ::
    "int \<Rightarrow> byte list \<Rightarrow> int \<Rightarrow> timespec \<Rightarrow> nat \<Rightarrow> world \<Rightarrow> int \<times> world" where
  "block_write_loop fd buf timeout abs_to ttl w =
     (case get_rel_time abs_to w of
        (next_to, w1) \<Rightarrow>
          if timeout > 0 \<and> next_to \<le> 0 then (-1, snd (set_errno MQ_ETIMEDOUT w1))
          else case wait_fd fd POLLOUT (if timeout \<le> 0 then timeout else next_to) w1 of
            (revents, w2) \<Rightarrow>
              if revents = POLLOUT
              then case write_retry fd (drop ttl buf) w2 of
                  (r, w3) \<Rightarrow>
                    if r > 0
                    then if ttl + nat r < length buf \<and> timeout \<noteq> 0
                         then block_write_loop fd buf timeout abs_to (ttl + nat r) w3
                         else (int (ttl + nat r), w3)
                    else if r = 0 then (int ttl, w3)
                    else (-1, w3)
              else if revents = 0 then (-1, snd (set_errno MQ_ETIMEDOUT w2))
              else (-1, w2))"
  by pat_completeness auto
termination
  by (relation "measure (\<lambda>(fd, buf, t, a, ttl, w). length buf - ttl)") auto

definition block_write_n :: "int \<Rightarrow> byte list \<Rightarrow> int \<Rightarrow> world \<Rightarrow> int \<times> world" where
  "block_write_n fd buf timeout w =
     (case get_abs_time timeout w of
        (abs_to, w) \<Rightarrow> block_write_loop fd buf timeout abs_to 0 w)"

function nonblock_write_loop ::
    "int \<Rightarrow> byte list \<Rightarrow> int \<Rightarrow> timespec \<Rightarrow> nat \<Rightarrow> world \<Rightarrow> int \<times> world" where
  "nonblock_write_loop fd buf timeout abs_to ttl w =
     (case sys_write fd (drop ttl buf) w of
        (r, w1) \<Rightarrow>
          if r > 0
          then if ttl + nat r < length buf \<and> timeout \<noteq> 0
               then nonblock_write_loop fd buf timeout abs_to (ttl + nat r) w1
               else (int (ttl + nat r), w1)
          else if r = 0 then (int ttl, w1)
          else if w_errno w1 = EINTR
          then if ttl < length buf \<and> timeout \<noteq> 0
               then nonblock_write_loop fd buf timeout abs_to ttl w1
               else (int ttl, w1)
          else if w_errno w1 = EAGAIN
          then case get_rel_time abs_to w1 of
              (next_to, w2) \<Rightarrow>
                if timeout = 0 \<or> timeout > 0 \<and> next_to \<le> 0
                then (-1, snd (set_errno MQ_ETIMEDOUT w2))
                else case wait_fd fd POLLOUT (if timeout < 0 then timeout else next_to) w2 of
                  (revents, w3) \<Rightarrow>
                    if revents = POLLOUT
                    then if ttl < length buf \<and> timeout \<noteq> 0
                         then nonblock_write_loop fd buf timeout abs_to ttl w3
                         else (int ttl, w3)
                    else if revents = 0 then (-1, snd (set_errno MQ_ETIMEDOUT w3))
                    else (-1, w3)
          else (-1, w1))"
  by pat_completeness auto
termination
proof (relation "measure (\<lambda>(fd, buf, t, a, ttl, w). (length buf - ttl) + nfaults w)", goal_cases)
  case 1
  show ?case by simp
next
  case (2 fd buf timeout abs_to ttl w r w1)
  then have "nfaults w1 \<le> nfaults w" by (metis sys_write_progress(1))
  moreover have "0 < nat r" and "ttl + nat r < length buf" using 2 by simp_all
  ultimately show ?case by (simp del: zero_less_nat_eq)
next
  case (3 fd buf timeout abs_to ttl w r w1)
  then have "nfaults w1 < nfaults w"
    using sys_write_progress(2) [of fd "drop ttl buf" w r w1] by simp
  then show ?case by simp
next
  case (4 fd buf timeout abs_to ttl w r w1 n w2 v w3)
  have "nfaults w1 < nfaults w"
    using 4 sys_write_progress(2) [of fd "drop ttl buf" w r w1] by simp
  moreover have "nfaults w2 = nfaults w1" using time_nfaults(2) [of abs_to w1] 4 by (metis snd_conv)
  moreover have "nfaults w3 \<le> nfaults w2" using wait_fd_nfaults 4 by (metis snd_conv)
  ultimately show ?case by simp
qed

definition nonblock_write_n :: "int \<Rightarrow> byte list \<Rightarrow> int \<Rightarrow> world \<Rightarrow> int \<times> world" where
  "nonblock_write_n fd buf timeout w =
     (case get_abs_time timeout w of
        (abs_to, w) \<Rightarrow> nonblock_write_loop fd buf timeout abs_to 0 w)"

definition write_n :: "int \<Rightarrow> fd_block \<Rightarrow> byte list \<Rightarrow> int \<Rightarrow> world \<Rightarrow> int \<times> world" where
  "write_n fd block_type buf timeout w =
     (case is_nonblock fd block_type w of
        (f, w) \<Rightarrow>
          if f < 0 then (-1, w)
          else if f \<noteq> 0 then nonblock_write_n fd buf timeout w
          else block_write_n fd buf timeout w)"

declare block_read_loop.simps [simp del] nonblock_read_loop.simps [simp del]
  block_write_loop.simps [simp del] nonblock_write_loop.simps [simp del]

section \<open>What the loops transfer\<close>

text \<open>Waiting and asking for the time leave files and descriptors alone.\<close>

lemma time_frame [simp]:
  "w_files (snd (get_abs_time d w)) = w_files w" "w_fds (snd (get_abs_time d w)) = w_fds w"
  "w_files (snd (get_rel_time a w)) = w_files w" "w_fds (snd (get_rel_time a w)) = w_fds w"
  "w_files (snd (set_errno e w)) = w_files w" "w_fds (snd (set_errno e w)) = w_fds w"
  by (simp_all add: get_abs_time_def get_rel_time_def get_time_tick_def sys_clock_def set_errno_def
      Let_def split: list.splits)

lemma poll_loop_frame:
  "poll_loop fd ev t w = (v, w') \<Longrightarrow> w_files w' = w_files w \<and> w_fds w' = w_fds w"
proof (induction fd ev t w rule: poll_loop.induct)
  case (1 fd events timeout w)
  obtain r rv w1 where p: "sys_poll fd events w = (r, rv, w1)" by (metis prod_cases3)
  then have "w_files w1 = w_files w \<and> w_fds w1 = w_fds w"
    by (auto simp: sys_poll_def next_outcome_def split: list.splits outcome.splits if_splits)
  then show ?case
    using "1.prems" "1.IH" [OF p [symmetric] refl] p
    by (force simp: poll_loop.simps [of fd events timeout w] split: if_splits)
qed

lemma wait_fd_frame:
  "wait_fd fd ev t w = (v, w') \<Longrightarrow> w_files w' = w_files w \<and> w_fds w' = w_fds w"
  using poll_loop_frame [of fd ev t "w\<lparr>w_errno := 0\<rparr>"] by (simp add: wait_fd_def)

definition got :: "int \<Rightarrow> world \<Rightarrow> byte list \<Rightarrow> world \<Rightarrow> bool" where
  "got fd w acc w' \<longleftrightarrow>
     w_files w' = w_files w
     \<and> (case w_fds w fd of
          None \<Rightarrow> acc = [] \<and> w_fds w' = w_fds w
        | Some d \<Rightarrow>
            w_fds w' = (w_fds w)(fd \<mapsto> d\<lparr>o_off := o_off d + length acc\<rparr>)
            \<and> o_off d + length acc \<le> max (o_off d) (f_size (w_files w (o_ino d)))
            \<and> bytes_at (f_data (w_files w (o_ino d))) (o_off d) (length acc) = acc)"

lemma got_refl [simp]: "got fd w [] w"
  by (auto simp: got_def split: option.splits)

lemma got_frame: "got fd w acc w1 \<Longrightarrow> w_files w2 = w_files w1 \<Longrightarrow> w_fds w2 = w_fds w1 \<Longrightarrow> got fd w acc w2"
  by (simp add: got_def split: option.splits)

lemma got_set_errno [simp]: "got fd w acc (snd (set_errno e w')) = got fd w acc w'"
  by (simp add: got_def split: option.splits)

lemma got_sys_read:
  assumes "got fd w acc w1" and "sys_read fd n w1 = (r, bs, w2)"
  shows "got fd w (acc @ bs) w2"
proof (cases "w_fds w fd")
  case None
  then show ?thesis using assms
    by (auto simp: got_def sys_read_def next_outcome_def split: list.splits outcome.splits)
next
  case (Some d)
  then show ?thesis using assms
    by (auto simp: got_def sys_read_def next_outcome_def bytes_at_add Let_def
        split: list.splits outcome.splits)
qed

lemma got_read_retry:
  "got fd w acc w1 \<Longrightarrow> read_retry fd n w1 = (r, bs, w2) \<Longrightarrow> got fd w (acc @ bs) w2"
proof (induction fd n w1 rule: read_retry.induct)
  case (1 fd n w1)
  obtain r' bs' w' where s: "sys_read fd n w1 = (r', bs', w')" by (metis prod_cases3)
  have g: "got fd w (acc @ bs') w'" using "1.prems"(1) s by (rule got_sys_read)
  show ?case
  proof (cases "r' < 0 \<and> w_errno w' = EINTR")
    case True
    then have "bs' = []" using sys_read_progress(4) [OF s] by simp
    then show ?thesis
      using "1.IH" [OF s [symmetric] refl True] g "1.prems"(2) s True
      by (simp add: read_retry.simps [of fd n w1])
  next
    case False
    then show ?thesis using "1.prems"(2) s g by (auto simp: read_retry.simps [of fd n w1])
  qed
qed

definition read_result :: "int \<Rightarrow> nat \<Rightarrow> world \<Rightarrow> int \<times> byte list \<times> world \<Rightarrow> bool" where
  "read_result fd sz w0 res =
     (case res of (r, acc, w') \<Rightarrow>
        got fd w0 acc w' \<and> length acc \<le> sz \<and> (r = -1 \<or> r = int (length acc)))"

lemma read_result_iff [simp]:
  "read_result fd sz w0 (r, acc, w') \<longleftrightarrow>
     got fd w0 acc w' \<and> length acc \<le> sz \<and> (r = -1 \<or> r = int (length acc))"
  by (simp add: read_result_def)

lemma get_rel_time_frame:
  "get_rel_time a w = (t, w') \<Longrightarrow> w_files w' = w_files w \<and> w_fds w' = w_fds w"
  using time_frame(3,4) [of a w] by simp

lemma block_read_loop_result:
  "got fd w0 acc w \<Longrightarrow> length acc \<le> sz \<Longrightarrow>
   read_result fd sz w0 (block_read_loop fd sz timeout abs_to acc w)"
proof (induction fd sz timeout abs_to acc w rule: block_read_loop.induct)
  case (1 fd sz timeout abs_to acc w)
  obtain t w1 where t: "get_rel_time abs_to w = (t, w1)" by fastforce
  obtain v w2 where v: "wait_fd fd POLLIN (if timeout \<le> 0 then timeout else t) w1 = (v, w2)"
    by fastforce
  obtain r bs w3 where r: "read_retry fd (sz - length acc) w2 = (r, bs, w3)" by (metis prod_cases3)
  have g1: "got fd w0 acc w1" using "1.prems"(1) get_rel_time_frame [OF t] got_frame by blast
  have g2: "got fd w0 acc w2" using g1 wait_fd_frame [OF v] got_frame by blast
  have g3: "got fd w0 (acc @ bs) w3" using g2 r by (rule got_read_retry)
  have b: "length (acc @ bs) \<le> sz" "r = -1 \<or> r = 0 \<Longrightarrow> bs = []" "r = -1 \<or> r = int (length bs)"
    using read_retry_progress [OF r] "1.prems"(2) by (cases "r < 0"; auto)+
  have g4: "got fd w0 acc w3" if "r = -1 \<or> r = 0" using g3 b(2) [OF that] by simp
  have ih: "length (acc @ bs) < sz \<Longrightarrow> timeout \<noteq> 0 \<Longrightarrow> \<not> (timeout > 0 \<and> t \<le> 0) \<Longrightarrow> v = POLLIN \<Longrightarrow>
      r \<noteq> -1 \<Longrightarrow> r \<noteq> 0 \<Longrightarrow>
      read_result fd sz w0 (block_read_loop fd sz timeout abs_to (acc @ bs) w3)"
    using "1.IH" [OF t [symmetric] _ v [symmetric] _ r [symmetric] refl _ _ _ g3] b(1) by simp
  show ?case
    unfolding block_read_loop.simps [of fd sz timeout abs_to acc w] t v r prod.case
    using ih g1 g2 g3 g4 b "1.prems"(2) by auto
qed

lemma nonblock_read_loop_result:
  "got fd w0 acc w \<Longrightarrow> length acc \<le> sz \<Longrightarrow>
   read_result fd sz w0 (nonblock_read_loop fd sz timeout abs_to acc w)"
proof (induction fd sz timeout abs_to acc w rule: nonblock_read_loop.induct)
  case (1 fd sz timeout abs_to acc w)
  obtain r bs w1 where r: "sys_read fd (sz - length acc) w = (r, bs, w1)" by (metis prod_cases3)
  obtain t w2 where t: "get_rel_time abs_to w1 = (t, w2)" by fastforce
  obtain v w3 where v: "wait_fd fd POLLIN (if timeout < 0 then timeout else t) w2 = (v, w3)"
    by fastforce
  have g1: "got fd w0 (acc @ bs) w1" using "1.prems"(1) r by (rule got_sys_read)
  have b: "length (acc @ bs) \<le> sz" "r = -1 \<or> r = 0 \<Longrightarrow> bs = []" "r = -1 \<or> r = int (length bs)"
    using sys_read_progress [OF r] "1.prems"(2) by (cases "r < 0"; auto)+
  have g2: "got fd w0 (acc @ bs) w2" using g1 get_rel_time_frame [OF t] got_frame by blast
  have g3: "got fd w0 (acc @ bs) w3" using g2 wait_fd_frame [OF v] got_frame by blast
  have g4: "got fd w0 acc w1 \<and> got fd w0 acc w2 \<and> got fd w0 acc w3" if "r = -1 \<or> r = 0"
    using g1 g2 g3 b(2) [OF that] by simp
  have ih1: "r = -1 \<Longrightarrow> w_errno w1 = EINTR \<Longrightarrow> length acc < sz \<Longrightarrow> timeout \<noteq> 0 \<Longrightarrow>
      read_result fd sz w0 (nonblock_read_loop fd sz timeout abs_to acc w1)"
    using "1.IH"(1) [OF r [symmetric] refl] g1 b(1,2) by simp
  have ih2: "r = -1 \<Longrightarrow> w_errno w1 \<noteq> EINTR \<Longrightarrow> w_errno w1 = EAGAIN \<Longrightarrow>
      \<not> (timeout = 0 \<or> timeout > 0 \<and> t \<le> 0) \<Longrightarrow> v = POLLIN \<Longrightarrow> length acc < sz \<Longrightarrow> timeout \<noteq> 0 \<Longrightarrow>
      read_result fd sz w0 (nonblock_read_loop fd sz timeout abs_to acc w3)"
    using "1.IH"(2) [OF r [symmetric] refl _ _ _ t [symmetric] _ v [symmetric]] g3 b(1,2) by simp
  have ih3: "r \<noteq> -1 \<Longrightarrow> r \<noteq> 0 \<Longrightarrow> length (acc @ bs) < sz \<Longrightarrow> timeout \<noteq> 0 \<Longrightarrow>
      read_result fd sz w0 (nonblock_read_loop fd sz timeout abs_to (acc @ bs) w1)"
    using "1.IH"(3) [OF r [symmetric] refl _ _ _ g1] b(1) by simp
  show ?case
    unfolding nonblock_read_loop.simps [of fd sz timeout abs_to acc w] t v r prod.case
    using ih1 ih2 ih3 g1 g4 b "1.prems"(2) by auto
qed

lemma is_nonblock_frame:
  "is_nonblock fd bt w = (f, w') \<Longrightarrow> w_files w' = w_files w \<and> w_fds w' = w_fds w"
  by (auto simp: is_nonblock_def sys_getfl_nonblock_def next_outcome_def
      split: fd_block.splits prod.splits option.splits bool.splits list.splits outcome.splits)

lemma read_n_result: "read_result fd sz w (read_n fd bt sz timeout w)"
proof -
  obtain f w1 where f: "is_nonblock fd bt w = (f, w1)" by fastforce
  obtain a w2 where a: "get_abs_time timeout w1 = (a, w2)" by fastforce
  have g1: "got fd w [] w1" using is_nonblock_frame [OF f] got_frame [OF got_refl] by blast
  moreover have "w_files w2 = w_files w1 \<and> w_fds w2 = w_fds w1"
    using time_frame(1,2) [of timeout w1] a by simp
  ultimately have "got fd w [] w2" using got_frame by blast
  then show ?thesis
    using g1 block_read_loop_result nonblock_read_loop_result
    by (simp add: read_n_def block_read_n_def nonblock_read_n_def f a)
qed

text \<open>The same for the writers: after sending \<open>bs\<close>, the file is the old one with \<open>bs\<close> written once.\<close>

definition sent :: "int \<Rightarrow> world \<Rightarrow> byte list \<Rightarrow> world \<Rightarrow> bool" where
  "sent fd w bs w' \<longleftrightarrow>
     (if bs = [] then w_files w' = w_files w \<and> w_fds w' = w_fds w
      else case w_fds w fd of
          None \<Rightarrow> False
        | Some d \<Rightarrow> w_files w' = w_files (fd_put fd d bs w) \<and> w_fds w' = w_fds (fd_put fd d bs w))"

lemma sent_refl [simp]: "sent fd w [] w"
  by (simp add: sent_def)

lemma sent_frame: "sent fd w bs w1 \<Longrightarrow> w_files w2 = w_files w1 \<Longrightarrow> w_fds w2 = w_fds w1 \<Longrightarrow> sent fd w bs w2"
  by (auto simp: sent_def split: option.splits if_splits)

lemma sent_set_errno [simp]: "sent fd w bs (snd (set_errno e w')) = sent fd w bs w'"
  by (simp add: sent_def split: option.splits)

lemma live_data_file_write: "live_data (file_write f p bs) = put_bytes (live_data f) p bs"
  by (auto simp: live_data_def file_write_def put_bytes_def fun_eq_iff)

lemma file_write_append:
  "file_write (file_write f p as) (p + length as) bs = file_write f p (as @ bs)"
  unfolding file_write_def [of "file_write f p as"] live_data_file_write
  by (simp add: file_write_def put_bytes_append max.assoc add.assoc)

lemma f_size_file_write: "f_size (file_write f p bs) = max (f_size f) (p + length bs)"
  by (simp add: file_write_def)

lemma sent_sys_write:
  assumes "sent fd w bs w1" and "sys_write fd cs w1 = (r, w2)"
  shows "sent fd w (bs @ take (nat r) cs) w2"
proof (cases "bs = []")
  case True
  then show ?thesis using assms
    by (auto simp: sent_def sys_write_def next_outcome_def fd_put_def Let_def min_def
        split: list.splits outcome.splits option.splits if_splits)
next
  case False
  then obtain d where "w_fds w fd = Some d"
    and "w_files w1 = w_files (fd_put fd d bs w)" "w_fds w1 = w_fds (fd_put fd d bs w)"
    using assms(1) by (auto simp: sent_def split: option.splits)
  then show ?thesis using False assms(2)
    by (auto simp: sent_def sys_write_def next_outcome_def fd_put_def Let_def file_write_append
        f_size_file_write
        split: list.splits outcome.splits option.splits if_splits)
qed

lemma sent_write_retry:
  "sent fd w bs w1 \<Longrightarrow> write_retry fd cs w1 = (r, w2) \<Longrightarrow> sent fd w (bs @ take (nat r) cs) w2"
proof (induction fd cs w1 rule: write_retry.induct)
  case (1 fd cs w1)
  obtain r' w' where s: "sys_write fd cs w1 = (r', w')" by fastforce
  have g: "sent fd w (bs @ take (nat r') cs) w'" using "1.prems"(1) s by (rule sent_sys_write)
  show ?case
  proof (cases "r' < 0 \<and> w_errno w' = EINTR")
    case True
    then show ?thesis
      using "1.IH" [OF s [symmetric] True] g "1.prems"(2) s
      by (simp add: write_retry.simps [of fd cs w1])
  next
    case False
    then show ?thesis using "1.prems"(2) s g by (auto simp: write_retry.simps [of fd cs w1])
  qed
qed

definition write_result :: "int \<Rightarrow> byte list \<Rightarrow> world \<Rightarrow> int \<times> world \<Rightarrow> bool" where
  "write_result fd buf w0 res =
     (case res of (r, w') \<Rightarrow>
        \<exists>n \<le> length buf. sent fd w0 (take n buf) w' \<and> (r = -1 \<or> r = int n))"

lemma write_resultI:
  "sent fd w0 (take n buf) w' \<Longrightarrow> n \<le> length buf \<Longrightarrow> r = -1 \<or> r = int n \<Longrightarrow>
   write_result fd buf w0 (r, w')"
  by (auto simp: write_result_def)

lemma block_write_loop_result:
  "sent fd w0 (take ttl buf) w \<Longrightarrow> ttl \<le> length buf \<Longrightarrow>
   write_result fd buf w0 (block_write_loop fd buf timeout abs_to ttl w)"
proof (induction fd buf timeout abs_to ttl w rule: block_write_loop.induct)
  case (1 fd buf timeout abs_to ttl w)
  obtain t w1 where t: "get_rel_time abs_to w = (t, w1)" by fastforce
  obtain v w2 where v: "wait_fd fd POLLOUT (if timeout \<le> 0 then timeout else t) w1 = (v, w2)"
    by fastforce
  obtain r w3 where r: "write_retry fd (drop ttl buf) w2 = (r, w3)" by fastforce
  have g1: "sent fd w0 (take ttl buf) w1"
    using "1.prems"(1) get_rel_time_frame [OF t] sent_frame by blast
  have g2: "sent fd w0 (take ttl buf) w2" using g1 wait_fd_frame [OF v] sent_frame by blast
  have g3: "sent fd w0 (take (ttl + nat r) buf) w3"
    using sent_write_retry [OF g2 r] by (simp add: take_add)
  have b: "ttl + nat r \<le> length buf" "r < 0 \<Longrightarrow> r = -1"
    using write_retry_progress [OF r] "1.prems"(2) by auto
  have g4: "sent fd w0 (take ttl buf) w3" if "\<not> r > 0" using g3 that by simp
  have res: "write_result fd buf w0 (-1, snd (set_errno MQ_ETIMEDOUT w1))"
      "write_result fd buf w0 (-1, snd (set_errno MQ_ETIMEDOUT w2))"
      "write_result fd buf w0 (-1, w2)"
      "write_result fd buf w0 (int (ttl + nat r), w3)"
      "\<not> r > 0 \<Longrightarrow> write_result fd buf w0 (-1, w3)"
      "\<not> r > 0 \<Longrightarrow> write_result fd buf w0 (int ttl, w3)"
    using g1 g2 g3 g4 b "1.prems"(2) by (auto intro: write_resultI)
  have ih: "\<not> (timeout > 0 \<and> t \<le> 0) \<Longrightarrow> v = POLLOUT \<Longrightarrow> r > 0 \<Longrightarrow>
      ttl + nat r < length buf \<and> timeout \<noteq> 0 \<Longrightarrow>
      write_result fd buf w0 (block_write_loop fd buf timeout abs_to (ttl + nat r) w3)"
    using "1.IH" [OF t [symmetric] _ v [symmetric] _ r [symmetric] _ _ g3] b(1) by simp
  show ?case
    unfolding block_write_loop.simps [of fd buf timeout abs_to ttl w] t v r prod.case
    by (simp only: split: if_split) (use ih res in blast)
qed

lemma nonblock_write_loop_result:
  "sent fd w0 (take ttl buf) w \<Longrightarrow> ttl \<le> length buf \<Longrightarrow>
   write_result fd buf w0 (nonblock_write_loop fd buf timeout abs_to ttl w)"
proof (induction fd buf timeout abs_to ttl w rule: nonblock_write_loop.induct)
  case (1 fd buf timeout abs_to ttl w)
  obtain r w1 where r: "sys_write fd (drop ttl buf) w = (r, w1)" by fastforce
  obtain t w2 where t: "get_rel_time abs_to w1 = (t, w2)" by fastforce
  obtain v w3 where v: "wait_fd fd POLLOUT (if timeout < 0 then timeout else t) w2 = (v, w3)"
    by fastforce
  have g1: "sent fd w0 (take (ttl + nat r) buf) w1"
    using sent_sys_write [OF "1.prems"(1) r] by (simp add: take_add)
  have b: "ttl + nat r \<le> length buf" "r < 0 \<Longrightarrow> r = -1"
    using sys_write_progress(3,4) [OF r] "1.prems"(2) by auto
  have g4: "sent fd w0 (take ttl buf) w1" if "\<not> r > 0" using g1 that by simp
  have g2: "sent fd w0 (take ttl buf) w2" if "\<not> r > 0"
    using g4 [OF that] get_rel_time_frame [OF t] sent_frame by blast
  have g3: "sent fd w0 (take ttl buf) w3" if "\<not> r > 0"
    using g2 [OF that] wait_fd_frame [OF v] sent_frame by blast
  have res: "write_result fd buf w0 (int (ttl + nat r), w1)"
      "\<not> r > 0 \<Longrightarrow> write_result fd buf w0 (int ttl, w1)"
      "\<not> r > 0 \<Longrightarrow> write_result fd buf w0 (-1, w1)"
      "\<not> r > 0 \<Longrightarrow> write_result fd buf w0 (-1, snd (set_errno MQ_ETIMEDOUT w2))"
      "\<not> r > 0 \<Longrightarrow> write_result fd buf w0 (-1, snd (set_errno MQ_ETIMEDOUT w3))"
      "\<not> r > 0 \<Longrightarrow> write_result fd buf w0 (int ttl, w3)"
      "\<not> r > 0 \<Longrightarrow> write_result fd buf w0 (-1, w3)"
    using g1 g2 g3 g4 b "1.prems"(2) by (auto intro: write_resultI)
  have ih1: "r > 0 \<Longrightarrow> ttl + nat r < length buf \<and> timeout \<noteq> 0 \<Longrightarrow>
      write_result fd buf w0 (nonblock_write_loop fd buf timeout abs_to (ttl + nat r) w1)"
    using "1.IH"(1) [OF r [symmetric] _ _ g1 b(1)] by blast
  have ih2: "\<not> r > 0 \<Longrightarrow> r \<noteq> 0 \<Longrightarrow> w_errno w1 = EINTR \<Longrightarrow> ttl < length buf \<and> timeout \<noteq> 0 \<Longrightarrow>
      write_result fd buf w0 (nonblock_write_loop fd buf timeout abs_to ttl w1)"
    using "1.IH"(2) [OF r [symmetric] _ _ _ _ g4 "1.prems"(2)] by blast
  have ih3: "\<not> r > 0 \<Longrightarrow> r \<noteq> 0 \<Longrightarrow> w_errno w1 \<noteq> EINTR \<Longrightarrow> w_errno w1 = EAGAIN \<Longrightarrow>
      \<not> (timeout = 0 \<or> timeout > 0 \<and> t \<le> 0) \<Longrightarrow> v = POLLOUT \<Longrightarrow> ttl < length buf \<and> timeout \<noteq> 0 \<Longrightarrow>
      write_result fd buf w0 (nonblock_write_loop fd buf timeout abs_to ttl w3)"
    using "1.IH"(3) [OF r [symmetric] _ _ _ _ t [symmetric] _ v [symmetric] _ _ g3 "1.prems"(2)]
    by blast
  show ?case
    unfolding nonblock_write_loop.simps [of fd buf timeout abs_to ttl w] t v r prod.case
    by (simp only: split: if_split) (use ih1 ih2 ih3 res in blast)
qed

lemma write_n_result: "write_result fd buf w (write_n fd bt buf timeout w)"
proof -
  obtain f w1 where f: "is_nonblock fd bt w = (f, w1)" by fastforce
  obtain a w2 where a: "get_abs_time timeout w1 = (a, w2)" by fastforce
  have g1: "sent fd w [] w1" using is_nonblock_frame [OF f] sent_frame [OF sent_refl] by blast
  moreover have "w_files w2 = w_files w1 \<and> w_fds w2 = w_fds w1"
    using time_frame(1,2) [of timeout w1] a by simp
  ultimately have "sent fd w (take 0 buf) w2" using sent_frame by (metis take_0)
  then show ?thesis
    using g1 block_write_loop_result nonblock_write_loop_result
    by (auto simp: write_n_def block_write_n_def nonblock_write_n_def f a
        intro: write_resultI [where n = 0])
qed

section \<open>Transfers that nothing disturbs\<close>

lemma is_nonblock_ok:
  "w_faults w = [] \<Longrightarrow> w_fds w fd = Some d \<Longrightarrow> o_nonblock d \<Longrightarrow> is_nonblock fd FD_UNKNOWN w = (1, w)"
  by (simp add: is_nonblock_def sys_getfl_nonblock_def)

lemma snd_get_abs_time: "snd (get_abs_time t w) = tick w"
  by (simp add: get_abs_time_def get_time_tick_def tick_def Let_def split: prod.splits)

lemma write_n_ok:
  assumes "w_faults w = []" "w_fds w fd = Some d" "o_nonblock d" "buf \<noteq> []"
  shows "write_n fd FD_UNKNOWN buf t w = (int (length buf), fd_put fd d buf (tick w))"
proof -
  obtain a where a: "get_abs_time t w = (a, tick w)"
    using snd_get_abs_time [of t w] by (metis prod.collapse)
  have "sys_write fd buf (tick w) = (int (length buf), fd_put fd d buf (tick w))"
    using assms by (simp add: sys_write_ok)
  then show ?thesis
    using assms a is_nonblock_ok [OF assms(1-3)]
    by (simp add: write_n_def nonblock_write_n_def nonblock_write_loop.simps)
qed

definition fd_get :: "int \<Rightarrow> ofd \<Rightarrow> nat \<Rightarrow> world \<Rightarrow> world" where
  "fd_get fd d k w = w\<lparr>w_fds := (w_fds w)(fd \<mapsto> d\<lparr>o_off := o_off d + k\<rparr>)\<rparr>"

lemma fd_get_simps [simp]:
  "w_fs (fd_get fd d k w) = w_fs w" "w_files (fd_get fd d k w) = w_files w"
  "w_next_ino (fd_get fd d k w) = w_next_ino w" "w_next_fd (fd_get fd d k w) = w_next_fd w"
  "w_maps (fd_get fd d k w) = w_maps w" "w_next_map (fd_get fd d k w) = w_next_map w"
  "w_faults (fd_get fd d k w) = w_faults w" "w_bavail (fd_get fd d k w) = w_bavail w"
  "w_bsize (fd_get fd d k w) = w_bsize w"
  by (simp_all add: fd_get_def)

lemma fd_get_fds [simp]: "w_fds (fd_get fd d k w) = (w_fds w)(fd \<mapsto> d\<lparr>o_off := o_off d + k\<rparr>)"
  by (simp add: fd_get_def)

lemma read_n_ok:
  assumes "w_faults w = []" "w_fds w fd = Some d" "o_nonblock d" "t \<noteq> 0"
    and k: "k = min sz (f_size (w_files w (o_ino d)) - o_off d)"
  shows "read_n fd FD_UNKNOWN sz t w =
         (int k, bytes_at (f_data (w_files w (o_ino d))) (o_off d) k, fd_get fd d k (tick w))"
proof -
  obtain a where a: "get_abs_time t w = (a, tick w)"
    using snd_get_abs_time [of t w] by (metis prod.collapse)
  have r1: "sys_read fd sz (tick w) =
      (int k, bytes_at (f_data (w_files w (o_ino d))) (o_off d) k, fd_get fd d k (tick w))"
    using assms(1,2) by (simp add: sys_read_ok k fd_get_def Let_def)
  have r2: "sys_read fd (sz - k) (fd_get fd d k (tick w)) = (0, [], fd_get fd d k (tick w))" if "k < sz"
    using assms(1,2) that
    by (simp add: sys_read_ok k fd_get_def Let_def bytes_at_def)
  show ?thesis
    using assms(4) a r1 r2 is_nonblock_ok [OF assms(1-3)]
    by (simp add: read_n_def nonblock_read_n_def nonblock_read_loop.simps bytes_at_def)
qed

text \<open>
  C30. Whatever calls are interrupted, cut short or fail, \<^verbatim>\<open>read_n\<close> reports -1 or the number of
  bytes it stored, never more than the buffer takes; the bytes stored are the ones that follow
  the descriptor's offset in the file, none lost or repeated between two partial reads, and the
  offset advances by exactly that number.
\<close>

theorem read_n_transfers:
  "case read_n fd bt sz timeout w of (r, acc, w') \<Rightarrow>
     (r = -1 \<or> r = int (length acc)) \<and> length acc \<le> sz \<and> w_files w' = w_files w
     \<and> (case w_fds w fd of
          None \<Rightarrow> acc = [] \<and> w_fds w' = w_fds w
        | Some d \<Rightarrow>
            bytes_at (f_data (w_files w (o_ino d))) (o_off d) (length acc) = acc
            \<and> w_fds w' = (w_fds w)(fd \<mapsto> d\<lparr>o_off := o_off d + length acc\<rparr>))"
  using read_n_result [of fd sz w bt timeout]
  by (auto simp: read_result_def got_def split: option.splits)

text \<open>
  C31. Whatever calls are interrupted, cut short or fail, \<^verbatim>\<open>write_n\<close> reports -1 or a number of
  bytes no larger than the buffer, and what reached the file is a prefix of the buffer of that
  length, written once at the descriptor's position: no byte is repeated or skipped between two
  partial writes. On -1 it is some prefix.
\<close>

theorem write_n_transfers:
  "case write_n fd bt buf timeout w of (r, w') \<Rightarrow>
     \<exists>n \<le> length buf. (r = -1 \<or> r = int n)
       \<and> (if n = 0 then w_files w' = w_files w \<and> w_fds w' = w_fds w
           else \<exists>d. w_fds w fd = Some d
             \<and> w_files w' = w_files (fd_put fd d (take n buf) w)
             \<and> w_fds w' = w_fds (fd_put fd d (take n buf) w))"
proof -
  obtain r w' n where e: "write_n fd bt buf timeout w = (r, w')" and n: "n \<le> length buf"
    and s: "sent fd w (take n buf) w'" and r: "r = -1 \<or> r = int n"
    using write_n_result [of fd buf w bt timeout] unfolding write_result_def by blast
  have "take n buf = [] \<longleftrightarrow> n = 0" using n by auto
  then have "if n = 0 then w_files w' = w_files w \<and> w_fds w' = w_fds w
      else \<exists>d. w_fds w fd = Some d \<and> w_files w' = w_files (fd_put fd d (take n buf) w)
        \<and> w_fds w' = w_fds (fd_put fd d (take n buf) w)"
    using s unfolding sent_def by (cases "w_fds w fd") auto
  then show ?thesis using e n r by (simp only: prod.case) blast
qed

section \<open>Transfers through transient failures\<close>







end
