(* ===== verification/Mq_Util.thy ===== *)
theory Mq_Util
  imports Store_Types Util "HOL-Library.Sublist"
begin

text \<open>
  \<^verbatim>\<open>src/src/mq_util.c\<close>: file sizes and free space, number strings, and the removal of a
  directory tree. C strings are \<open>string\<close>s without their terminating NUL.
\<close>

section \<open>Numbers\<close>

definition c_min :: "int \<Rightarrow> int \<Rightarrow> int" where
  "c_min a b = (if a \<ge> b then b else a)"

definition c_max :: "int \<Rightarrow> int \<Rightarrow> int" where
  "c_max a b = (if a < b then b else a)"

text \<open>A conversion to \<^verbatim>\<open>int\<close> keeps the low 32 bits.\<close>

definition to_int :: "int \<Rightarrow> int" where
  "to_int n = sint (word_of_int n :: u32)"

lemma to_int_id: "- (2 ^ 31) \<le> n \<Longrightarrow> n < 2 ^ 31 \<Longrightarrow> to_int n = n"
  by (simp add: to_int_def sint_sbintrunc' signed_take_bit_int_eq_self)

definition get_storage_free :: "world \<Rightarrow> int" where
  "get_storage_free w =
     (let free_byte = w_bavail w * w_bsize w
      in to_int (uint (free_byte div (1024 * 1024 * 1024))))"

definition get_cur_timestamp :: "world \<Rightarrow> int" where
  "get_cur_timestamp w = to_int (sys_gettimeofday w)"

fun is_num_str :: "string \<Rightarrow> bool" where
  "is_num_str [] = True"
| "is_num_str (c # s) = (if c \<in> set ''0123456789'' then is_num_str s else False)"

section \<open>Sizes\<close>

definition extend_file_size :: "int \<Rightarrow> int \<Rightarrow> world \<Rightarrow> bool \<times> world" where
  "extend_file_size fd l w =
     (let file_size = to_int l in
      if file_size < 0 then (False, w)
      else
        let (_, w) = sys_ftruncate fd (nat file_size) w;
            (pos, w) = sys_lseek_end fd (-1) w
        in if to_int pos < 0 then (False, w)
           else (True, snd (sys_write fd [0x30] w)))"

definition get_file_size :: "path \<Rightarrow> world \<Rightarrow> int" where
  "get_file_size p w =
     (case sys_stat_size p w of None \<Rightarrow> -1 | Some n \<Rightarrow> to_int (int n))"

section \<open>Kinds of entries\<close>

definition is_dir :: "path \<Rightarrow> world \<Rightarrow> bool" where
  "is_dir p w = (case sys_lstat p w of Some DirN \<Rightarrow> True | _ \<Rightarrow> False)"

definition is_file :: "path \<Rightarrow> world \<Rightarrow> bool" where
  "is_file p w = (case sys_lstat p w of Some (RegN _) \<Rightarrow> True | _ \<Rightarrow> False)"

definition is_special_dir :: "string \<Rightarrow> bool" where
  "is_special_dir p \<longleftrightarrow> p = ''.'' \<or> p = ''..''"

text \<open>On an empty path the code reads \<^verbatim>\<open>file_path[-1]\<close>.\<close>

definition get_file_path :: "path \<Rightarrow> string \<Rightarrow> path option" where
  "get_file_path p file_name =
     (if p = [] then None
      else Some ((if p ! (length p - 1) \<noteq> CHR ''/'' then p @ ''/'' else p) @ file_name))"

section \<open>Removing a tree\<close>

text \<open>
  \<^verbatim>\<open>delete_file\<close> and the loop over the names that \<^verbatim>\<open>readdir\<close> returns. The first argument
  bounds the depth of the recursion.
\<close>

fun delete_file :: "nat \<Rightarrow> path \<Rightarrow> world \<Rightarrow> world option"
and delete_entries :: "nat \<Rightarrow> path \<Rightarrow> string list \<Rightarrow> world \<Rightarrow> world option" where
  "delete_file 0 p w = None"
| "delete_file (Suc n) p w =
     (if is_file p w then Some (sys_unlink p w)
      else if is_dir p w
      then case sys_opendir p w of
          (None, w) \<Rightarrow> Some w
        | (Some ents, w) \<Rightarrow>
           (case delete_entries n p (map fst ents) w of
              None \<Rightarrow> None
            | Some w \<Rightarrow> Some (sys_rmdir p w))
      else Some (sys_rmdir p w))"
| "delete_entries n p [] w = Some w"
| "delete_entries n p (c # cs) w =
     (case get_file_path p c of
        None \<Rightarrow> None
      | Some file_path \<Rightarrow>
          if is_special_dir c then delete_entries n p cs w
          else (case delete_file n file_path w of
                  None \<Rightarrow> None
                | Some w \<Rightarrow> delete_entries n p cs (sys_rmdir file_path w)))"

text \<open>
  The depth with which the code below calls \<^verbatim>\<open>delete_file\<close>. Every level of the recursion has a longer path, so the
  longest name of the file system bounds it: \<open>delete_file_returns\<close>.
\<close>

definition fs_depth :: "world \<Rightarrow> nat" where
  "fs_depth w = Suc (Suc (fold max (map (length \<circ> fst) (w_fs w)) 0))"

definition names_le :: "nat \<Rightarrow> world \<Rightarrow> bool" where
  "names_le m w \<longleftrightarrow> list_all (\<lambda>e. length (fst e) \<le> m) (w_fs w)"

lemma names_le_unlink: "names_le m w \<Longrightarrow> names_le m (sys_unlink p w)"
  by (auto simp: names_le_def sys_unlink_def next_outcome_def list_all_iff
      split: outcome.splits option.splits node.splits list.splits)

lemma names_le_rmdir: "names_le m w \<Longrightarrow> names_le m (sys_rmdir p w)"
  by (auto simp: names_le_def sys_rmdir_def next_outcome_def list_all_iff
      split: outcome.splits option.splits node.splits list.splits)

lemma names_le_opendir: "names_le m w \<Longrightarrow> sys_opendir p w = (r, w') \<Longrightarrow> names_le m w'"
  by (auto simp: names_le_def sys_opendir_def next_outcome_def split: outcome.splits list.splits if_splits)

lemma is_dir_length: "names_le m w \<Longrightarrow> is_dir p w \<Longrightarrow> length p \<le> m"
  by (auto simp: is_dir_def sys_lstat_def lookup_path_def names_le_def list_all_iff
      split: option.splits node.splits dest!: map_of_SomeD)

lemma dir_entries_names: "(c, n) \<in> set (dir_entries w p) \<Longrightarrow> c \<noteq> []"
  by (auto simp: dir_entries_def List.map_filter_def child_of_def Let_def split: if_splits)

lemma opendir_names: "sys_opendir p w = (Some ents, w') \<Longrightarrow> list_all (\<lambda>c. c \<noteq> []) (map fst ents)"
  using dir_entries_names by (fastforce simp: sys_opendir_def list_all_iff split: outcome.splits prod.splits if_splits)

lemma delete_file_depth:
  "0 < n \<Longrightarrow> p \<noteq> [] \<Longrightarrow> Suc (Suc m) \<le> n + length p \<Longrightarrow> names_le m w \<Longrightarrow>
   \<exists>w'. delete_file n p w = Some w' \<and> names_le m w'"
  "0 < n \<Longrightarrow> p \<noteq> [] \<Longrightarrow> Suc m \<le> n + length p \<Longrightarrow> names_le m w \<Longrightarrow> list_all (\<lambda>c. c \<noteq> []) cs \<Longrightarrow>
   \<exists>w'. delete_entries n p cs w = Some w' \<and> names_le m w'"
proof (induction n p w and n p cs w rule: delete_file_delete_entries.induct)
  case (2 n p w)
  obtain r w1 where o: "sys_opendir p w = (r, w1)" by fastforce
  have n1: "names_le m w1" using names_le_opendir [OF "2.prems"(4) o] .
  show ?case
  proof (cases "is_dir p w \<and> \<not> is_file p w \<and> r \<noteq> None")
    case True
    then obtain ents where r: "r = Some ents" by blast
    have "0 < n" using is_dir_length [OF "2.prems"(4)] True "2.prems"(3) by fastforce
    then obtain w' where "delete_entries n p (map fst ents) w1 = Some w' \<and> names_le m w'"
      using "2.IH" [OF _ _ o [symmetric] r] True o r "2.prems"(2,3) n1 opendir_names [of p w ents w1] by auto
    then show ?thesis using True o r by (auto simp: names_le_rmdir)
  next
    case False
    then show ?thesis using "2.prems"(4) n1 o by (auto simp: names_le_unlink names_le_rmdir)
  qed
next
  case (4 n p c cs w)
  obtain q where q: "get_file_path p c = Some q" and l: "length p < length q"
    using "4.prems"(2,5) by (auto simp: get_file_path_def)
  show ?case
  proof (cases "is_special_dir c")
    case True
    then show ?thesis using "4.IH"(1) [OF q] "4.prems" q by simp
  next
    case False
    obtain w1 where w1: "delete_file n q w = Some w1" "names_le m w1"
      using "4.IH"(2) [OF q False] "4.prems" l by fastforce
    then show ?thesis using "4.IH"(3) [OF q False w1(1)] "4.prems" q False names_le_rmdir by simp
  qed
qed simp_all

lemma names_le_max: "names_le (fold max (map (length \<circ> fst) (w_fs w)) 0) w"
proof -
  have m: "fold max xs (a :: nat) = Max (set (a # xs))" for xs a by (metis Max.set_eq_fold)
  have "x \<in> set xs \<Longrightarrow> x \<le> fold max xs 0" for x and xs :: "nat list"
    unfolding m by (intro Max_ge) auto
  then show ?thesis by (auto simp: names_le_def list_all_iff)
qed

lemma delete_file_returns:
  assumes "p \<noteq> []"
  obtains w' where "delete_file (fs_depth w) p w = Some w'"
  using delete_file_depth(1) [OF _ assms _ names_le_max, of "fs_depth w" w] by (auto simp: fs_depth_def)

end
