(* ===== verification/Store_Names.thy ===== *)
theory Store_Names
  imports Store_Types
begin

text \<open>
  Names of the files of a queue: the macros of \<^verbatim>\<open>src/src/mq_store_file.h\<close> and
  \<^verbatim>\<open>get_id_by_fname\<close> of \<^verbatim>\<open>mq_store_file.c\<close>, with the string functions they use.
\<close>

section \<open>Building names\<close>

definition fmt_index :: "u64 \<Rightarrow> string" where
  "fmt_index i = map digit_char (pad_digits 12 (unat i))"

definition rtag_name :: "u64 \<Rightarrow> string" where "rtag_name i = ''rtag_'' @ fmt_index i"
definition wtag_name :: "u64 \<Rightarrow> string" where "wtag_name i = ''wtag_'' @ fmt_index i"
definition db_name :: "u64 \<Rightarrow> string" where "db_name i = ''db_'' @ fmt_index i"

text \<open>\<^verbatim>\<open>snprintf\<close> keeps one byte less than the size it is given.\<close>

definition GEN_QUEUE_PATH_BY_QNAME :: "ucmq_conf \<Rightarrow> string \<Rightarrow> path" where
  "GEN_QUEUE_PATH_BY_QNAME cf q = take (MAX_DATA_PATH_NAME_LEN - 1) (data_file_path cf @ ''/'' @ q)"

definition GEN_DATA_FULL_PATH_BY_FNAME :: "ucmq_conf \<Rightarrow> string \<Rightarrow> string \<Rightarrow> path" where
  "GEN_DATA_FULL_PATH_BY_FNAME cf q f =
     take (MAX_FULL_FILE_NAME_LEN - 1) (data_file_path cf @ ''/'' @ q @ ''/'' @ f)"

definition GEN_RTAG_FULL_PATH_BY_QNAME_INDEX :: "ucmq_conf \<Rightarrow> string \<Rightarrow> u64 \<Rightarrow> path" where
  "GEN_RTAG_FULL_PATH_BY_QNAME_INDEX cf q i =
     take (MAX_FULL_FILE_NAME_LEN - 1) (data_file_path cf @ ''/'' @ q @ ''/'' @ rtag_name i)"

definition GEN_WTAG_FULL_PATH_BY_QNAME_INDEX :: "ucmq_conf \<Rightarrow> string \<Rightarrow> u64 \<Rightarrow> path" where
  "GEN_WTAG_FULL_PATH_BY_QNAME_INDEX cf q i =
     take (MAX_FULL_FILE_NAME_LEN - 1) (data_file_path cf @ ''/'' @ q @ ''/'' @ wtag_name i)"

definition GEN_DATA_FULL_PATH_BY_QNAME_INDEX :: "ucmq_conf \<Rightarrow> string \<Rightarrow> u64 \<Rightarrow> path" where
  "GEN_DATA_FULL_PATH_BY_QNAME_INDEX cf q i =
     take (MAX_FULL_FILE_NAME_LEN - 1) (data_file_path cf @ ''/'' @ q @ ''/'' @ db_name i)"

section \<open>Reading names\<close>

text \<open>\<^verbatim>\<open>atoll\<close>: white space, a sign, digits; saturating at the ends of \<^verbatim>\<open>long long\<close>.\<close>

definition char_digit :: "char \<Rightarrow> nat option" where
  "char_digit c =
     (let n = of_char c :: nat in if 48 \<le> n \<and> n \<le> 57 then Some (n - 48) else None)"

fun atoll_digits :: "nat \<Rightarrow> string \<Rightarrow> nat" where
  "atoll_digits acc [] = acc"
| "atoll_digits acc (c # cs) =
     (case char_digit c of None \<Rightarrow> acc | Some d \<Rightarrow> atoll_digits (acc * 10 + d) cs)"

fun atoll_sign :: "string \<Rightarrow> int" where
  "atoll_sign (CHR ''-'' # cs) = - int (atoll_digits 0 cs)"
| "atoll_sign (CHR ''+'' # cs) = int (atoll_digits 0 cs)"
| "atoll_sign cs = int (atoll_digits 0 cs)"

definition is_space :: "char \<Rightarrow> bool" where
  "is_space c \<longleftrightarrow> (of_char c :: nat) \<in> {9, 10, 11, 12, 13, 32}"

definition atoll :: "string \<Rightarrow> int" where
  "atoll s = max (- (2 ^ 63)) (min (2 ^ 63 - 1) (atoll_sign (dropWhile is_space s)))"

text \<open>The tokens that \<^verbatim>\<open>strtok(str, "_")\<close> yields, one after the other.\<close>

function tokens :: "char \<Rightarrow> string \<Rightarrow> string list" where
  "tokens d s =
     (case dropWhile ((=) d) s of
        [] \<Rightarrow> []
      | c # cs \<Rightarrow> takeWhile ((\<noteq>) d) (c # cs) # tokens d (dropWhile ((\<noteq>) d) cs))"
  by pat_completeness auto
termination
proof (relation "measure (\<lambda>(d, s). length s)", goal_cases)
  case (2 d s c cs)
  have "length (dropWhile ((\<noteq>) d) cs) < length (c # cs)"
    using length_dropWhile_le [of "(\<noteq>) d" cs] by simp
  also have "\<dots> \<le> length s" using 2 length_dropWhile_le [of "(=) d" s] by metis
  finally show ?case by simp
qed simp

declare tokens.simps [simp del]

text \<open>
  The name is copied into 64 bytes by \<^verbatim>\<open>strncpy\<close>, which leaves no terminator when it has 64
  characters or more: \<open>None\<close>, the split would run past the array.
\<close>

definition get_id_by_fname :: "string \<Rightarrow> u64 option" where
  "get_id_by_fname qname =
     (if length qname \<ge> 64 then None
      else Some (foldl (\<lambda>_ p. word_of_int (atoll p)) 0 (tokens (CHR ''_'') qname)))"

fun strcmp :: "string \<Rightarrow> string \<Rightarrow> int" where
  "strcmp [] [] = 0"
| "strcmp [] (b # bs) = -1"
| "strcmp (a # as) [] = 1"
| "strcmp (a # as) (b # bs) =
     (if (of_char a :: nat) < of_char b then -1
      else if (of_char b :: nat) < of_char a then 1 else strcmp as bs)"

end
