(* ===== verification/Store_Tag.thy ===== *)
theory Store_Tag
  imports File_IO Mq_Util Store_Names
begin

text \<open>
  \<^verbatim>\<open>src/src/mq_store_rtag.c\<close> and \<^verbatim>\<open>mq_store_wtag.c\<close>: the files that record how far a queue has
  been read and written. Each line is a fixed-width decimal record; a reader takes the last
  line, and walks back line by line while what it finds does not parse. The two C files are
  the same code for different records, so the loop that walks back is one definition here,
  used at both.
\<close>

section \<open>Constants\<close>

definition RTAG_ITEM_LEN :: nat where [store_consts]: "RTAG_ITEM_LEN = 30"
definition RCOUNT_LEN :: nat where [store_consts]: "RCOUNT_LEN = 20"
definition RPOS_LEN :: nat where [store_consts]: "RPOS_LEN = 10"
definition WTAG_ITEM_LEN :: nat where [store_consts]: "WTAG_ITEM_LEN = 40"
definition WCOUNT_LEN :: nat where [store_consts]: "WCOUNT_LEN = 20"
definition WPOS_LEN :: nat where [store_consts]: "WPOS_LEN = 10"
definition QUEUE_MAX_SIZE_LEN :: nat where [store_consts]: "QUEUE_MAX_SIZE_LEN = 10"
definition TAG_FILE_HEAD_LEN :: int where [store_consts]: "TAG_FILE_HEAD_LEN = 0"
definition READ_OPT_TIMEOUT :: int where [store_consts]: "READ_OPT_TIMEOUT = 1"

section \<open>Text\<close>

text \<open>
  \<^verbatim>\<open>strtok\<close> on a buffer with one delimiter, continued from \<open>pos\<close>: the start and length of the
  token, the buffer with the delimiter after it overwritten by NUL, and where to go on.
\<close>

definition strtok :: "byte \<Rightarrow> byte list \<Rightarrow> nat \<Rightarrow> (nat \<times> nat) option \<times> byte list \<times> nat" where
  "strtok d buf pos =
     (let s = pos + length (takeWhile ((=) d) (drop pos buf)) in
      if length buf \<le> s \<or> buf ! s = 0 then (None, buf, s)
      else
        let n = length (takeWhile (\<lambda>c. c \<noteq> d \<and> c \<noteq> 0) (drop s buf)); e = s + n in
        if e < length buf \<and> buf ! e = d then (Some (s, n), buf[e := 0], Suc e)
        else (Some (s, n), buf, e))"

fun str_to_num_loop :: "u64 \<Rightarrow> byte list \<Rightarrow> u64 option" where
  "str_to_num_loop num [] = Some num"
| "str_to_num_loop num (c # cs) =
     (if 48 \<le> unat c \<and> unat c \<le> 57
      then str_to_num_loop (num * 10 + of_nat (unat c - 48)) cs
      else None)"

definition str_to_num :: "byte list \<Rightarrow> nat \<Rightarrow> u64 option" where
  "str_to_num str l = (if l = 0 then None else str_to_num_loop 0 (take l str))"

lemma strtok_Some:
  assumes "strtok d buf pos = (Some (s, n), buf', pos')"
  shows "length buf' = length buf" and "s < length buf" and "pos \<le> s" and "0 < n" and "s + n \<le> pos'"
proof -
  show "length buf' = length buf" and "s < length buf" and "pos \<le> s" and "s + n \<le> pos'"
    using assms by (auto simp: strtok_def Let_def split: if_splits)
  have c: "s = pos + length (takeWhile ((=) d) (drop pos buf))" "s < length buf" "buf ! s \<noteq> 0"
    and n: "n = length (takeWhile (\<lambda>c. c \<noteq> d \<and> c \<noteq> 0) (drop s buf))"
    using assms by (auto simp: strtok_def Let_def split: if_splits)
  have "d \<noteq> drop pos buf ! (s - pos)"
    using c(1,2) nth_length_takeWhile [of "(=) d" "drop pos buf"] by simp
  then have "buf ! s \<noteq> d" using c(1,2) by (simp add: nth_drop)
  then show "0 < n" using c(2,3) n by (simp add: Cons_nth_drop_Suc [symmetric])
qed

lemma strtok_progress:
  assumes "(t, y) = strtok d buf pos" "t = Some z" "(s, n) = z" "(buf', pos') = y"
  shows "((cf, q', buf', pos'), (cf, q, buf, pos)) \<in> measure (\<lambda>(cf, q, buf, pos). Suc (length buf) - pos)"
  using assms strtok_Some [of d buf pos s n buf' pos'] by (auto dest: sym)

text \<open>Bytes before the position do not matter to \<^verbatim>\<open>strtok\<close>.\<close>

lemma strtok_shift:
  "strtok d (pre @ buf) (length pre + pos) =
     (case strtok d buf pos of (t, buf', pos') \<Rightarrow>
        (map_option (\<lambda>(s, n). (length pre + s, n)) t, pre @ buf', length pre + pos'))"
  by (simp add: strtok_def Let_def nth_append list_update_append add.assoc)

section \<open>Parsing a record\<close>

definition check_rtag_item :: "ucmq_conf \<Rightarrow> mq_queue \<Rightarrow> bool" where
  "check_rtag_item cf q = (\<not> d_pos (cur_rdb q) > MAX_DB_FILE_SIZE cf)"

text \<open>\<^verbatim>\<open>mq_queue->maxque > UINT_MAX\<close> and the comparisons with 0 are false at 32 unsigned bits.\<close>

definition check_wtag_item :: "ucmq_conf \<Rightarrow> mq_queue \<Rightarrow> bool" where
  "check_wtag_item cf q = (\<not> d_pos (cur_wdb q) > MAX_DB_FILE_SIZE cf)"

text \<open>
  Like the code, the parsers store each number into the queue as soon as it is read, also
  when a later one turns out to be invalid. \<open>buf\<close> is the line buffer, returned as \<^verbatim>\<open>strtok\<close>
  leaves it.
\<close>

function parse_rtag_loop :: "ucmq_conf \<Rightarrow> mq_queue \<Rightarrow> byte list \<Rightarrow> nat \<Rightarrow> bool \<times> mq_queue \<times> byte list" where
  "parse_rtag_loop cf q buf pos =
     (case strtok 10 buf pos of
        (None, buf, _) \<Rightarrow> (False, q, buf)
      | (Some (s, n), buf, pos) \<Rightarrow>
          if n \<ge> RTAG_ITEM_LEN
          then case str_to_num (drop s buf) RCOUNT_LEN of
              None \<Rightarrow> (False, q, buf)
            | Some num \<Rightarrow>
               (let q = q\<lparr>get_num := num\<rparr>; s = s + RCOUNT_LEN in
                case str_to_num (drop s buf) RPOS_LEN of
                  None \<Rightarrow> (False, q, buf)
                | Some num \<Rightarrow>
                   (let q = upd_rdb (d_pos_update (\<lambda>_. ucast num)) q in
                    if check_rtag_item cf q then (True, q, buf)
                    else parse_rtag_loop cf q buf pos))
          else parse_rtag_loop cf q buf pos)"
  by pat_completeness auto
termination
  by (relation "measure (\<lambda>(cf, q, buf, pos). Suc (length buf) - pos)")
    (simp, (rule strtok_progress; assumption)+)

definition parse_rtag_item :: "ucmq_conf \<Rightarrow> mq_queue \<Rightarrow> byte list \<Rightarrow> bool \<times> mq_queue \<times> byte list" where
  "parse_rtag_item cf q buf = parse_rtag_loop cf q buf 0"

function parse_wtag_loop :: "ucmq_conf \<Rightarrow> mq_queue \<Rightarrow> byte list \<Rightarrow> nat \<Rightarrow> bool \<times> mq_queue \<times> byte list" where
  "parse_wtag_loop cf q buf pos =
     (case strtok 10 buf pos of
        (None, buf, _) \<Rightarrow> (False, q, buf)
      | (Some (s, n), buf, pos) \<Rightarrow>
          if n \<ge> WTAG_ITEM_LEN
          then case str_to_num (drop s buf) WCOUNT_LEN of
              None \<Rightarrow> (False, q, buf)
            | Some num \<Rightarrow>
               (let q = q\<lparr>put_num := num\<rparr>; s = s + WCOUNT_LEN in
                case str_to_num (drop s buf) WPOS_LEN of
                  None \<Rightarrow> (False, q, buf)
                | Some num \<Rightarrow>
                   (let q = upd_wdb (d_pos_update (\<lambda>_. ucast num)) q; s = s + WPOS_LEN in
                    case str_to_num (drop s buf) QUEUE_MAX_SIZE_LEN of
                      None \<Rightarrow> (False, q, buf)
                    | Some num \<Rightarrow>
                       (let q = q\<lparr>maxque := ucast num\<rparr> in
                        if check_wtag_item cf q then (True, q, buf)
                        else parse_wtag_loop cf q buf pos)))
          else parse_wtag_loop cf q buf pos)"
  by pat_completeness auto
termination
  by (relation "measure (\<lambda>(cf, q, buf, pos). Suc (length buf) - pos)")
    (simp, (rule strtok_progress; assumption)+)

definition parse_wtag_item :: "ucmq_conf \<Rightarrow> mq_queue \<Rightarrow> byte list \<Rightarrow> bool \<times> mq_queue \<times> byte list" where
  "parse_wtag_item cf q buf = parse_wtag_loop cf q buf 0"

declare parse_rtag_loop.simps [simp del] parse_wtag_loop.simps [simp del]

lemma parse_rtag_shift:
  "parse_rtag_loop cf q (pre @ buf) (length pre + pos) =
     (case parse_rtag_loop cf q buf pos of (ok, q', buf') \<Rightarrow> (ok, q', pre @ buf'))"
proof (induction cf q buf pos rule: parse_rtag_loop.induct)
  case (1 cf q buf pos)
  show ?case
    unfolding parse_rtag_loop.simps [of cf q "pre @ buf" "length pre + pos"] parse_rtag_loop.simps [of cf q buf pos] strtok_shift
    using "1.IH" by (simp add: Let_def add.assoc split: prod.splits option.splits)
qed

lemma parse_wtag_shift:
  "parse_wtag_loop cf q (pre @ buf) (length pre + pos) =
     (case parse_wtag_loop cf q buf pos of (ok, q', buf') \<Rightarrow> (ok, q', pre @ buf'))"
proof (induction cf q buf pos rule: parse_wtag_loop.induct)
  case (1 cf q buf pos)
  show ?case
    unfolding parse_wtag_loop.simps [of cf q "pre @ buf" "length pre + pos"] parse_wtag_loop.simps [of cf q buf pos] strtok_shift
    using "1.IH" by (simp add: Let_def add.assoc split: prod.splits option.splits)
qed

section \<open>Files\<close>

definition mq_sm_rtag_open_next_file :: "path \<Rightarrow> world \<Rightarrow> int \<times> world" where
  "mq_sm_rtag_open_next_file file_name w =
     (let (fd, w) = sys_open file_name True False w in if fd < 0 then (-1, w) else (fd, w))"

definition mq_sm_wtag_open_next_file :: "path \<Rightarrow> world \<Rightarrow> int \<times> world" where
  "mq_sm_wtag_open_next_file file_name w =
     (let (fd, w) = sys_open file_name True False w in if fd < 0 then (-1, w) else (fd, w))"

definition mq_sm_rtag_open_file ::
    "ucmq_conf \<Rightarrow> mq_queue \<Rightarrow> queue_file \<Rightarrow> world \<Rightarrow> bool \<times> mq_queue \<times> world" where
  "mq_sm_rtag_open_file cf q qf w =
     (let rtag_file_name = GEN_DATA_FULL_PATH_BY_FNAME cf (q_name q) (rtag_fname qf) in
      if get_file_size rtag_file_name w \<le> 0 then (False, q, w)
      else case sys_open rtag_file_name False True w of
          (fd, w) \<Rightarrow> if fd < 0 then (False, q, w) else (True, q\<lparr>rtag_fd := fd\<rparr>, w))"

definition mq_sm_wtag_open_file ::
    "ucmq_conf \<Rightarrow> mq_queue \<Rightarrow> queue_file \<Rightarrow> world \<Rightarrow> bool \<times> mq_queue \<times> world" where
  "mq_sm_wtag_open_file cf q qf w =
     (let wtag_file_name = GEN_DATA_FULL_PATH_BY_FNAME cf (q_name q) (wtag_fname qf) in
      if get_file_size wtag_file_name w \<le> 0 then (False, q, w)
      else case sys_open wtag_file_name False True w of
          (fd, w) \<Rightarrow> if fd < 0 then (False, q, w) else (True, q\<lparr>wtag_fd := fd\<rparr>, w))"

definition mq_sm_rtag_close_file :: "mq_queue \<Rightarrow> world \<Rightarrow> bool \<times> world" where
  "mq_sm_rtag_close_file q w = (True, if rtag_fd q < 0 then w else sys_close (rtag_fd q) w)"

definition mq_sm_wtag_close_file :: "mq_queue \<Rightarrow> world \<Rightarrow> bool \<times> world" where
  "mq_sm_wtag_close_file q w = (True, if wtag_fd q < 0 then w else sys_close (wtag_fd q) w)"

section \<open>Writing a record\<close>

definition fmt_dec :: "nat \<Rightarrow> nat \<Rightarrow> byte list" where
  "fmt_dec width n = map digit_byte (pad_digits width n)"

definition rtag_line :: "mq_queue \<Rightarrow> byte list" where
  "rtag_line q = fmt_dec 20 (unat (get_num q)) @ fmt_dec 10 (unat (d_pos (cur_rdb q))) @ [10]"

definition wtag_line :: "mq_queue \<Rightarrow> byte list" where
  "wtag_line q = fmt_dec 20 (unat (put_num q)) @ fmt_dec 10 (unat (d_pos (cur_wdb q)))
     @ fmt_dec 10 (unat (maxque q)) @ [10]"

definition mq_sm_rtag_write_item :: "mq_queue \<Rightarrow> world \<Rightarrow> bool \<times> world" where
  "mq_sm_rtag_write_item q w =
     (let (ret, w) = write_n (rtag_fd q) FD_UNKNOWN (rtag_line q) READ_OPT_TIMEOUT w
      in if ret < 0 then (False, w) else if ret = 0 then (False, w) else (True, w))"

definition mq_sm_wtag_write_item :: "mq_queue \<Rightarrow> world \<Rightarrow> bool \<times> world" where
  "mq_sm_wtag_write_item q w =
     (let (ret, w) = write_n (wtag_fd q) FD_UNKNOWN (wtag_line q) READ_OPT_TIMEOUT w
      in if ret < 0 then (False, w) else if ret = 0 then (False, w) else (True, w))"

section \<open>Reading the last record\<close>

text \<open>
  The loop of the two \<^verbatim>\<open>read_item\<close> functions: \<open>i\<close> counts lines from the end, \<open>line\<close> is the buffer
  of two lines and a NUL. The result is \<open>None\<close> when the loop is left by \<^verbatim>\<open>break\<close> (the file has no
  further line), otherwise what the function returns.
\<close>

lemma sys_lseek_end_Some:
  assumes "sys_lseek_end fd dl w = (t, w1)" "0 \<le> to_int t"
  obtains d where "w_fds w fd = Some d" "w_files w1 = w_files w"
    "w_fds w1 fd = Some (d\<lparr>o_off := nat t\<rparr>)" "0 \<le> t" "t = int (f_size (w_files w (o_ino d))) + dl"
proof -
  have "t \<noteq> -1" using assms(2) by (auto simp: to_int_id)
  then have "\<exists>d. w_fds w fd = Some d \<and> w_files w1 = w_files w
      \<and> w_fds w1 fd = Some (d\<lparr>o_off := nat t\<rparr>) \<and> 0 \<le> t \<and> t = int (f_size (w_files w (o_ino d))) + dl"
    using assms(1)
    by (auto simp: sys_lseek_end_def next_outcome_def Let_def
        split: list.splits outcome.splits option.splits if_splits)
  then show ?thesis using that by blast
qed

function tag_read_loop ::
    "nat \<Rightarrow> (mq_queue \<Rightarrow> byte list \<Rightarrow> bool \<times> mq_queue \<times> byte list) \<Rightarrow> ucmq_conf \<Rightarrow> int \<Rightarrow> nat \<Rightarrow>
     byte list \<Rightarrow> mq_queue \<Rightarrow> world \<Rightarrow> bool option \<times> mq_queue \<times> world" where
  "tag_read_loop item_len parse cf fd i line q w =
     (case sys_lseek_end fd (- (int i * int (item_len + 1))) w of
        (offset, w1) \<Rightarrow>
          if to_int offset < TAG_FILE_HEAD_LEN then (None, q, w1)
          else case read_n fd FD_UNKNOWN (2 * (item_len + 1)) READ_OPT_TIMEOUT w1 of
            (read_len, bs, w2) \<Rightarrow>
              let line = bs @ drop (length bs) line in
              if read_len \<ge> 0
              then case (if int (item_len + 1) \<le> read_len then parse q line else (False, q, line)) of
                  (ok, q, line) \<Rightarrow>
                    if ok
                    then (Some True,
                          if i > 1 then upd_wdb (d_pos_update (\<lambda>_. MAX_DB_FILE_SIZE cf)) q else q, w2)
                    else tag_read_loop item_len parse cf fd (Suc i) line q w2
              else (Some False, q, w2))"
  by pat_completeness auto
termination
proof (relation "measure (\<lambda>(l, p, cf, fd, i, line, q, w).
    case w_fds w fd of None \<Rightarrow> 0 | Some d \<Rightarrow> Suc (f_size (w_files w (o_ino d))) - i)", goal_cases)
  case 1
  show ?case by simp
next
  case (2 item_len parse cf fd i line q w offset w1 read_len p bs w2)
  obtain d where d: "w_fds w fd = Some d" "w_files w1 = w_files w"
      "w_fds w1 fd = Some (d\<lparr>o_off := nat offset\<rparr>)" "0 \<le> offset"
      "offset = int (f_size (w_files w (o_ino d))) + - (int i * int (item_len + 1))"
    using sys_lseek_end_Some [OF 2(1) [symmetric]] 2(2) by (auto simp: TAG_FILE_HEAD_LEN_def)
  have "int i \<le> int i * int (item_len + 1)" by (simp add: mult_le_cancel_left1)
  then have "i \<le> f_size (w_files w (o_ino d))" using d(4,5) by linarith
  moreover have "read_result fd (2 * (item_len + 1)) w1 (read_len, bs, w2)"
    using read_n_result [of fd "2 * (item_len + 1)" w1 FD_UNKNOWN READ_OPT_TIMEOUT] 2(3,4) by simp
  then have "w_files w2 = w_files w1" "\<exists>k. w_fds w2 fd = Some (d\<lparr>o_off := k\<rparr>)"
    using d(3) by (auto simp: got_def)
  ultimately show ?case using d(1,2) by auto
qed

declare tag_read_loop.simps [simp del]

definition mq_sm_rtag_read_item :: "ucmq_conf \<Rightarrow> mq_queue \<Rightarrow> world \<Rightarrow> bool \<times> mq_queue \<times> world" where
  "mq_sm_rtag_read_item cf q w =
     (case tag_read_loop RTAG_ITEM_LEN (parse_rtag_item cf) cf (rtag_fd q) 1
            (replicate (2 * (RTAG_ITEM_LEN + 1) + 1) 0) q w of
        (Some r, q, w) \<Rightarrow> (r, q, w)
      | (None, q, w) \<Rightarrow> (True, upd_rdb (d_pos_update (\<lambda>_. 0)) q, w))"

definition mq_sm_wtag_read_item :: "ucmq_conf \<Rightarrow> mq_queue \<Rightarrow> world \<Rightarrow> bool \<times> mq_queue \<times> world" where
  "mq_sm_wtag_read_item cf q w =
     (case tag_read_loop WTAG_ITEM_LEN (parse_wtag_item cf) cf (wtag_fd q) 1
            (replicate (2 * (WTAG_ITEM_LEN + 1) + 1) 0) q w of
        (Some r, q, w) \<Rightarrow> (r, q, w)
      | (None, q, w) \<Rightarrow>
          (True, (upd_wdb (d_pos_update (\<lambda>_. MAX_DB_FILE_SIZE cf)) q)\<lparr>maxque := def_max_queue cf\<rparr>, w))"

section \<open>Records that can be read back\<close>

text \<open>
  What the walk back relies on: a record is one line of characters that \<^verbatim>\<open>strtok\<close> does not stop at, parsing a buffer
  that begins with it copies the recorded fields into the queue, a shorter line is passed over, and a buffer that
  ends in a shorter line has no record.
\<close>

definition plain :: "byte list \<Rightarrow> bool" where
  "plain bs = list_all (\<lambda>c. c \<noteq> 10 \<and> c \<noteq> 0) bs"

definition same_store :: "world \<Rightarrow> world \<Rightarrow> bool" where
  "same_store w w' \<longleftrightarrow> w_fs w' = w_fs w \<and> w_files w' = w_files w \<and> w_next_ino w' = w_next_ino w
     \<and> w_next_fd w' = w_next_fd w \<and> w_maps w' = w_maps w \<and> w_next_map w' = w_next_map w
     \<and> w_faults w' = w_faults w \<and> w_bavail w' = w_bavail w \<and> w_bsize w' = w_bsize w"

locale tag_record =
  fixes item_len :: nat
    and line :: "mq_queue \<Rightarrow> byte list"
    and parse :: "ucmq_conf \<Rightarrow> mq_queue \<Rightarrow> byte list \<Rightarrow> bool \<times> mq_queue \<times> byte list"
    and pos_ok :: "ucmq_conf \<Rightarrow> mq_queue \<Rightarrow> bool"
    and recall :: "mq_queue \<Rightarrow> mq_queue \<Rightarrow> mq_queue"
  assumes line_body: "\<exists>bs. line v = bs @ [10] \<and> length bs = item_len \<and> plain bs"
    and parse_line: "pos_ok cf v \<Longrightarrow> \<exists>buf. parse cf q (line v @ rest) = (True, recall v q, buf)"
    and parse_skip: "plain bs \<Longrightarrow> 0 < length bs \<Longrightarrow> length bs < item_len \<Longrightarrow>
      parse cf q (bs @ 10 # rest) = (case parse cf q rest of (ok, q', buf) \<Rightarrow> (ok, q', bs @ 0 # buf))"
    and parse_end: "plain bs \<Longrightarrow> 0 < length bs \<Longrightarrow> length bs < item_len \<Longrightarrow>
      parse cf q (bs @ 0 # rest) = (False, q, bs @ 0 # rest)"
begin

lemma length_line: "length (line v) = Suc item_len"
  using line_body [of v] by auto

definition line_at :: "inode \<Rightarrow> nat \<Rightarrow> byte list" where
  "line_at f i = bytes_at (f_data f) (f_size f - i * Suc item_len) (Suc item_len)"

text \<open>One pass of the loop when nothing fails: it parses up to two lines from the \<open>i\<close>-th line from the end on.\<close>

lemma read_loop_pass:
  assumes "w_faults w = []" and "w_fds w fd = Some d" and "o_nonblock d"
    and sz: "f_size (w_files w (o_ino d)) < 2 ^ 31"
    and i: "1 \<le> i" and le: "i * Suc item_len \<le> f_size (w_files w (o_ino d))"
    and p: "p = f_size (w_files w (o_ino d)) - i * Suc item_len" and k: "k = min (2 * Suc item_len) (i * Suc item_len)"
  obtains w2 m where
    "tag_read_loop item_len prs cf fd i buf q w =
       (case prs q (bytes_at (f_data (w_files w (o_ino d))) p k @ drop k buf) of (ok, q, buf) \<Rightarrow>
          if ok then (Some True,
            if i > 1 then upd_wdb (d_pos_update (\<lambda>_. MAX_DB_FILE_SIZE cf)) q else q, w2)
          else tag_read_loop item_len prs cf fd (Suc i) buf q w2)"
    and "same_store w w2" and "w_fds w2 = (w_fds w)(fd \<mapsto> d\<lparr>o_off := m\<rparr>)"
proof -
  define f where "f = w_files w (o_ino d)"
  define w1 where "w1 = w\<lparr>w_fds := (w_fds w)(fd \<mapsto> d\<lparr>o_off := p\<rparr>)\<rparr>"
  define w2 where "w2 = fd_get fd (d\<lparr>o_off := p\<rparr>) k (tick w1)"
  have seek: "sys_lseek_end fd (- (int i * int (item_len + 1))) w = (int p, w1)"
    using sys_lseek_end_ok [OF assms(1,2) le] by (simp add: p w1_def algebra_simps)
  have "Suc item_len \<le> i * Suc item_len" using i mult_le_mono1 [of 1 i "Suc item_len"] by simp
  then have k1: "Suc item_len \<le> k" and k2: "k = min (2 * Suc item_len) (f_size f - p)"
    using le by (simp_all add: k p f_def)
  have read: "read_n fd FD_UNKNOWN (2 * (item_len + 1)) READ_OPT_TIMEOUT w1
      = (int k, bytes_at (f_data f) p k, w2)"
    using assms(1-3) unfolding w1_def w2_def k2
    by (subst read_n_ok [where d = "d\<lparr>o_off := p\<rparr>"]) (simp_all add: READ_OPT_TIMEOUT_def f_def)
  have nneg: "\<not> to_int (int p) < TAG_FILE_HEAD_LEN"
    using sz by (simp add: to_int_id TAG_FILE_HEAD_LEN_def p)
  have "tag_read_loop item_len prs cf fd i buf q w =
       (case prs q (bytes_at (f_data f) p k @ drop k buf) of (ok, q, buf) \<Rightarrow>
          if ok then (Some True,
            if i > 1 then upd_wdb (d_pos_update (\<lambda>_. MAX_DB_FILE_SIZE cf)) q else q, w2)
          else tag_read_loop item_len prs cf fd (Suc i) buf q w2)"
    unfolding tag_read_loop.simps [of item_len prs cf fd i buf q w] seek prod.case read
    using nneg k1 by (simp add: Let_def)
  then show ?thesis
    by (rule that [unfolded f_def [symmetric]]) (simp_all add: same_store_def w2_def w1_def)
qed

lemma read_first_pass:
  assumes "w_faults w = []" "w_fds w fd = Some d" "o_nonblock d" "f_size (w_files w (o_ino d)) < 2 ^ 31"
    and le: "Suc item_len \<le> f_size (w_files w (o_ino d))"
    and b: "line_at (w_files w (o_ino d)) 1 = bs"
  obtains w2 m where
    "tag_read_loop item_len prs cf fd 1 buf q w =
       (case prs q (bs @ drop (Suc item_len) buf) of (ok, q, buf) \<Rightarrow>
          if ok then (Some True, q, w2) else tag_read_loop item_len prs cf fd 2 buf q w2)"
    and "same_store w w2" and "w_fds w2 = (w_fds w)(fd \<mapsto> d\<lparr>o_off := m\<rparr>)"
proof -
  have k: "Suc item_len = min (2 * Suc item_len) (1 * Suc item_len)" by simp
  have e: "(1 :: nat) \<le> 1" "1 * Suc item_len \<le> f_size (w_files w (o_ino d))" using le by simp_all
  show ?thesis
    by (rule read_loop_pass [OF assms(1-4) e refl k, of prs cf buf q], rule that)
      (use b in \<open>simp_all add: line_at_def numeral_2_eq_2 split: prod.split\<close>)
qed

text \<open>When the last line is a record, the loop takes it.\<close>

lemma read_last:
  assumes v: "pos_ok cf v" and w: "w_faults w = []" "w_fds w fd = Some d" "o_nonblock d"
    and f: "f_size (w_files w (o_ino d)) < 2 ^ 31" "Suc item_len \<le> f_size (w_files w (o_ino d))"
      "line_at (w_files w (o_ino d)) 1 = line v"
  shows "\<exists>w' n. tag_read_loop item_len (parse cf) cf fd 1 buf q w = (Some True, recall v q, w')
     \<and> same_store w w' \<and> w_fds w' = (w_fds w)(fd \<mapsto> d\<lparr>o_off := n\<rparr>)"
proof -
  obtain w2 m where s: "tag_read_loop item_len (parse cf) cf fd 1 buf q w =
       (case parse cf q (line v @ drop (Suc item_len) buf) of (ok, q, buf) \<Rightarrow>
          if ok then (Some True, q, w2) else tag_read_loop item_len (parse cf) cf fd 2 buf q w2)"
      "same_store w w2" "w_fds w2 = (w_fds w)(fd \<mapsto> d\<lparr>o_off := m\<rparr>)"
    by (rule read_first_pass [OF w f])
  obtain b where "parse cf q (line v @ drop (Suc item_len) buf) = (True, recall v q, b)"
    using parse_line [OF v] by blast
  then show ?thesis using s by auto
qed

text \<open>
  The last write was cut short: the file ends in a record and the first \<open>m\<close> bytes of the next one. Then the first pass
  begins inside the record and finds only two short lines.
\<close>

lemma read_short_tail:
  assumes w: "w_faults w = []" "w_fds w fd = Some d" "o_nonblock d" "f_size (w_files w (o_ino d)) < 2 ^ 31"
    and m: "0 < m" "m < item_len"
    and f: "Suc item_len + m \<le> f_size (w_files w (o_ino d))"
      "bytes_at (f_data (w_files w (o_ino d))) (f_size (w_files w (o_ino d)) - (Suc item_len + m)) (Suc item_len + m)
         = line v @ take m (line x)"
  obtains w2 k buf where
    "tag_read_loop item_len (parse cf) cf fd 1 (replicate (2 * (item_len + 1) + 1) 0) q w =
       tag_read_loop item_len (parse cf) cf fd 2 buf q w2"
    "same_store w w2" "w_fds w2 = (w_fds w)(fd \<mapsto> d\<lparr>o_off := k\<rparr>)"
proof -
  define S where "S = f_size (w_files w (o_ino d))"
  let ?b = "bytes_at (f_data (w_files w (o_ino d)))"
  obtain bv where bv: "line v = bv @ [10]" "length bv = item_len" "plain bv" using line_body by blast
  obtain bx where bx: "line x = bx @ [10]" "length bx = item_len" "plain bx" using line_body by blast
  define r where "r = take m bx @ 0 # replicate (Suc item_len) 0"
  have "?b (S - (Suc item_len + m)) m @ ?b (S - Suc item_len) (Suc item_len) = bv @ 10 # take m bx"
    using bytes_at_add [of "f_data (w_files w (o_ino d))" "S - (Suc item_len + m)" m "Suc item_len"] f bv bx m
    by (simp add: S_def add.commute [of m])
  then have "?b (S - Suc item_len) (Suc item_len) = drop m (bv @ 10 # take m bx)"
    by (metis append_eq_conv_conj length_bytes_at)
  then have la: "line_at (w_files w (o_ino d)) 1 = drop m (bv @ 10 # take m bx)" by (simp add: line_at_def S_def)
  have b: "drop m (bv @ 10 # take m bx) @ drop (Suc item_len) (replicate (2 * (item_len + 1) + 1) 0) = drop m bv @ 10 # r"
    using m bv(2) by (simp only: drop_replicate) (simp add: r_def)
  have pl: "plain (drop m bv)" "plain (take m bx)"
    using bv(3) bx(3) by (auto simp: plain_def list_all_iff dest: in_set_dropD in_set_takeD)
  have "parse cf q r = (False, q, r)" unfolding r_def using pl(2) m bx(2) by (intro parse_end) simp_all
  then have pf: "parse cf q (drop m bv @ 10 # r) = (False, q, drop m bv @ 0 # r)"
    using parse_skip [OF pl(1), of cf q r] m bv(2) by simp
  obtain w2 k where s: "tag_read_loop item_len (parse cf) cf fd 1 (replicate (2 * (item_len + 1) + 1) 0) q w =
       (case parse cf q (drop m bv @ 10 # r) of (ok, q, buf) \<Rightarrow>
          if ok then (Some True, q, w2) else tag_read_loop item_len (parse cf) cf fd 2 buf q w2)"
      "same_store w w2" "w_fds w2 = (w_fds w)(fd \<mapsto> d\<lparr>o_off := k\<rparr>)"
    by (rule read_first_pass [OF w _ la, of "parse cf" cf "replicate (2 * (item_len + 1) + 1) 0" q, unfolded b]) (use f(1) in simp_all)
  show ?thesis by (rule that [OF _ s(2,3)]) (use s(1) pf in simp)
qed

text \<open>The second pass reads two lines and finds the record behind the short line, if there is a record before it.\<close>

lemma read_behind_short_tail:
  assumes v: "pos_ok cf v"
    and w: "w_faults w = []" "w_fds w fd = Some d" "o_nonblock d" "f_size (w_files w (o_ino d)) < 2 ^ 31"
    and m: "0 < m" "m < item_len"
    and f: "2 * Suc item_len + m \<le> f_size (w_files w (o_ino d))"
      "bytes_at (f_data (w_files w (o_ino d))) (f_size (w_files w (o_ino d)) - (2 * Suc item_len + m)) (2 * Suc item_len + m)
         = line u @ line v @ take m (line x)"
  shows "\<exists>w'. tag_read_loop item_len (parse cf) cf fd 1 (replicate (2 * (item_len + 1) + 1) 0) q w =
       (Some True, upd_wdb (d_pos_update (\<lambda>_. MAX_DB_FILE_SIZE cf)) (recall v q), w') \<and> same_store w w'"
proof -
  define F where "F = f_data (w_files w (o_ino d))"
  define L where "L = Suc item_len"
  define p where "p = f_size (w_files w (o_ino d)) - (2 * L + m)"
  have q: "f_size (w_files w (o_ino d)) - (L + m) = p + L" "f_size (w_files w (o_ino d)) - 2 * L = p + m"
    using f(1) by (simp_all add: p_def L_def)
  have c: "bytes_at F p (2 * L + m) = line u @ line v @ take m (line x)"
    using f(2) by (simp add: F_def L_def p_def)
  have "bytes_at F p L @ bytes_at F (p + L) (L + m) = line u @ line v @ take m (line x)"
    using bytes_at_add [of F p L "L + m"] c by (simp add: mult_2 add.assoc)
  then have c1: "bytes_at F (p + L) (L + m) = line v @ take m (line x)"
    by (simp add: append_eq_append_conv length_line L_def)
  obtain w2 k buf where s: "tag_read_loop item_len (parse cf) cf fd 1 (replicate (2 * (item_len + 1) + 1) 0) q w =
       tag_read_loop item_len (parse cf) cf fd 2 buf q w2"
      "same_store w w2" "w_fds w2 = (w_fds w)(fd \<mapsto> d\<lparr>o_off := k\<rparr>)"
    by (rule read_short_tail [OF w m, of v x cf q]) (use f(1) c1 q(1) in \<open>simp_all add: F_def L_def\<close>)
  obtain bu where bu: "line u = bu @ [10]" "length bu = item_len" "plain bu" using line_body by blast
  have "bytes_at F p m @ bytes_at F (p + m) (2 * L) = bu @ 10 # line v @ take m (line x)"
    using bytes_at_add [of F p m "2 * L"] c bu(1) by (simp add: add.commute)
  then have c2: "bytes_at F (p + m) (2 * L) = drop m bu @ 10 # line v @ take m (line x)"
    using m bu(2) by (auto simp: append_eq_append_conv2 append_eq_conv_conj)
  have "plain (drop m bu)" using bu(3) by (auto simp: plain_def list_all_iff dest: in_set_dropD)
  then obtain b where b: "parse cf q (bytes_at F (p + m) (2 * L) @ drop (2 * L) buf) = (True, recall v q, b)"
    using parse_line [OF v, of q "take m (line x) @ drop (2 * L) buf"]
      parse_skip [of "drop m bu" cf q "line v @ take m (line x) @ drop (2 * L) buf"] m bu(2)
    by (auto simp: c2)
  have e: "w_files w2 = w_files w" "w_faults w2 = []" using s(2) w(1) by (simp_all add: same_store_def)
  obtain w3 k' where t: "tag_read_loop item_len (parse cf) cf fd 2 buf q w2 =
       (Some True, upd_wdb (d_pos_update (\<lambda>_. MAX_DB_FILE_SIZE cf)) (recall v q), w3)" "same_store w2 w3"
    using read_loop_pass [of w2 fd "d\<lparr>o_off := k\<rparr>" 2, OF _ _ _ _ _ _ refl refl, of "parse cf" cf buf q]
      e s(3) w(3,4) f(1) b q(2) by (auto simp: F_def L_def)
  show ?thesis using s(1,2) t by (auto simp: same_store_def)
qed

text \<open>With nothing before the record, the second pass would begin before the file, and the loop ends.\<close>

lemma read_short_tail_only:
  assumes w: "w_faults w = []" "w_fds w fd = Some d" "o_nonblock d" "f_size (w_files w (o_ino d)) < 2 ^ 31"
    and m: "0 < m" "m < item_len"
    and f: "f_size (w_files w (o_ino d)) = Suc item_len + m"
      "bytes_at (f_data (w_files w (o_ino d))) 0 (Suc item_len + m) = line v @ take m (line x)"
  shows "\<exists>w'. tag_read_loop item_len (parse cf) cf fd 1 (replicate (2 * (item_len + 1) + 1) 0) q w = (None, q, w')
     \<and> w_files w' = w_files w"
proof -
  obtain w2 k buf where s: "tag_read_loop item_len (parse cf) cf fd 1 (replicate (2 * (item_len + 1) + 1) 0) q w =
       tag_read_loop item_len (parse cf) cf fd 2 buf q w2"
      "same_store w w2" "w_fds w2 = (w_fds w)(fd \<mapsto> d\<lparr>o_off := k\<rparr>)"
    by (rule read_short_tail [OF w m, of v x cf q]) (use f in simp_all)
  then have e: "w_files w2 = w_files w" "w_faults w2 = []" using w(1) by (simp_all add: same_store_def)
  then have "sys_lseek_end fd (- (int 2 * int (item_len + 1))) w2 = (-1, w2\<lparr>w_errno := EINVAL\<rparr>)"
    using s(3) f(1) m by (simp add: sys_lseek_end_def Let_def)
  then show ?thesis
    using s(1) e by (simp add: tag_read_loop.simps [of item_len "parse cf" cf fd 2] TAG_FILE_HEAD_LEN_def to_int_id)
qed

text \<open>A record that was just appended is the one that is read back.\<close>

lemma append_then_read:
  assumes "w_faults w = []" and "w_fds w fd = Some d" and "o_nonblock d"
    and "o_append d \<or> o_off d = f_size (w_files w (o_ino d))"
    and "f_size (w_files w (o_ino d)) + Suc item_len < 2 ^ 31" and "pos_ok cf v"
  shows "\<exists>w'. tag_read_loop item_len (parse cf) cf fd 1 buf q (fd_put fd d (line v) (tick w))
           = (Some True, recall v q, w') \<and> same_store (fd_put fd d (line v) (tick w)) w'"
proof -
  let ?w = "fd_put fd d (line v) (tick w)" and ?s = "f_size (w_files w (o_ino d))"
  have f: "w_files ?w (o_ino d) = file_write (w_files w (o_ino d)) ?s (line v)"
    and d: "w_fds ?w fd = Some (d\<lparr>o_off := ?s + Suc item_len\<rparr>)"
    using assms(4) by (auto simp: fd_put_def Let_def length_line)
  have sz: "f_size (w_files ?w (o_ino d)) = ?s + Suc item_len"
    by (simp add: f file_write_def length_line)
  have "line_at (w_files ?w (o_ino d)) 1 = line v"
    unfolding line_at_def sz
    by (simp add: f file_write_def bytes_at_put_same length_line)
  then show ?thesis
    using read_last [OF assms(6), of ?w fd "d\<lparr>o_off := ?s + Suc item_len\<rparr>" buf q] d sz assms(1,3,5)
    by auto
qed

end

section \<open>The two records\<close>

lemma strtok_line:
  assumes "ds \<noteq> []" and "\<forall>c \<in> set ds. c \<noteq> 10 \<and> c \<noteq> 0"
  shows "strtok 10 (ds @ 10 # rest) 0 = (Some (0, length ds), ds @ 0 # rest, Suc (length ds))"
proof -
  have t1: "takeWhile ((=) 10) (ds @ 10 # rest) = []" and nz: "(ds @ 10 # rest) ! 0 \<noteq> 0"
    using assms by (cases ds; auto)+
  have t2: "takeWhile (\<lambda>c. c \<noteq> 10 \<and> c \<noteq> 0) (ds @ 10 # rest) = ds"
    using assms(2) by (subst takeWhile_append2) auto
  show ?thesis by (simp add: strtok_def t1 t2 nz Let_def)
qed

lemma strtok_plain:
  assumes "plain bs" and "0 < length bs"
  shows "strtok 10 (bs @ 10 # rest) 0 = (Some (0, length bs), bs @ 0 # rest, Suc (length bs))"
    and "strtok 10 (bs @ 0 # rest) 0 = (Some (0, length bs), bs @ 0 # rest, length bs)"
    and "strtok 10 (bs @ 0 # rest) (length bs) = (None, bs @ 0 # rest, length bs)"
proof -
  show "strtok 10 (bs @ 10 # rest) 0 = (Some (0, length bs), bs @ 0 # rest, Suc (length bs))"
    using assms by (intro strtok_line) (auto simp: plain_def list_all_iff)
  have "takeWhile ((=) 10) (bs @ 0 # rest) = []" "(bs @ 0 # rest) ! 0 \<noteq> 0"
    using assms by (cases bs; auto simp: plain_def)+
  moreover have "takeWhile (\<lambda>c. c \<noteq> 10 \<and> c \<noteq> 0) (bs @ 0 # rest) = bs"
    using assms(1) by (subst takeWhile_append2) (auto simp: plain_def list_all_iff)
  ultimately show "strtok 10 (bs @ 0 # rest) 0 = (Some (0, length bs), bs @ 0 # rest, length bs)"
    by (simp add: strtok_def Let_def)
  show "strtok 10 (bs @ 0 # rest) (length bs) = (None, bs @ 0 # rest, length bs)" by (simp add: strtok_def Let_def)
qed

lemma digit_bytes: "c \<in> set (fmt_dec k n) \<Longrightarrow> 48 \<le> unat c \<and> unat c \<le> 57"
  by (auto simp: fmt_dec_def dest!: pad_digits_lt_10 simp: unat_digit_byte)

lemma digit_bytes_not_special: "c \<in> set (fmt_dec k n) \<Longrightarrow> c \<noteq> 10 \<and> c \<noteq> 0"
  using digit_bytes [of c k n] by auto

lemma length_fmt_dec: "0 < k \<Longrightarrow> n < 10 ^ k \<Longrightarrow> length (fmt_dec k n) = k"
  using length_pad_digits [of n "k - 1"] by (simp add: fmt_dec_def)

lemma str_to_num_loop_digits:
  "\<forall>d \<in> set ds. d < 10 \<Longrightarrow>
   str_to_num_loop (of_nat a) (map digit_byte ds) = Some (of_nat (foldl (\<lambda>acc d. acc * 10 + d) a ds))"
proof (induction ds arbitrary: a)
  case (Cons d ds)
  have "str_to_num_loop (of_nat a) (map digit_byte (d # ds))
      = str_to_num_loop (of_nat (a * 10 + d)) (map digit_byte ds)"
    using Cons.prems by (simp add: unat_digit_byte)
  then show ?case using Cons.IH [of "a * 10 + d"] Cons.prems by simp
qed simp

lemma str_to_num_fmt_dec:
  assumes "0 < k" and "n < 10 ^ k"
  shows "str_to_num (fmt_dec k n @ rest) k = Some (of_nat n)"
  using assms str_to_num_loop_digits [of "pad_digits k n" 0] length_fmt_dec [OF assms]
    dec_value_pad_digits [of k n]
  by (simp add: str_to_num_def fmt_dec_def pad_digits_lt_10 dec_value_def)

lemma unat_u64_digits: "unat (x :: u64) < 10 ^ 20"
  using unsigned_less [of x, where 'a = nat] by simp

lemma unat_u32_digits: "unat (x :: u32) < 10 ^ 10"
  using unsigned_less [of x, where 'a = nat] by simp

lemma ucast_ucast_u32: "ucast (ucast (x :: u32) :: u64) = x"
  by (rule bit_word_eqI) (simp add: bit_simps)

lemma tag_digits:
  "str_to_num (fmt_dec 20 (unat (y :: u64)) @ rest) 20 = Some y"
  "str_to_num (fmt_dec 10 (unat (x :: u32)) @ rest) 10 = Some (ucast x)"
  using str_to_num_fmt_dec [OF _ unat_u64_digits] str_to_num_fmt_dec [OF _ unat_u32_digits]
  by simp_all

lemma length_tag_fields [simp]:
  "length (fmt_dec 20 (unat (y :: u64))) = 20" "length (fmt_dec 10 (unat (x :: u32))) = 10"
  using length_fmt_dec unat_u64_digits unat_u32_digits by simp_all

definition rtag_recall :: "mq_queue \<Rightarrow> mq_queue \<Rightarrow> mq_queue" where
  "rtag_recall v q = upd_rdb (d_pos_update (\<lambda>_. d_pos (cur_rdb v))) (q\<lparr>get_num := get_num v\<rparr>)"

definition wtag_recall :: "mq_queue \<Rightarrow> mq_queue \<Rightarrow> mq_queue" where
  "wtag_recall v q =
     (upd_wdb (d_pos_update (\<lambda>_. d_pos (cur_wdb v))) (q\<lparr>put_num := put_num v\<rparr>))\<lparr>maxque := maxque v\<rparr>"

lemma parse_rtag_line:
  assumes "check_rtag_item cf v"
  shows "\<exists>buf. parse_rtag_item cf q (rtag_line v @ rest) = (True, rtag_recall v q, buf)"
proof -
  let ?a = "fmt_dec 20 (unat (get_num v))" and ?b = "fmt_dec 10 (unat (d_pos (cur_rdb v)))"
  have "?a @ ?b \<noteq> []" by (metis length_append length_tag_fields(1) add_is_0 list.size(3) zero_neq_numeral)
  then have "strtok 10 ((?a @ ?b) @ 10 # rest) 0 = (Some (0, 30), (?a @ ?b) @ 0 # rest, 31)"
    using strtok_line [of "?a @ ?b" rest] digit_bytes_not_special by auto
  then have tok: "strtok 10 (rtag_line v @ rest) 0 = (Some (0, 30), ?a @ ?b @ 0 # rest, 31)"
    by (simp add: rtag_line_def)
  show ?thesis
    using assms
    by (simp add: parse_rtag_item_def parse_rtag_loop.simps [of cf q _ 0] tok store_consts
        tag_digits ucast_ucast_u32 rtag_recall_def check_rtag_item_def Let_def)
qed

lemma parse_wtag_line:
  assumes "check_wtag_item cf v"
  shows "\<exists>buf. parse_wtag_item cf q (wtag_line v @ rest) = (True, wtag_recall v q, buf)"
proof -
  let ?a = "fmt_dec 20 (unat (put_num v))" and ?b = "fmt_dec 10 (unat (d_pos (cur_wdb v)))"
    and ?c = "fmt_dec 10 (unat (maxque v))"
  have "?a @ ?b @ ?c \<noteq> []" by (metis length_append length_tag_fields(1) add_is_0 list.size(3) zero_neq_numeral)
  then have "strtok 10 ((?a @ ?b @ ?c) @ 10 # rest) 0 = (Some (0, 40), (?a @ ?b @ ?c) @ 0 # rest, 41)"
    using strtok_line [of "?a @ ?b @ ?c" rest] digit_bytes_not_special by auto
  then have tok: "strtok 10 (wtag_line v @ rest) 0 = (Some (0, 40), ?a @ ?b @ ?c @ 0 # rest, 41)"
    by (simp add: wtag_line_def)
  have d: "drop 30 (?a @ ?b @ ?c @ 0 # rest) = ?c @ 0 # rest" by simp
  show ?thesis
    using assms
    by (simp add: parse_wtag_item_def parse_wtag_loop.simps [of cf q _ 0] tok store_consts d
        tag_digits ucast_ucast_u32 wtag_recall_def check_wtag_item_def Let_def)
qed

text \<open>Lines shorter than a record.\<close>

lemma parse_rtag_short:
  assumes "plain bs" "0 < length bs" "length bs < RTAG_ITEM_LEN"
  shows "parse_rtag_item cf q (bs @ 10 # rest) = (case parse_rtag_item cf q rest of (ok, q', buf) \<Rightarrow> (ok, q', bs @ 0 # buf))"
    and "parse_rtag_item cf q (bs @ 0 # rest) = (False, q, bs @ 0 # rest)"
  using assms strtok_plain [OF assms(1,2), of rest] parse_rtag_shift [of cf q "bs @ [0]" rest 0]
  by (simp_all add: parse_rtag_item_def parse_rtag_loop.simps [of cf q "bs @ 10 # rest" 0]
      parse_rtag_loop.simps [of cf q "bs @ 0 # rest" 0] parse_rtag_loop.simps [of cf q "bs @ 0 # rest" "length bs"])

lemma parse_wtag_short:
  assumes "plain bs" "0 < length bs" "length bs < WTAG_ITEM_LEN"
  shows "parse_wtag_item cf q (bs @ 10 # rest) = (case parse_wtag_item cf q rest of (ok, q', buf) \<Rightarrow> (ok, q', bs @ 0 # buf))"
    and "parse_wtag_item cf q (bs @ 0 # rest) = (False, q, bs @ 0 # rest)"
  using assms strtok_plain [OF assms(1,2), of rest] parse_wtag_shift [of cf q "bs @ [0]" rest 0]
  by (simp_all add: parse_wtag_item_def parse_wtag_loop.simps [of cf q "bs @ 10 # rest" 0]
      parse_wtag_loop.simps [of cf q "bs @ 0 # rest" 0] parse_wtag_loop.simps [of cf q "bs @ 0 # rest" "length bs"])

lemma plain_fmt_dec: "plain (fmt_dec k n)"
  using digit_bytes_not_special by (auto simp: plain_def list_all_iff)

lemma plain_append: "plain (as @ bs) \<longleftrightarrow> plain as \<and> plain bs"
  by (simp add: plain_def)

interpretation rtag: tag_record RTAG_ITEM_LEN rtag_line parse_rtag_item check_rtag_item rtag_recall
proof
  show "\<exists>bs. rtag_line v = bs @ [10] \<and> length bs = RTAG_ITEM_LEN \<and> plain bs" for v
    by (intro exI [of _ "butlast (rtag_line v)"])
      (simp add: rtag_line_def RTAG_ITEM_LEN_def butlast_append plain_fmt_dec plain_append)
qed (simp_all add: parse_rtag_line parse_rtag_short)

interpretation wtag: tag_record WTAG_ITEM_LEN wtag_line parse_wtag_item check_wtag_item wtag_recall
proof
  show "\<exists>bs. wtag_line v = bs @ [10] \<and> length bs = WTAG_ITEM_LEN \<and> plain bs" for v
    by (intro exI [of _ "butlast (wtag_line v)"])
      (simp add: wtag_line_def WTAG_ITEM_LEN_def butlast_append plain_fmt_dec plain_append)
qed (simp_all add: parse_wtag_line parse_wtag_short)

section \<open>Properties\<close>

text \<open>
  C34. What \<^verbatim>\<open>mq_sm_rtag_write_item\<close> appends, \<^verbatim>\<open>mq_sm_rtag_read_item\<close> reads back: the read count and
  the read position of the writing queue arrive in the reading queue, and nothing else of it
  changes.
\<close>

theorem rtag_write_read:
  assumes "w_faults w = []" and "w_fds w (rtag_fd v) = Some d" and "o_nonblock d"
    and "o_append d \<or> o_off d = f_size (w_files w (o_ino d))"
    and "f_size (w_files w (o_ino d)) + 31 < 2 ^ 31"
    and "d_pos (cur_rdb v) \<le> MAX_DB_FILE_SIZE cf" and "rtag_fd q = rtag_fd v"
  shows "\<exists>w1 w2. mq_sm_rtag_write_item v w = (True, w1)
     \<and> mq_sm_rtag_read_item cf q w1 =
         (True, q\<lparr>get_num := get_num v, cur_rdb := (cur_rdb q)\<lparr>d_pos := d_pos (cur_rdb v)\<rparr>\<rparr>, w2)"
proof -
  have "rtag_line v \<noteq> []" by (simp add: rtag_line_def)
  then have wr: "mq_sm_rtag_write_item v w = (True, fd_put (rtag_fd v) d (rtag_line v) (tick w))"
    using write_n_ok [OF assms(1-3)] by (simp add: mq_sm_rtag_write_item_def)
  have "\<exists>w'. tag_read_loop RTAG_ITEM_LEN (parse_rtag_item cf) cf (rtag_fd v) 1
      (replicate (2 * (RTAG_ITEM_LEN + 1) + 1) 0) q (fd_put (rtag_fd v) d (rtag_line v) (tick w))
      = (Some True, rtag_recall v q, w')"
    using rtag.append_then_read [OF assms(1-4), of cf v] assms(5,6)
    by (auto simp: check_rtag_item_def RTAG_ITEM_LEN_def not_less)
  then show ?thesis
    using wr assms(7) by (auto simp: mq_sm_rtag_read_item_def rtag_recall_def)
qed

theorem rtag_write_read_witness:
  "\<exists>w1 w2. mq_sm_rtag_write_item (zero_queue\<lparr>rtag_fd := 4, get_num := 7, cur_rdb := zero_db_map\<lparr>d_pos := 140\<rparr>\<rparr>)
        sample_world = (True, w1)
     \<and> mq_sm_rtag_read_item g_mq_conf (zero_queue\<lparr>rtag_fd := 4\<rparr>) w1 =
         (True, zero_queue\<lparr>rtag_fd := 4, get_num := 7, cur_rdb := zero_db_map\<lparr>d_pos := 140\<rparr>\<rparr>, w2)"
  using rtag_write_read [of "sample_world"
      "zero_queue\<lparr>rtag_fd := 4, get_num := 7, cur_rdb := zero_db_map\<lparr>d_pos := 140\<rparr>\<rparr>"
      "\<lparr>o_ino = 1, o_off = 0, o_append = True, o_nonblock = True\<rparr>" g_mq_conf "zero_queue\<lparr>rtag_fd := 4\<rparr>"]
  by (simp add: sample_world_def zero_queue_def g_mq_conf_def MAX_DB_FILE_SIZE_def)

text \<open>
  C35. What \<^verbatim>\<open>mq_sm_wtag_write_item\<close> appends, \<^verbatim>\<open>mq_sm_wtag_read_item\<close> reads back: the write count, the
  write position and the queue limit, and nothing else of the queue changes.
\<close>

theorem wtag_write_read:
  assumes "w_faults w = []" and "w_fds w (wtag_fd v) = Some d" and "o_nonblock d"
    and "o_append d \<or> o_off d = f_size (w_files w (o_ino d))"
    and "f_size (w_files w (o_ino d)) + 41 < 2 ^ 31"
    and "d_pos (cur_wdb v) \<le> MAX_DB_FILE_SIZE cf" and "wtag_fd q = wtag_fd v"
  shows "\<exists>w1 w2. mq_sm_wtag_write_item v w = (True, w1)
     \<and> mq_sm_wtag_read_item cf q w1 =
         (True, q\<lparr>put_num := put_num v, maxque := maxque v,
                  cur_wdb := (cur_wdb q)\<lparr>d_pos := d_pos (cur_wdb v)\<rparr>\<rparr>, w2)"
proof -
  have "wtag_line v \<noteq> []" by (simp add: wtag_line_def)
  then have wr: "mq_sm_wtag_write_item v w = (True, fd_put (wtag_fd v) d (wtag_line v) (tick w))"
    using write_n_ok [OF assms(1-3)] by (simp add: mq_sm_wtag_write_item_def)
  have "\<exists>w'. tag_read_loop WTAG_ITEM_LEN (parse_wtag_item cf) cf (wtag_fd v) 1
      (replicate (2 * (WTAG_ITEM_LEN + 1) + 1) 0) q (fd_put (wtag_fd v) d (wtag_line v) (tick w))
      = (Some True, wtag_recall v q, w')"
    using wtag.append_then_read [OF assms(1-4), of cf v] assms(5,6)
    by (auto simp: check_wtag_item_def WTAG_ITEM_LEN_def not_less)
  then show ?thesis
    using wr assms(7) by (auto simp: mq_sm_wtag_read_item_def wtag_recall_def)
qed

theorem wtag_write_read_witness:
  "\<exists>w1 w2. mq_sm_wtag_write_item (zero_queue\<lparr>wtag_fd := 4, put_num := 7, maxque := 5\<rparr>) sample_world = (True, w1)
     \<and> mq_sm_wtag_read_item g_mq_conf (zero_queue\<lparr>wtag_fd := 4\<rparr>) w1 =
         (True, zero_queue\<lparr>wtag_fd := 4, put_num := 7, maxque := 5\<rparr>, w2)"
  using wtag_write_read [of "sample_world" "zero_queue\<lparr>wtag_fd := 4, put_num := 7, maxque := 5\<rparr>"
      "\<lparr>o_ino = 1, o_off = 0, o_append = True, o_nonblock = True\<rparr>" g_mq_conf "zero_queue\<lparr>wtag_fd := 4\<rparr>"]
  by (simp add: sample_world_def zero_queue_def zero_db_map_def g_mq_conf_def MAX_DB_FILE_SIZE_def)

text \<open>
  C36. A \<^verbatim>\<open>wtag\<close> record whose write was cut short loses no more than itself: if the file ends in two records, of
  \<open>u\<close> and \<open>v\<close>, and the first \<open>m\<close> bytes of a third one (fewer than its 40 digits), then \<^verbatim>\<open>mq_sm_wtag_read_item\<close> recovers
  the write count and the limit of \<open>v\<close>, and puts the write position at the end of the data file, so that the next
  message goes to a new file. Nothing else of the queue and no file changes.
\<close>

theorem wtag_recovers_torn:
  assumes "w_faults w = []" and "w_fds w (wtag_fd q) = Some d" and "o_nonblock d"
    and "f_size (w_files w (o_ino d)) < 2 ^ 31" and "0 < m" and "m < 40"
    and "82 + m \<le> f_size (w_files w (o_ino d))"
    and "bytes_at (f_data (w_files w (o_ino d))) (f_size (w_files w (o_ino d)) - (82 + m)) (82 + m)
           = wtag_line u @ wtag_line v @ take m (wtag_line x)"
    and "d_pos (cur_wdb v) \<le> MAX_DB_FILE_SIZE cf"
  shows "\<exists>w'. mq_sm_wtag_read_item cf q w =
     (True, q\<lparr>put_num := put_num v, maxque := maxque v, cur_wdb := (cur_wdb q)\<lparr>d_pos := MAX_DB_FILE_SIZE cf\<rparr>\<rparr>, w')
     \<and> w_files w' = w_files w"
proof -
  have "check_wtag_item cf v" using assms(9) by (simp add: check_wtag_item_def not_less)
  from wtag.read_behind_short_tail [OF this assms(1-5), of u x q]
  show ?thesis using assms(6-8)
    by (auto simp: mq_sm_wtag_read_item_def wtag_recall_def same_store_def WTAG_ITEM_LEN_def)
qed

definition wtag_file :: "byte list \<Rightarrow> world" where
  "wtag_file bs = sample_world\<lparr>w_files := (w_files sample_world)(1 := file_write empty_file 0 bs)\<rparr>"

lemma wtag_file_simps:
  "w_faults (wtag_file bs) = []"
  "w_fds (wtag_file bs) 4 = Some \<lparr>o_ino = 1, o_off = 0, o_append = True, o_nonblock = True\<rparr>"
  "f_size (w_files (wtag_file bs) 1) = length bs"
  "bytes_at (f_data (w_files (wtag_file bs) 1)) 0 (length bs) = bs"
  by (simp_all add: wtag_file_def sample_world_def file_write_def empty_file_def bytes_at_put_same)

lemma length_wtag_line: "length (wtag_line v) = 41"
  using wtag.length_line [of v] by (simp add: WTAG_ITEM_LEN_def)

theorem wtag_recovers_torn_witness:
  "\<exists>w'. mq_sm_wtag_read_item g_mq_conf (zero_queue\<lparr>wtag_fd := 4\<rparr>)
       (wtag_file (wtag_line (zero_queue\<lparr>put_num := 8, maxque := 5\<rparr>) @ wtag_line (zero_queue\<lparr>put_num := 9, maxque := 5\<rparr>)
          @ take 17 (wtag_line (zero_queue\<lparr>put_num := 10, maxque := 5\<rparr>)))) =
     (True, zero_queue\<lparr>wtag_fd := 4, put_num := 9, maxque := 5, cur_wdb := zero_db_map\<lparr>d_pos := 67108864\<rparr>\<rparr>, w')"
proof -
  let ?u = "zero_queue\<lparr>put_num := 8, maxque := 5\<rparr>" and ?v = "zero_queue\<lparr>put_num := 9, maxque := 5\<rparr>"
    and ?x = "zero_queue\<lparr>put_num := 10, maxque := 5\<rparr>"
  let ?bs = "wtag_line ?u @ wtag_line ?v @ take 17 (wtag_line ?x)"
  have l: "length ?bs = 99" by (simp add: length_wtag_line)
  show ?thesis
    using wtag_recovers_torn [of "wtag_file ?bs" "zero_queue\<lparr>wtag_fd := 4\<rparr>"
        "\<lparr>o_ino = 1, o_off = 0, o_append = True, o_nonblock = True\<rparr>" 17 ?u ?v ?x g_mq_conf]
      wtag_file_simps [of ?bs] l
    by (auto simp: zero_queue_def zero_db_map_def g_mq_conf_def MAX_DB_FILE_SIZE_def)
qed

text \<open>
  C37. When the file has only one record before the short one, that record is lost although it is intact: the second
  pass would start before the beginning of the file, so the loop gives up after the first, and \<^verbatim>\<open>mq_sm_wtag_read_item\<close>
  still reports success, with the write count unread (0 in a queue that is being opened) and the configured limit
  in place of the recorded one.
\<close>

theorem wtag_single_record_lost:
  assumes "w_faults w = []" and "w_fds w (wtag_fd q) = Some d" and "o_nonblock d" and "0 < m" and "m < 40"
    and "f_size (w_files w (o_ino d)) = 41 + m"
    and "bytes_at (f_data (w_files w (o_ino d))) 0 (41 + m) = wtag_line v @ take m (wtag_line x)"
  shows "\<exists>w'. mq_sm_wtag_read_item cf q w =
     (True, q\<lparr>maxque := def_max_queue cf, cur_wdb := (cur_wdb q)\<lparr>d_pos := MAX_DB_FILE_SIZE cf\<rparr>\<rparr>, w')
     \<and> w_files w' = w_files w"
proof -
  have "f_size (w_files w (o_ino d)) < 2 ^ 31" using assms(5,6) by simp
  from wtag.read_short_tail_only [OF assms(1-3) this assms(4), of v x cf q]
  show ?thesis using assms(5-7) by (auto simp: mq_sm_wtag_read_item_def WTAG_ITEM_LEN_def)
qed

theorem wtag_single_record_lost_witness:
  "\<exists>w'. mq_sm_wtag_read_item g_mq_conf (zero_queue\<lparr>wtag_fd := 4\<rparr>)
       (wtag_file (wtag_line (zero_queue\<lparr>put_num := 9, maxque := 5\<rparr>)
          @ take 17 (wtag_line (zero_queue\<lparr>put_num := 10, maxque := 5\<rparr>)))) =
     (True, zero_queue\<lparr>wtag_fd := 4, maxque := def_max_queue g_mq_conf, cur_wdb := zero_db_map\<lparr>d_pos := 67108864\<rparr>\<rparr>, w')"
proof -
  let ?v = "zero_queue\<lparr>put_num := 9, maxque := 5\<rparr>" and ?x = "zero_queue\<lparr>put_num := 10, maxque := 5\<rparr>"
  let ?bs = "wtag_line ?v @ take 17 (wtag_line ?x)"
  have l: "length ?bs = 58" by (simp add: length_wtag_line)
  show ?thesis
    using wtag_single_record_lost [of "wtag_file ?bs" "zero_queue\<lparr>wtag_fd := 4\<rparr>"
        "\<lparr>o_ino = 1, o_off = 0, o_append = True, o_nonblock = True\<rparr>" 17 ?v ?x g_mq_conf]
      wtag_file_simps [of ?bs] l
    by (auto simp: zero_queue_def zero_db_map_def g_mq_conf_def MAX_DB_FILE_SIZE_def)
qed

end
