(* ===== verification/Store_File.thy ===== *)
theory Store_File
  imports Store_Tag Store_Msg
begin

text \<open>
  \<^verbatim>\<open>src/src/mq_store_file.c\<close>: the data directory, opening and mapping a data file, moving the
  reader or the writer of a queue to the next file, and finding the files of a queue when it
  is opened. \<^verbatim>\<open>msync\<close> and \<^verbatim>\<open>fsync\<close> change nothing in the modelled state.
\<close>

datatype file_open_flag = FOPEN_FLAG_CREATE | FOPEN_FLAG_OPEN

definition touch_data_path :: "path \<Rightarrow> world \<Rightarrow> bool \<times> world" where
  "touch_data_path p w =
     (let (r, w) = sys_access p w in
      if r \<noteq> 0
      then if w_errno w = EACCES then (False, w)
           else if w_errno w = ENOENT
           then let (r, w) = sys_mkdir p w in if r \<noteq> 0 then (False, w) else (is_dir p w, w)
           else (False, w)
      else (is_dir p w, w))"

text \<open>The mapped address, the descriptor stored through \<^verbatim>\<open>fd\<close>, and the world.\<close>

definition mq_sm_open_db_file :: "ucmq_conf \<Rightarrow> path \<Rightarrow> file_open_flag \<Rightarrow> world \<Rightarrow> ptr \<times> int \<times> world" where
  "mq_sm_open_db_file cf db_fname open_flag w =
     (let (fd, w) = sys_open db_fname (open_flag = FOPEN_FLAG_CREATE) False w in
      if fd < 0 then (None, fd, w)
      else
        let (ok, w) =
          (if open_flag = FOPEN_FLAG_CREATE
           then extend_file_size fd (uint (MAX_DB_FILE_SIZE cf)) w
           else (word_of_int (get_file_size db_fname w) = MAX_DB_FILE_SIZE cf, w))
        in if \<not> ok then (None, fd, sys_close fd w)
           else case sys_mmap (max_db cf) fd w of
               (None, w) \<Rightarrow> (None, fd, sys_close fd w)
             | (Some m, w) \<Rightarrow> (Some m, fd, w))"

section \<open>The next file of the reader\<close>

definition get_next_read_file :: "ucmq_conf \<Rightarrow> mq_queue \<Rightarrow> world \<Rightarrow> bool \<times> mq_queue \<times> world" where
  "get_next_read_file cf q w =
     (let next_index = d_cur_index (cur_rdb q) + 1 in
      if next_index > d_cur_index (cur_wdb q)
      then (False, upd_rdb (d_cur_index_update (\<lambda>_. d_cur_index (cur_wdb q))) q, w)
      else
        let old_rtag_fname = GEN_RTAG_FULL_PATH_BY_QNAME_INDEX cf (q_name q) (d_cur_index (cur_rdb q));
            old_db_fname = GEN_DATA_FULL_PATH_BY_QNAME_INDEX cf (q_name q) (d_cur_index (cur_rdb q));
            new_rtag_fname = GEN_RTAG_FULL_PATH_BY_QNAME_INDEX cf (q_name q) next_index;
            new_db_fname = GEN_DATA_FULL_PATH_BY_QNAME_INDEX cf (q_name q) next_index;
            q = upd_rdb (d_flag_update (\<lambda>_. 0)) q;
            old_rtag_file_fd = rtag_fd q;
            old_db_file_fd = d_fd (cur_rdb q);
            old_db_map_addr = d_map_mem (cur_rdb q);
            (fd, w) = mq_sm_rtag_open_next_file new_rtag_fname w;
            q = q\<lparr>rtag_fd := fd\<rparr>
        in if fd < 0 then (False, q, w)
           else
             let q = q\<lparr>cur_rdb := (cur_rdb q)\<lparr>d_cur_index := next_index, d_opt_count := 0,
                        d_pos := of_nat DB_FILE_HEAD_LEN\<rparr>\<rparr>;
                 (_, w) = mq_sm_rtag_write_item q w;
                 w = sys_close old_rtag_file_fd w;
                 w = sys_unlink old_rtag_fname w;
                 w = sys_munmap old_db_map_addr w;
                 w = sys_close old_db_file_fd w;
                 w = sys_unlink old_db_fname w
             in if next_index = d_cur_index (cur_wdb q)
                then (True, q\<lparr>cur_rdb := (cur_rdb q)\<lparr>d_map_mem := d_map_mem (cur_wdb q),
                              d_fd := d_fd (cur_wdb q), d_flag := 1\<rparr>\<rparr>, w)
                else case mq_sm_open_db_file cf new_db_fname FOPEN_FLAG_OPEN w of
                    (m, fd, w) \<Rightarrow>
                      (let q = q\<lparr>cur_rdb := (cur_rdb q)\<lparr>d_map_mem := m, d_fd := fd\<rparr>\<rparr> in
                       if m = None then (False, q, sys_close (rtag_fd q) w)
                       else (True, upd_rdb (d_flag_update (\<lambda>_. 1)) q, w)))"

section \<open>The next file of the writer\<close>

text \<open>
  The free space is an \<^verbatim>\<open>int\<close> compared with a \<^verbatim>\<open>uint64_t\<close>: the comparison is unsigned.
\<close>

definition storage_short :: "ucmq_conf \<Rightarrow> world \<Rightarrow> bool" where
  "storage_short cf w \<longleftrightarrow> word_of_int (get_storage_free w) < res_store_space cf"

definition get_next_write_file ::
    "ucmq_conf \<Rightarrow> mq_queue \<Rightarrow> world \<Rightarrow> (bool \<times> mq_queue \<times> world) option" where
  "get_next_write_file cf q w =
     (if storage_short cf w then Some (False, q, w)
      else
        let next_index = d_cur_index (cur_wdb q) + 1;
            new_db_fname = GEN_DATA_FULL_PATH_BY_QNAME_INDEX cf (q_name q) next_index;
            old_wtag_file_fd = wtag_fd q;
            old_wtag_fname = GEN_WTAG_FULL_PATH_BY_QNAME_INDEX cf (q_name q) (d_cur_index (cur_wdb q));
            new_wtag_fname = GEN_WTAG_FULL_PATH_BY_QNAME_INDEX cf (q_name q) next_index;
            (q, w) =
              (if d_cur_index (cur_wdb q) > d_cur_index (cur_rdb q)
               then (upd_wdb (d_flag_update (\<lambda>_. 0)) q,
                     sys_close (d_fd (cur_wdb q)) (sys_munmap (d_map_mem (cur_wdb q)) w))
               else (q, w));
            (fd, w) = mq_sm_wtag_open_next_file new_wtag_fname w;
            q = q\<lparr>wtag_fd := fd\<rparr>
        in if fd < 0 then Some (False, q, w)
           else case mq_sm_open_db_file cf new_db_fname FOPEN_FLAG_CREATE w of
               (m, fd, w) \<Rightarrow>
                 (let q = q\<lparr>cur_wdb := (cur_wdb q)\<lparr>d_map_mem := m, d_fd := fd\<rparr>\<rparr> in
                  if m = None then Some (False, q, w)
                  else do {
                    let q = q\<lparr>cur_wdb := (cur_wdb q)\<lparr>d_opt_count := 0, d_flag := 1,
                               d_pos := of_nat DB_FILE_HEAD_LEN, d_cur_index := next_index\<rparr>\<rparr>;
                    (_, w) \<leftarrow> mq_sm_db_write_file_head q w;
                    let (_, w) = mq_sm_wtag_write_item q w;
                    let w = sys_close old_wtag_file_fd w;
                    Some (True, q, sys_unlink old_wtag_fname w)
                  }))"

section \<open>Finding the files of a queue\<close>

text \<open>
  One name of the directory. The counters \<open>i\<close>, \<open>j\<close>, \<open>k\<close> start at 1 and count the data files, the
  rtag and the wtag files kept so far. \<open>None\<close>: a name does not fit the 65 bytes it is
  copied to. As in the code, \<^verbatim>\<open>get_file_size\<close> and \<^verbatim>\<open>unlink\<close> are given the bare name, which is
  looked up in the working directory of the process, not in the queue's directory.
\<close>

record scan_state =
  sc_i :: nat
  sc_j :: nat
  sc_k :: nat
  sc_qf :: queue_file
  sc_w :: world

definition scan_db :: "string \<Rightarrow> scan_state \<Rightarrow> scan_state" where
  "scan_db d_name s =
     (let qf = sc_qf s;
          qf = (if sc_i s = 1 then qf\<lparr>read_fname := d_name, write_fname := d_name\<rparr>
                else qf\<lparr>read_fname := (if strcmp d_name (read_fname qf) < 0 then d_name else read_fname qf),
                        write_fname := (if strcmp d_name (write_fname qf) > 0 then d_name else write_fname qf)\<rparr>)
      in s\<lparr>sc_qf := qf, sc_i := Suc (sc_i s)\<rparr>)"

text \<open>The flag tells that the entry is finished by \<^verbatim>\<open>continue\<close>.\<close>

definition scan_rtag :: "string \<Rightarrow> scan_state \<Rightarrow> bool \<times> scan_state" where
  "scan_rtag d_name s =
     (if sc_j s = 1 then (False, s\<lparr>sc_qf := (sc_qf s)\<lparr>rtag_fname := d_name\<rparr>, sc_j := Suc (sc_j s)\<rparr>)
      else if get_file_size d_name (sc_w s) < 0 then (True, s\<lparr>sc_w := sys_unlink d_name (sc_w s)\<rparr>)
      else
        let old = rtag_fname (sc_qf s);
            w = sys_unlink (if strcmp d_name old < 0 then d_name else old) (sc_w s)
        in (False, s\<lparr>sc_w := w, sc_qf := (sc_qf s)\<lparr>rtag_fname := (if strcmp d_name old > 0 then d_name else old)\<rparr>,
                     sc_j := Suc (sc_j s)\<rparr>))"

definition scan_wtag :: "string \<Rightarrow> scan_state \<Rightarrow> scan_state" where
  "scan_wtag d_name s =
     (if sc_k s = 1 then s\<lparr>sc_qf := (sc_qf s)\<lparr>wtag_fname := d_name\<rparr>, sc_k := Suc (sc_k s)\<rparr>
      else if get_file_size d_name (sc_w s) < 0 then s\<lparr>sc_w := sys_unlink d_name (sc_w s)\<rparr>
      else
        let old = wtag_fname (sc_qf s);
            w = sys_unlink (if strcmp d_name old < 0 then d_name else old) (sc_w s)
        in s\<lparr>sc_w := w, sc_qf := (sc_qf s)\<lparr>wtag_fname := (if strcmp d_name old > 0 then d_name else old)\<rparr>,
              sc_k := Suc (sc_k s)\<rparr>)"

definition scan_entry :: "string \<times> node \<Rightarrow> scan_state \<Rightarrow> scan_state option" where
  "scan_entry ent s =
     (case ent of
        (_, DirN) \<Rightarrow> Some s
      | (d_name, RegN _) \<Rightarrow>
          let is_db = take 3 d_name = ''db_''; is_rtag = take 5 d_name = ''rtag_'';
              is_wtag = take 5 d_name = ''wtag_''
          in if take 1 d_name = ''.'' then Some s
             else if (is_db \<or> is_rtag \<or> is_wtag) \<and> length d_name > 64 then None
             else
               let s = (if is_db then scan_db d_name s else s);
                   (skip, s) = (if is_rtag then scan_rtag d_name s else (False, s))
               in Some (if skip then s else if is_wtag then scan_wtag d_name s else s))"

fun scan_entries :: "(string \<times> node) list \<Rightarrow> scan_state \<Rightarrow> scan_state option" where
  "scan_entries [] s = Some s"
| "scan_entries (e # es) s = (case scan_entry e s of None \<Rightarrow> None | Some s \<Rightarrow> scan_entries es s)"

definition find_handle_file ::
    "ucmq_conf \<Rightarrow> queue_file \<Rightarrow> string \<Rightarrow> world \<Rightarrow> (bool \<times> queue_file \<times> world) option" where
  "find_handle_file cf qf qname w =
     (case sys_opendir (GEN_QUEUE_PATH_BY_QNAME cf qname) w of
        (None, w) \<Rightarrow> Some (False, qf, w)
      | (Some ents, w) \<Rightarrow> do {
          s \<leftarrow> scan_entries ents \<lparr>sc_i = 1, sc_j = 1, sc_k = 1, sc_qf = qf, sc_w = w\<rparr>;
          let qf = sc_qf s;
          if sc_i s \<le> 1 \<or> sc_j s \<le> 1 \<or> sc_k s \<le> 1 then Some (False, qf, sc_w s)
          else do {
            rt \<leftarrow> get_id_by_fname (rtag_fname qf);
            wt \<leftarrow> get_id_by_fname (wtag_fname qf);
            rd \<leftarrow> get_id_by_fname (read_fname qf);
            wr \<leftarrow> get_id_by_fname (write_fname qf);
            Some (rt = rd \<and> wt = wr,
                  qf\<lparr>rtag_fid := rt, wtag_fid := wt, read_fid := rd, write_fid := wr\<rparr>, sc_w s)
          }
        })"

end
