(* ===== verification/Store_Manage.thy ===== *)
theory Store_Manage
  imports Store_File
begin

text \<open>
  \<^verbatim>\<open>src/src/mq_store_manage.c\<close>, and \<^verbatim>\<open>mq_sm_db_write_msg\<close> of \<^verbatim>\<open>mq_store_msg.c\<close>: writing and reading
  one message, opening, closing, creating and removing the files of a queue. \<open>None\<close> stands for
  what the program must never do: an access outside a live mapping, locking a mutex it
  holds, or a loop that does not end.
\<close>

section \<open>Writing\<close>

definition mq_sm_db_write_msg ::
    "ucmq_conf \<Rightarrow> mq_queue \<Rightarrow> msg_item \<Rightarrow> world \<Rightarrow> (bool \<times> mq_queue \<times> world) option" where
  "mq_sm_db_write_msg cf q item w = do {
     (ok, q, w) \<leftarrow>
       (if d_pos (cur_wdb q) + len item + of_nat MSG_HEAD_LEN > MAX_DB_FILE_SIZE cf
        then do {
          w \<leftarrow> (if d_map_mem (cur_wdb q) \<noteq> None
               then map_option snd (mq_sm_db_write_file_head q w) else Some w);
          q \<leftarrow> mutex_lock q;
          (ok, q, w) \<leftarrow> get_next_write_file cf q w;
          Some (ok, mutex_unlock q, w)
        }
        else Some (True, q, w));
     if \<not> ok then Some (False, q, w)
     else do {
       let p = unat (d_pos (cur_wdb q));
       w \<leftarrow> mem_store (d_map_mem (cur_wdb q)) p (msg_head_bytes item) w;
       body \<leftarrow> load_msg w (msg item) (unat (len item));
       w \<leftarrow> mem_store (d_map_mem (cur_wdb q)) (p + MSG_HEAD_LEN) body w;
       Some (True,
         q\<lparr>cur_wdb := (cur_wdb q)\<lparr>d_pos := d_pos (cur_wdb q) + (len item + of_nat MSG_HEAD_LEN),
                                  d_opt_count := d_opt_count (cur_wdb q) + 1\<rparr>,
           put_num := put_num q + 1\<rparr>, w)
     }
   }"

definition mq_sm_put_data ::
    "ucmq_conf \<Rightarrow> msg_item \<Rightarrow> mq_queue \<Rightarrow> world \<Rightarrow> (bool \<times> mq_queue \<times> world) option" where
  "mq_sm_put_data cf item q w = do {
     (ok, crc) \<leftarrow> mq_sm_db_build_msg_crc16 w (crc16 item) (msg item) (len item);
     if \<not> ok then Some (False, q, w)
     else mq_sm_db_write_msg cf q (item\<lparr>crc16 := crc\<rparr>) w
   }"

section \<open>Reading\<close>

text \<open>
  The bookkeeping after a message was accepted: the counters are kept below the queue limit by
  subtracting it from both.
\<close>

definition get_data_advance :: "msg_item \<Rightarrow> mq_queue \<Rightarrow> mq_queue" where
  "get_data_advance item q =
     (let q = q\<lparr>cur_rdb := (cur_rdb q)\<lparr>d_pos := d_pos (cur_rdb q) + (len item + of_nat MSG_HEAD_LEN),
                                       d_opt_count := d_opt_count (cur_rdb q) + 1\<rparr>,
                get_num := get_num q + 1\<rparr>
      in if get_num q \<ge> ucast (maxque q)
         then q\<lparr>get_num := get_num q - ucast (maxque q), put_num := put_num q - ucast (maxque q)\<rparr>
         else q)"

definition get_data_next_file :: "ucmq_conf \<Rightarrow> mq_queue \<Rightarrow> world \<Rightarrow> (bool \<times> mq_queue \<times> world) option" where
  "get_data_next_file cf q w = do {
     q \<leftarrow> mutex_lock q;
     let (ok, q, w) = get_next_read_file cf q w;
     Some (ok, mutex_unlock q, w)
   }"

partial_function (option) mq_sm_get_data ::
    "ucmq_conf \<Rightarrow> msg_item \<Rightarrow> mq_queue \<Rightarrow> world \<Rightarrow> (bool \<times> msg_item \<times> mq_queue \<times> world) option" where
  "mq_sm_get_data cf item q w =
     (if d_cur_index (cur_rdb q) = d_cur_index (cur_wdb q)
         \<and> d_pos (cur_rdb q) + of_nat MSG_HEAD_LEN \<ge> d_pos (cur_wdb q)
      then Some (False, item, upd_rdb (d_pos_update (\<lambda>_. d_pos (cur_wdb q))) q, w)
      else do {
        (ret, item) \<leftarrow> mq_sm_db_parse_msg cf w (d_map_mem (cur_rdb q)) (d_pos (cur_rdb q)) item;
        if ret = MSG_CHECK_RET_OK then Some (True, item, get_data_advance item q, w)
        else if ret = MSG_CHECK_RET_MAG_NUM_ERR
        then mq_sm_get_data cf item (upd_rdb (d_pos_update (\<lambda>p. p + 1)) q) w
        else if ret = MSG_CHECK_RET_PARSE_ERR \<or> ret = MSG_CHECK_RET_CRC_ERR
        then mq_sm_get_data cf item (upd_rdb (d_pos_update (\<lambda>p. p + 2)) q) w
        else do {
          (ok, q, w) \<leftarrow> get_data_next_file cf q w;
          if \<not> ok then Some (False, item, q, w)
          else mq_sm_get_data cf item q w
        }
      })"

section \<open>Opening, closing, creating, removing\<close>

definition mq_sm_close_db_file :: "ptr \<Rightarrow> int \<Rightarrow> world \<Rightarrow> bool \<times> world" where
  "mq_sm_close_db_file map_mem fd w =
     (True, sys_close fd (if map_mem \<noteq> None then sys_munmap map_mem w else w))"

definition mq_sm_open_db ::
    "ucmq_conf \<Rightarrow> mq_queue \<Rightarrow> queue_file \<Rightarrow> world \<Rightarrow> bool \<times> mq_queue \<times> world" where
  "mq_sm_open_db cf q qf w =
     (let q = upd_rdb (d_cur_index_update (\<lambda>_. read_fid qf)) q;
          q = upd_wdb (d_cur_index_update (\<lambda>_. write_fid qf)) q;
          write_db_fname = GEN_DATA_FULL_PATH_BY_FNAME cf (q_name q) (write_fname qf)
      in if d_flag (cur_wdb q) \<noteq> 0 then (False, q, w)
         else case mq_sm_open_db_file cf write_db_fname FOPEN_FLAG_OPEN w of
             (m, fd, w) \<Rightarrow>
               (let q = q\<lparr>cur_wdb := (cur_wdb q)\<lparr>d_map_mem := m, d_fd := fd\<rparr>\<rparr> in
                if m = None then (False, q, w)
                else if d_cur_index (cur_rdb q) = d_cur_index (cur_wdb q)
                then (True, q\<lparr>cur_rdb := (cur_rdb q)\<lparr>d_map_mem := m, d_fd := fd, d_flag := 1\<rparr>,
                             cur_wdb := (cur_wdb q)\<lparr>d_flag := 1\<rparr>\<rparr>, w)
                else if d_flag (cur_rdb q) \<noteq> 0
                then (False, q, snd (mq_sm_close_db_file m fd w))
                else case mq_sm_open_db_file cf
                       (GEN_DATA_FULL_PATH_BY_FNAME cf (q_name q) (read_fname qf)) FOPEN_FLAG_OPEN w of
                    (m', fd', w) \<Rightarrow>
                      (let q = q\<lparr>cur_rdb := (cur_rdb q)\<lparr>d_map_mem := m', d_fd := fd'\<rparr>\<rparr> in
                       if m' = None then (False, q, snd (mq_sm_close_db_file m fd w))
                       else (True, q\<lparr>cur_rdb := (cur_rdb q)\<lparr>d_flag := 1\<rparr>,
                                     cur_wdb := (cur_wdb q)\<lparr>d_flag := 1\<rparr>\<rparr>, w))))"

definition mq_sm_close_db :: "mq_queue \<Rightarrow> world \<Rightarrow> bool \<times> mq_queue \<times> world" where
  "mq_sm_close_db q w =
     (let q = upd_wdb (d_flag_update (\<lambda>_. 0)) (upd_rdb (d_flag_update (\<lambda>_. 0)) q);
          w = (if d_cur_index (cur_rdb q) \<noteq> d_cur_index (cur_wdb q)
               then snd (mq_sm_close_db_file (d_map_mem (cur_rdb q)) (d_fd (cur_rdb q)) w) else w)
      in (True, q, snd (mq_sm_close_db_file (d_map_mem (cur_wdb q)) (d_fd (cur_wdb q)) w)))"

definition mq_sm_creat_db :: "ucmq_conf \<Rightarrow> mq_queue \<Rightarrow> world \<Rightarrow> (bool \<times> mq_queue \<times> world) option" where
  "mq_sm_creat_db cf q w =
     (let queue_db_path = GEN_QUEUE_PATH_BY_QNAME cf (q_name q) in
      if storage_short cf w then Some (False, q, w)
      else do {
        let (r, w) = sys_access queue_db_path w;
        w \<leftarrow> (if r = 0 then delete_file (fs_depth w) queue_db_path w else Some w);
        let (r, w) = sys_mkdir queue_db_path w;
        if r \<noteq> 0 \<and> w_errno w \<noteq> EEXIST then Some (False, q, w)
        else
          let (fd, w) = sys_open (GEN_RTAG_FULL_PATH_BY_QNAME_INDEX cf (q_name q) 1) True False w;
              q = q\<lparr>rtag_fd := fd\<rparr>
          in if fd < 0 then Some (False, q, w)
          else
            let (fd, w) = sys_open (GEN_WTAG_FULL_PATH_BY_QNAME_INDEX cf (q_name q) 1) True False w;
                q = q\<lparr>wtag_fd := fd\<rparr>
            in if fd < 0 then Some (False, q, w)
            else
              let (m, fd, w) = mq_sm_open_db_file cf
                     (GEN_DATA_FULL_PATH_BY_QNAME_INDEX cf (q_name q) 1) FOPEN_FLAG_CREATE w;
                  q = q\<lparr>cur_wdb := (cur_wdb q)\<lparr>d_map_mem := m, d_fd := fd\<rparr>\<rparr>
              in if m = None then Some (False, q, sys_close (rtag_fd q) w)
              else
                let q = q\<lparr>maxque := def_max_queue cf\<rparr>;
                    (_, w) = mq_sm_rtag_write_item q w;
                    (_, w) = mq_sm_wtag_write_item q w;
                    q = q\<lparr>cur_wdb := (cur_wdb q)\<lparr>d_cur_index := 1, d_flag := 1\<rparr>\<rparr>;
                    q = q\<lparr>cur_rdb := (cur_rdb q)\<lparr>d_cur_index := d_cur_index (cur_wdb q),
                             d_flag := d_flag (cur_wdb q), d_map_mem := d_map_mem (cur_wdb q),
                             d_fd := d_fd (cur_wdb q)\<rparr>\<rparr>
                in Some (True, q, w)
      })"

definition mq_sm_remove_db :: "ucmq_conf \<Rightarrow> mq_queue \<Rightarrow> world \<Rightarrow> (bool \<times> world) option" where
  "mq_sm_remove_db cf q w =
     (let queue_db_path = GEN_QUEUE_PATH_BY_QNAME cf (q_name q);
          (r, w) = sys_access queue_db_path w
      in if r = 0 then map_option (Pair True) (delete_file (fs_depth w) queue_db_path w)
         else Some (False, w))"

definition mq_sm_get_msg_count :: "mq_queue \<Rightarrow> u64" where
  "mq_sm_get_msg_count q = put_num q - get_num q"

end
