(* ===== verification/Queue_Manage.thy ===== *)
theory Queue_Manage
  imports Store_Manage
begin

text \<open>
  \<^verbatim>\<open>src/src/mq_queue_manage.c\<close>: the table of queues, opening and closing the store, and the
  operations on one queue. The hash table of \<^verbatim>\<open>uthash.h\<close> is the list of its nodes in the order in
  which they were added (the order \<^verbatim>\<open>hh.next\<close> follows); a pointer to a node is its position.
  \<^verbatim>\<open>HASH_ADD_STR\<close> puts the newest node of a key first in its bucket, so a search finds the last
  node of the list with the key.
\<close>

datatype queue_put_ret = QUEUE_PUT_OK | QUEUE_FULL | QUEUE_WLOCK | QUEUE_PUT_ERROR
datatype queue_get_ret = QUEUE_GET_OK | QUEUE_GET_END | QUEUE_GET_ERROR

section \<open>The table\<close>

fun hash_find :: "string \<Rightarrow> mq_queue_list \<Rightarrow> nat option" where
  "hash_find k [] = None"
| "hash_find k (n # ns) =
     (case hash_find k ns of Some i \<Rightarrow> Some (Suc i) | None \<Rightarrow> if fst n = k then Some 0 else None)"

text \<open>
  Adding copies the key into 33 zero bytes: a longer key leaves no terminator (\<open>None\<close>). The
  result is the position of the new node, or none when \<^verbatim>\<open>malloc\<close> fails.
\<close>

definition sys_malloc :: "world \<Rightarrow> bool \<times> world" where
  "sys_malloc w =
     (case next_outcome w of (Fail e, w) \<Rightarrow> (False, w\<lparr>w_errno := e\<rparr>) | (_, w) \<Rightarrow> (True, w))"

definition hash_add_queue_kv ::
    "string \<Rightarrow> mq_queue \<Rightarrow> mq_queue_list \<Rightarrow> world \<Rightarrow> (nat option \<times> mq_queue_list \<times> world) option" where
  "hash_add_queue_kv qname queue l w =
     (let (ok, w) = sys_malloc w in
      if \<not> ok then Some (None, l, w)
      else if length qname > MAX_QUEUE_NAME_LEN then None
      else Some (Some (length l), l @ [(qname, queue)], w))"

text \<open>\<^verbatim>\<open>HASH_COUNT\<close> is an \<^verbatim>\<open>unsigned\<close>, which the function converts to the \<^verbatim>\<open>int\<close> it returns.\<close>

definition hash_get_queue_num :: "mq_queue_list \<Rightarrow> int" where
  "hash_get_queue_num l = to_int (int (length l))"

lemma queue_num_small: "length l < 2 ^ 31 \<Longrightarrow> hash_get_queue_num l = int (length l)"
  by (simp add: hash_get_queue_num_def to_int_id)

definition hash_find_queue_by_key :: "string \<Rightarrow> mq_queue_list \<Rightarrow> nat option" where
  "hash_find_queue_by_key qname l = hash_find qname l"

definition hash_del_queue :: "string \<Rightarrow> mq_queue_list \<Rightarrow> mq_queue_list" where
  "hash_del_queue qname l =
     (case hash_find qname l of None \<Rightarrow> l | Some i \<Rightarrow> take i l @ drop (Suc i) l)"

definition hash_clear_queue :: "mq_queue_list \<Rightarrow> bool \<times> mq_queue_list" where
  "hash_clear_queue l = (True, [])"

section \<open>Opening and closing the store\<close>

text \<open>One directory of the data path: the files of a queue are opened and the queue is added, or
  the entry is passed over.\<close>

definition open_queue ::
    "ucmq_conf \<Rightarrow> string \<Rightarrow> mq_queue_list \<Rightarrow> world \<Rightarrow> (mq_queue_list \<times> world) option" where
  "open_queue cf d_name l w =
     (let qname = take MAX_QUEUE_NAME_LEN d_name; q = zero_queue\<lparr>q_name := qname\<rparr> in do {
        (ok, qf, w) \<leftarrow> find_handle_file cf zero_queue_file qname w;
        if \<not> ok then Some (l, w)
        else
          let (ok, q, w) = mq_sm_rtag_open_file cf q qf w in
          if \<not> ok then Some (l, w)
          else
            let (ok, q, w) = mq_sm_wtag_open_file cf q qf w in
            if \<not> ok then Some (l, w)
            else
              let (ok, q, w) = mq_sm_rtag_read_item cf q w in
              if \<not> ok then Some (l, w)
              else
                let (ok, q, w) = mq_sm_wtag_read_item cf q w in
                if \<not> ok then Some (l, w)
                else
                  let (ok, q, w) = mq_sm_open_db cf q qf w in
                  if \<not> ok then Some (l, w)
                  else map_option snd (hash_add_queue_kv d_name q l w)
      })"

fun open_queues ::
    "ucmq_conf \<Rightarrow> (string \<times> node) list \<Rightarrow> mq_queue_list \<Rightarrow> world \<Rightarrow> (mq_queue_list \<times> world) option" where
  "open_queues cf [] l w = Some (l, w)"
| "open_queues cf ((d_name, k) # es) l w =
     (if k \<noteq> DirN \<or> take 1 d_name = ''.'' then open_queues cf es l w
      else case open_queue cf d_name l w of
          None \<Rightarrow> None
        | Some (l, w) \<Rightarrow> open_queues cf es l w)"

definition mq_qm_open_store ::
    "ucmq_conf \<Rightarrow> mq_queue_list \<Rightarrow> world \<Rightarrow> (bool \<times> mq_queue_list \<times> world) option" where
  "mq_qm_open_store cf l w =
     (let (ok, w) = touch_data_path (data_file_path cf) w in
      if \<not> ok then Some (False, l, w)
      else case sys_opendir (data_file_path cf) w of
          (None, w) \<Rightarrow> Some (False, l, w)
        | (Some ents, w) \<Rightarrow> map_option (Pair True) (open_queues cf ents l w))"

definition close_queue :: "mq_queue \<Rightarrow> world \<Rightarrow> world" where
  "close_queue q w =
     (let (_, w) = mq_sm_rtag_close_file q w;
          (_, w) = mq_sm_wtag_close_file q w;
          (_, _, w) = mq_sm_close_db q w
      in w)"

definition mq_qm_close_store :: "mq_queue_list \<Rightarrow> world \<Rightarrow> bool \<times> mq_queue_list \<times> world" where
  "mq_qm_close_store l w =
     (let w = fold (\<lambda>(_, q) w. close_queue q w) l w; (_, l) = hash_clear_queue l in (True, l, w))"

section \<open>Queues\<close>

definition mq_qm_find_queue :: "string \<Rightarrow> mq_queue_list \<Rightarrow> nat option" where
  "mq_qm_find_queue qname l = hash_find_queue_by_key qname l"

definition init_queue :: "ucmq_conf \<Rightarrow> mq_queue \<Rightarrow> mq_queue" where
  "init_queue cf q =
     q\<lparr>cur_rdb := (cur_rdb q)\<lparr>d_pos := of_nat DB_FILE_HEAD_LEN, d_opt_count := 0\<rparr>,
       cur_wdb := (cur_wdb q)\<lparr>d_pos := of_nat DB_FILE_HEAD_LEN, d_opt_count := 0\<rparr>,
       maxque := def_max_queue cf, put_num := 0, get_num := 0, q_mutex := False\<rparr>"

definition mq_qm_add_queue ::
    "ucmq_conf \<Rightarrow> string \<Rightarrow> mq_queue_list \<Rightarrow> world \<Rightarrow> (nat option \<times> mq_queue_list \<times> world) option" where
  "mq_qm_add_queue cf qname l w =
     (if max_qlist_itmes cf \<le> hash_get_queue_num l then Some (None, l, w)
      else do {
        (ok, q, w) \<leftarrow> mq_sm_creat_db cf (zero_queue\<lparr>q_name := take MAX_QUEUE_NAME_LEN qname\<rparr>) w;
        if \<not> ok then Some (None, l, w)
        else hash_add_queue_kv qname (init_queue cf q) l w
      })"

text \<open>The code does not test the result of the search: an unknown name is a null dereference.\<close>

definition mq_qm_del_queue ::
    "ucmq_conf \<Rightarrow> string \<Rightarrow> mq_queue_list \<Rightarrow> world \<Rightarrow> (bool \<times> mq_queue_list \<times> world) option" where
  "mq_qm_del_queue cf qname l w = do {
     i \<leftarrow> hash_find_queue_by_key qname l;
     let (_, q) = l ! i;
     let (_, w) = mq_sm_rtag_close_file q w;
     let (_, q, w) = mq_sm_close_db q w;
     let l = l[i := (fst (l ! i), q)];
     (ok, w) \<leftarrow> mq_sm_remove_db cf q w;
     Some (if ok then (True, hash_del_queue qname l, w) else (False, l, w))
   }"

definition sync_countdown :: "ucmq_conf \<Rightarrow> int \<Rightarrow> int" where
  "sync_countdown cf n =
     (if n > 0 then if n = 1 then if sync_interval cf \<le> 0 then 10 else sync_interval cf else n - 1
      else n)"

definition mq_qm_push_item ::
    "ucmq_conf \<Rightarrow> mq_queue \<Rightarrow> msg_item \<Rightarrow> world \<Rightarrow> (queue_put_ret \<times> mq_queue \<times> world) option" where
  "mq_qm_push_item cf q item w =
     (let item = item\<lparr>magic_num1 := MSG_HEAD_OF_FIRST_MAGIC_NUM, magic_num2 := MSG_HEAD_OF_SECOND_MAGIC_NUM\<rparr> in
      if maxque q \<noteq> 0 \<and> put_num q - get_num q + 1 > ucast (maxque q) then Some (QUEUE_FULL, q, w)
      else do {
        (ok, q, w) \<leftarrow> mq_sm_put_data cf item q w;
        if \<not> ok then Some (QUEUE_PUT_ERROR, q, w)
        else
          let (_, w) = mq_sm_wtag_write_item q w
          in Some (QUEUE_PUT_OK, q\<lparr>sync_intv := sync_countdown cf (sync_intv q)\<rparr>, w)
      })"

definition mq_qm_pop_item ::
    "ucmq_conf \<Rightarrow> mq_queue \<Rightarrow> msg_item \<Rightarrow> world \<Rightarrow> (queue_get_ret \<times> msg_item \<times> mq_queue \<times> world) option" where
  "mq_qm_pop_item cf q item w =
     (let item = item\<lparr>magic_num1 := MSG_HEAD_OF_FIRST_MAGIC_NUM, magic_num2 := MSG_HEAD_OF_SECOND_MAGIC_NUM\<rparr> in
      if put_num q - get_num q < 1 then Some (QUEUE_GET_END, item, q, w)
      else do {
        (ok, item, q, w) \<leftarrow> mq_sm_get_data cf item q w;
        if \<not> ok then Some (QUEUE_GET_END, item, q, w)
        else
          let (_, w) = mq_sm_rtag_write_item q w
          in Some (QUEUE_GET_OK, item, q, w)
      })"

definition mq_qm_set_maxqueue :: "mq_queue option \<Rightarrow> u32 \<Rightarrow> world \<Rightarrow> bool \<times> mq_queue option \<times> world" where
  "mq_qm_set_maxqueue mq dest_max_queue_size w =
     (case mq of
        None \<Rightarrow> (False, None, w)
      | Some q \<Rightarrow>
         (let q = q\<lparr>maxque := dest_max_queue_size\<rparr>;
              (_, w) = mq_sm_wtag_write_item q w
          in (True, Some q, w)))"

definition mq_qm_set_synctime :: "int \<Rightarrow> ucmq_conf \<Rightarrow> bool \<times> ucmq_conf" where
  "mq_qm_set_synctime interval cf =
     (if interval \<ge> 0 then (True, cf\<lparr>sync_time_interval := interval\<rparr>) else (False, cf))"

definition mq_qm_get_store_count :: "mq_queue_list \<Rightarrow> u64" where
  "mq_qm_get_store_count l = fold (\<lambda>(_, q) c. c + mq_sm_get_msg_count q) l 0"

end
