(* ===== verification/Log.thy ===== *)
theory Log
  imports File_IO
begin

text \<open>
  \<^verbatim>\<open>src/src/log.c\<close>: start-up of the log, the cached broken-down time, the daily log file and the
  writing of a line. The model is that of one thread: \<^verbatim>\<open>ATOMIC_CAS\<close> and \<^verbatim>\<open>ATOMIC_SWAP\<close> act at
  once and return the previous value. The wall clock, the process and thread numbers, the local
  date and the text that \<^verbatim>\<open>vsnprintf\<close> makes of the caller's format come from outside and are
  arguments.
\<close>

definition LOG_TRACE :: u16 where "LOG_TRACE = 0"
definition LOG_DEBUG :: u16 where "LOG_DEBUG = 10"
definition LOG_INFO :: u16 where "LOG_INFO = 100"
definition LOG_WARN :: u16 where "LOG_WARN = 1000"
definition LOG_ERROR :: u16 where "LOG_ERROR = 10000"
definition LOG_FATAL :: u16 where "LOG_FATAL = 65535"

datatype log_init_state = LOG_NEED_INIT | LOG_INIT_ING | LOG_HAS_INIT

record log_config =
  log_path :: string
  log_file :: string
  log_level :: u16
  time_zone :: u32

record time_info =
  ti_day :: u16
  ti_msec :: u16
  ti_hour :: byte
  ti_min :: byte
  ti_sec :: byte

record log_state =
  g_config :: log_config
  g_has_init :: log_init_state
  g_has_fork :: int
  g_pid :: int
  g_sec :: int
  g_time :: time_info
  last_day :: int
  log_fd :: int
  current_tid :: int
  t_tid :: int

definition log_init_config :: "int option \<Rightarrow> log_config" where
  "log_init_config tz_minuteswest =
     \<lparr>log_path = ''./'', log_file = ''log'', log_level = LOG_TRACE,
      time_zone = (case tz_minuteswest of Some m \<Rightarrow> word_of_int ((- m) sdiv 60) | None \<Rightarrow> 0)\<rparr>"

text \<open>
  Waiting for another thread to finish the start-up never ends when there is no other thread
  (\<open>None\<close>). \<open>cur\<close> is the process number.
\<close>

definition log_note_pid :: "int \<Rightarrow> log_state \<Rightarrow> log_state" where
  "log_note_pid cur s =
     (if g_pid s \<noteq> -1 \<and> g_pid s \<noteq> cur then s\<lparr>g_pid := cur, g_has_fork := 1\<rparr> else s)"

definition log_init :: "int \<Rightarrow> log_config \<Rightarrow> log_state \<Rightarrow> world \<Rightarrow> (int \<times> log_state \<times> world) option" where
  "log_init cur config s w =
     (case g_has_init s of
        LOG_NEED_INIT \<Rightarrow>
          (let s = s\<lparr>g_config := config\<rparr>; (r, w) = do_mkdir (log_path config) w in
           if r < 0 then Some (MQ_ENOENT, s\<lparr>g_has_init := LOG_NEED_INIT\<rparr>, w)
           else Some (0, log_note_pid cur (s\<lparr>g_has_init := LOG_HAS_INIT\<rparr>), w))
      | LOG_INIT_ING \<Rightarrow> None
      | LOG_HAS_INIT \<Rightarrow> Some (0, log_note_pid cur s, w))"

section \<open>The cached time\<close>

text \<open>
  \<open>now_sec\<close> and \<open>now_nsec\<close> are what \<^verbatim>\<open>clock_gettime(CLOCK_REALTIME)\<close> returns. The sum with the
  unsigned \<^verbatim>\<open>time_zone\<close> is computed at 32 bits and read as an \<^verbatim>\<open>int\<close>.
\<close>

definition get_time :: "int \<Rightarrow> int \<Rightarrow> log_state \<Rightarrow> time_info \<times> log_state" where
  "get_time now_sec now_nsec s =
     (let ti = (g_time s)\<lparr>ti_msec := word_of_int (now_nsec div (1000 * 1000))\<rparr> in
      if g_sec s \<noteq> now_sec
      then
        let t = now_sec mod (24 * 60 * 60);
            hour = sint (word_of_int (t div (60 * 60)) + time_zone (g_config s));
            (hour, day) = (if hour \<ge> 24 then (hour - 24, 1) else (hour, 0 :: int));
            (hour, day) = (if hour < 0 then (hour + 24, -1) else (hour, day));
            ti = (if hour \<noteq> uint (ti_hour (g_time s))
                  then ti\<lparr>ti_hour := word_of_int hour,
                          ti_day := word_of_int (day + now_sec div (24 * 60 * 60))\<rparr>
                  else ti);
            t = t mod (60 * 60);
            ti = ti\<lparr>ti_min := word_of_int (t div 60), ti_sec := word_of_int (t mod 60)\<rparr>
        in (ti, s\<lparr>g_time := ti, g_sec := now_sec\<rparr>)
      else (ti, s))"

section \<open>Text\<close>

text \<open>Decimal numbers as \<^verbatim>\<open>%d\<close> prints them, padded on the left.\<close>

definition show_dec :: "int \<Rightarrow> byte list" where
  "show_dec n = (if n < 0 then [45] else []) @ map digit_byte (digits (nat \<bar>n\<bar>))"

definition pad_left :: "byte \<Rightarrow> nat \<Rightarrow> byte list \<Rightarrow> byte list" where
  "pad_left c k bs = replicate (k - length bs) c @ bs"

definition bytes_of :: "string \<Rightarrow> byte list" where
  "bytes_of = map of_char"

definition level_str :: "u16 \<Rightarrow> byte list" where
  "level_str level =
     (if level = LOG_TRACE then bytes_of ''TRACE''
      else if level = LOG_DEBUG then bytes_of ''DEBUG''
      else if level = LOG_INFO then bytes_of ''INFO ''
      else if level = LOG_WARN then bytes_of ''WARN ''
      else if level = LOG_ERROR then bytes_of ''ERROR''
      else if level = LOG_FATAL then bytes_of ''FATAL''
      else pad_left 48 5 (show_dec (uint level)))"

definition log_head :: "u16 \<Rightarrow> int \<Rightarrow> time_info \<Rightarrow> string \<Rightarrow> int \<Rightarrow> byte list" where
  "log_head level ident ti file_name lineno =
     bytes_of ''[ '' @ level_str level @ bytes_of '' '' @ pad_left 32 5 (show_dec ident) @ bytes_of '' ''
     @ pad_left 48 2 (show_dec (uint (ti_hour ti))) @ bytes_of '':''
     @ pad_left 48 2 (show_dec (uint (ti_min ti))) @ bytes_of '':''
     @ pad_left 48 2 (show_dec (uint (ti_sec ti))) @ bytes_of ''.''
     @ pad_left 48 3 (show_dec (uint (ti_msec ti))) @ bytes_of '' ''
     @ bytes_of file_name @ bytes_of '':'' @ show_dec lineno @ bytes_of '' ] ''"

section \<open>Writing a line\<close>

definition write_2_file :: "int \<Rightarrow> byte list \<Rightarrow> world \<Rightarrow> world" where
  "write_2_file fd buf w = snd (write_retry fd buf w)"

text \<open>\<open>(y, m, d)\<close> is the local date; \<^verbatim>\<open>O_WRONLY|O_CREAT|O_APPEND\<close> does not ask for non-blocking mode.\<close>

definition open_log :: "int \<times> int \<times> int \<Rightarrow> log_state \<Rightarrow> world \<Rightarrow> int \<times> log_state \<times> world" where
  "open_log date s w =
     (case date of (y, m, d) \<Rightarrow>
       let name = take 4094 (log_path (g_config s) @ ''/'' @ log_file (g_config s) @ ''_''
             @ map (char_of \<circ> unat) (pad_left 48 4 (show_dec y) @ pad_left 48 2 (show_dec m) @ pad_left 48 2 (show_dec d))
             @ ''.log'');
           (new_fd, w) = sys_open name True True (w\<lparr>w_errno := 0\<rparr>);
           w = w\<lparr>w_fds := (w_fds w)(new_fd := map_option (o_nonblock_update (\<lambda>_. False)) (w_fds w new_fd))\<rparr>
       in if new_fd < 0 then (-1, s, w)
          else
            let old_fd = log_fd s; s = s\<lparr>log_fd := new_fd\<rparr>
            in (0, s, if old_fd \<noteq> -1 then sys_close old_fd w else w))"

text \<open>
  The line is the head and the text; a line that does not fit the buffer of 4096 bytes with
  its newline is dropped. \<open>None\<close>: the head alone overflows the buffer.
\<close>

definition log_line :: "byte list \<Rightarrow> byte list \<Rightarrow> byte list option" where
  "log_line head txt =
     (let buf = head @ txt in
      if 0 < length buf \<and> length buf < 4096 - 2
      then Some (if last buf \<noteq> 10 then buf @ [10] else buf)
      else None)"

record log_env =
  e_sec :: int
  e_nsec :: int
  e_date :: "int \<times> int \<times> int"
  e_tid :: int

definition log_write_impl ::
    "log_env \<Rightarrow> string \<Rightarrow> int \<Rightarrow> u16 \<Rightarrow> byte list \<Rightarrow> log_state \<Rightarrow> world \<Rightarrow> (log_state \<times> world) option" where
  "log_write_impl env file_name lineno level txt s w =
     (if level < log_level (g_config s) then Some (s, w)
      else
        let (ti, s) = get_time (e_sec env) (e_nsec env) s;
            s = (if t_tid s = -1 then s\<lparr>t_tid := e_tid env\<rparr> else s);
            ident = (if g_has_fork s = 1 then g_pid s else t_tid s)
        in if g_has_init s = LOG_HAS_INIT \<and> uint (ti_day ti) \<noteq> last_day s \<and> current_tid s \<noteq> 0
           then Some (s, w)
           else
             let (s, w) =
               (if g_has_init s = LOG_HAS_INIT \<and> uint (ti_day ti) \<noteq> last_day s
                then case open_log (e_date env) s w of
                    (r, s, w) \<Rightarrow> (if r = 0 then s\<lparr>last_day := uint (ti_day ti)\<rparr> else s, w)
                else (s, w));
               head = log_head level ident ti file_name lineno
             in if length head \<ge> 4096 then None
                else case log_line head txt of
                    None \<Rightarrow> Some (s, w)
                  | Some line \<Rightarrow>
                      Some (s, write_2_file (if g_has_init s = LOG_HAS_INIT then log_fd s else 2) line w))"

end
