(* ===== verification/Mq_Api.thy ===== *)
theory Mq_Api
  imports Queue_Manage Log
begin

text \<open>
  \<^verbatim>\<open>src/src/mq_api.c\<close>: the four calls of the library. The state is what the C program keeps in
  globals (the configuration, the table of queues, the counters, the log) and the world. A call
  that leaves defined behaviour is \<open>None\<close>. \<^verbatim>\<open>mq_store_get\<close> may also be stopped by its assertion on the length:
  \<open>mq_store_get_call\<close> keeps the state in which the program is stopped, \<open>mq_store_get\<close> is the call as its caller sees it.
\<close>

record app_info =
  i_put :: u32
  i_get :: u32
  i_times :: u32
  i_total_time :: u32
  i_max_time :: u32
  i_count :: u64
  i_put_size :: u64

record mq_state =
  st_conf :: ucmq_conf
  st_qlist :: mq_queue_list
  st_info :: app_info
  st_log :: log_state
  st_world :: world

definition zero_info :: app_info where
  "zero_info = \<lparr>i_put = 0, i_get = 0, i_times = 0, i_total_time = 0, i_max_time = 0, i_count = 0,
     i_put_size = 0\<rparr>"

section \<open>Names of queues\<close>

definition name_char :: "char \<Rightarrow> bool" where
  "name_char c \<longleftrightarrow>
     (let n = of_char c :: nat in (48 \<le> n \<and> n \<le> 57) \<or> (97 \<le> n \<and> n \<le> 122) \<or> (65 \<le> n \<and> n \<le> 90))"

text \<open>The loop: \<open>i\<close> is the index of the first character of the rest.\<close>

fun qname_check_loop :: "nat \<Rightarrow> string \<Rightarrow> bool" where
  "qname_check_loop i [] = True"
| "qname_check_loop i (c # cs) =
     (if \<not> name_char c \<and> (c \<noteq> CHR ''_'' \<or> (c = CHR ''_'' \<and> i = 0) \<or> (cs = [] \<and> c = CHR ''_''))
      then False else qname_check_loop (Suc i) cs)"

definition qname_check :: "string option \<Rightarrow> int" where
  "qname_check qname =
     (case qname of
        None \<Rightarrow> 0
      | Some s \<Rightarrow>
          if length s = 0 \<or> length s > MAX_QUEUE_NAME_LEN then 0
          else if qname_check_loop 0 s then 1 else 0)"

section \<open>The calls\<close>

text \<open>
  The paths are copied into arrays of 128 bytes (\<open>None\<close> when one does not fit). \<open>pid\<close> and \<open>tz\<close>
  are the process number and the zone that \<^verbatim>\<open>gettimeofday\<close> reports.
\<close>

definition mq_store_init ::
    "int \<Rightarrow> int option \<Rightarrow> string \<Rightarrow> string \<Rightarrow> mq_state \<Rightarrow> (bool \<times> mq_state) option" where
  "mq_store_init pid tz lpath dpath s =
     (if length dpath \<ge> 128 \<or> length lpath \<ge> 128 then None
      else do {
        let cf = (st_conf s)\<lparr>data_file_path := dpath, output_log_path := lpath\<rparr>;
        let s = s\<lparr>st_info := zero_info, st_conf := cf\<rparr>;
        (r, lg, w) \<leftarrow> log_init pid ((log_init_config tz)\<lparr>log_path := lpath, log_level := LOG_INFO\<rparr>)
                       (st_log s) (st_world s);
        let s = s\<lparr>st_log := lg, st_world := w\<rparr>;
        if r \<noteq> 0 then Some (False, s)
        else do {
          (ok, l, w) \<leftarrow> mq_qm_open_store cf (st_qlist s) w;
          let s = s\<lparr>st_qlist := l, st_world := w\<rparr>;
          if \<not> ok then Some (False, s)
          else Some (True, s\<lparr>st_info := (st_info s)\<lparr>i_count := mq_qm_get_store_count l\<rparr>\<rparr>)
        }
      })"

definition mq_store_close :: "mq_state \<Rightarrow> mq_state" where
  "mq_store_close s =
     (let (_, l, w) = mq_qm_close_store (st_qlist s) (st_world s)
      in s\<lparr>st_qlist := l, st_world := w\<rparr>)"

text \<open>
  \<open>m\<close> is the caller's buffer, which must hold \<open>msg_len\<close> bytes, and \<open>d\<close> the uninitialised
  value of \<^verbatim>\<open>msg_item.delay\<close>: the code never sets it and stores it with the message. The other
  uninitialised fields of the item are overwritten before they are read.
\<close>

definition mq_store_put ::
    "u32 \<Rightarrow> string option \<Rightarrow> byte list \<Rightarrow> int \<Rightarrow> mq_state \<Rightarrow> (bool \<times> mq_state) option" where
  "mq_store_put d qname m msg_len s =
     (case qname of
        None \<Rightarrow> Some (False, s)
      | Some name \<Rightarrow>
          if qname_check qname \<noteq> 1 then Some (False, s)
          else if msg_len \<le> 0 then Some (False, s)
          else
            let item = \<lparr>magic_num1 = 0, magic_num2 = 0, delay = d, crc16 = 0, len = word_of_int msg_len,
                        msg = Caller m\<rparr>;
                cf = st_conf s
            in if len item > MAX_DB_FILE_SIZE cf - of_nat DB_FILE_HEAD_LEN - of_nat MSG_HEAD_LEN
               then Some (False, s)
               else do {
                 (node, l, w) \<leftarrow>
                   (case mq_qm_find_queue name (st_qlist s) of
                      Some i \<Rightarrow> Some (Some i, st_qlist s, st_world s)
                    | None \<Rightarrow> mq_qm_add_queue cf name (st_qlist s) (st_world s));
                 let s = s\<lparr>st_qlist := l, st_world := w\<rparr>;
                 case node of
                   None \<Rightarrow> Some (False, s)
                 | Some i \<Rightarrow> do {
                     (r, q, w) \<leftarrow> mq_qm_push_item cf (snd (l ! i)) item w;
                     let s = s\<lparr>st_qlist := l[i := (fst (l ! i), q)], st_world := w\<rparr>;
                     case r of
                       QUEUE_PUT_OK \<Rightarrow>
                         Some (True, s\<lparr>st_info := (st_info s)\<lparr>i_put_size := i_put_size (st_info s) + word_of_int msg_len,
                            i_put := i_put (st_info s) + 1, i_count := i_count (st_info s) + 1\<rparr>\<rparr>)
                     | _ \<Rightarrow> Some (False, s)
                   }
               })"

text \<open>
  The bytes that the call stores into the caller's buffer are part of the result; \<open>junk\<close> is the
  uninitialised item. \<open>Aborts s\<close> is the failure of \<^verbatim>\<open>assert(msg_len == msg_item.len)\<close> in the state \<open>s\<close>.
\<close>

datatype get_call = Returns bool "byte list" mq_state | Aborts mq_state

definition mq_store_get_call ::
    "msg_item \<Rightarrow> string option \<Rightarrow> int \<Rightarrow> mq_state \<Rightarrow> get_call option" where
  "mq_store_get_call junk qname msg_len s =
     (case qname of
        None \<Rightarrow> Some (Returns False [] s)
      | Some name \<Rightarrow>
          if qname_check qname \<noteq> 1 then Some (Returns False [] s)
          else case mq_qm_find_queue name (st_qlist s) of
              None \<Rightarrow> Some (Returns False [] s)
            | Some i \<Rightarrow> do {
                let l = st_qlist s;
                (r, item, q, w) \<leftarrow> mq_qm_pop_item (st_conf s) (snd (l ! i)) junk (st_world s);
                let s = s\<lparr>st_qlist := l[i := (fst (l ! i), q)], st_world := w\<rparr>;
                case r of
                  QUEUE_GET_OK \<Rightarrow>
                    (let s = s\<lparr>st_info := (st_info s)\<lparr>i_get := i_get (st_info s) + 1,
                                i_count := i_count (st_info s) - 1\<rparr>\<rparr>
                     in if word_of_int msg_len \<noteq> len item then Some (Aborts s)
                        else map_option (\<lambda>bs. Returns True bs s) (load_msg w (msg item) (unat (len item))))
                | _ \<Rightarrow> Some (Returns False [] s)
              })"

definition mq_store_get ::
    "msg_item \<Rightarrow> string option \<Rightarrow> int \<Rightarrow> mq_state \<Rightarrow> (bool \<times> byte list \<times> mq_state) option" where
  "mq_store_get junk qname msg_len s =
     (case mq_store_get_call junk qname msg_len s of
        Some (Returns ok bs s) \<Rightarrow> Some (ok, bs, s)
      | Some (Aborts s) \<Rightarrow> None
      | None \<Rightarrow> None)"

lemmas mq_store_get_defs = mq_store_get_def mq_store_get_call_def

end
