(* ===== verification/Posix_Effects.thy ===== *)
theory Posix_Effects
  imports Store_Tag
begin

text \<open>
  What the system calls do when nothing fails, seen through the observations the queue depends
  on: which name is which inode, the inodes, the descriptors, the mappings and the next free
  numbers. Each effect is a function on worlds with one rewrite rule per observation, so that a
  sequence of calls is evaluated by rewriting.
\<close>

section \<open>Worlds without dangling numbers\<close>

definition wf_world :: "world \<Rightarrow> bool" where
  "wf_world w \<longleftrightarrow>
     (\<forall>p i. lookup_path w p = Some (RegN i) \<longrightarrow> i < w_next_ino w)
     \<and> (\<forall>p p' i. lookup_path w p = Some (RegN i) \<longrightarrow> lookup_path w p' = Some (RegN i) \<longrightarrow> p = p')
     \<and> (\<forall>fd d. w_fds w fd = Some d \<longrightarrow> 0 \<le> fd \<and> fd < int (w_next_fd w) \<and> o_ino d < w_next_ino w)
     \<and> (\<forall>m mp. w_maps w m = Some mp \<longrightarrow> m < w_next_map w \<and> m_ino mp < w_next_ino w)"

lemma wf_world_lookup: "wf_world w \<Longrightarrow> lookup_path w p = Some (RegN i) \<Longrightarrow> i < w_next_ino w"
  by (auto simp: wf_world_def)

lemma wf_world_inj:
  "wf_world w \<Longrightarrow> lookup_path w p = Some (RegN i) \<Longrightarrow> lookup_path w p' = Some (RegN i) \<Longrightarrow> p = p'"
  by (auto simp: wf_world_def)

lemma wf_world_fd:
  "wf_world w \<Longrightarrow> w_fds w fd = Some d \<Longrightarrow> 0 \<le> fd \<and> fd < int (w_next_fd w) \<and> o_ino d < w_next_ino w"
  by (auto simp: wf_world_def)

lemma wf_world_map:
  "wf_world w \<Longrightarrow> w_maps w m = Some mp \<Longrightarrow> m < w_next_map w \<and> m_ino mp < w_next_ino w"
  by (auto simp: wf_world_def)

section \<open>Opening\<close>

definition open_old :: "nat \<Rightarrow> bool \<Rightarrow> world \<Rightarrow> world" where
  "open_old i app w =
     snd (alloc_fd \<lparr>o_ino = i, o_off = 0, o_append = app, o_nonblock = True\<rparr> w)"

definition open_new :: "path \<Rightarrow> bool \<Rightarrow> world \<Rightarrow> world" where
  "open_new p app w = open_old (w_next_ino w) app (snd (new_inode p w))"

lemma sys_open_old:
  "w_faults w = [] \<Longrightarrow> lookup_path w p = Some (RegN i) \<Longrightarrow>
   sys_open p creat app w = (int (w_next_fd w), open_old i app w)"
  by (simp add: sys_open_def open_old_def alloc_fd_def)

lemma sys_open_new:
  "w_faults w = [] \<Longrightarrow> lookup_path w p = None \<Longrightarrow> parent_ok w p \<Longrightarrow>
   sys_open p True app w = (int (w_next_fd w), open_new p app w)"
  by (simp add: sys_open_def open_new_def open_old_def alloc_fd_def new_inode_def)

lemma open_old_simps [simp]:
  "lookup_path (open_old i app w) q = lookup_path w q"
  "w_files (open_old i app w) = w_files w" "w_next_ino (open_old i app w) = w_next_ino w"
  "w_fds (open_old i app w) =
     (w_fds w)(int (w_next_fd w) \<mapsto> \<lparr>o_ino = i, o_off = 0, o_append = app, o_nonblock = True\<rparr>)"
  "w_next_fd (open_old i app w) = Suc (w_next_fd w)" "w_maps (open_old i app w) = w_maps w"
  "w_next_map (open_old i app w) = w_next_map w" "w_faults (open_old i app w) = w_faults w"
  "w_bavail (open_old i app w) = w_bavail w" "w_bsize (open_old i app w) = w_bsize w"
  by (simp_all add: open_old_def alloc_fd_def lookup_path_def)

lemma lookup_new_inode [simp]:
  "lookup_path w p = None \<Longrightarrow>
   lookup_path (snd (new_inode p w)) q = (if q = p then Some (RegN (w_next_ino w)) else lookup_path w q)"
  by (auto simp: new_inode_def lookup_path_def map_add_def split: option.splits)

lemma open_new_simps [simp]:
  "lookup_path w p = None \<Longrightarrow>
     lookup_path (open_new p app w) q = (if q = p then Some (RegN (w_next_ino w)) else lookup_path w q)"
  "w_files (open_new p app w) = (w_files w)(w_next_ino w := empty_file)"
  "w_next_ino (open_new p app w) = Suc (w_next_ino w)"
  "w_fds (open_new p app w) =
     (w_fds w)(int (w_next_fd w) \<mapsto> \<lparr>o_ino = w_next_ino w, o_off = 0, o_append = app, o_nonblock = True\<rparr>)"
  "w_next_fd (open_new p app w) = Suc (w_next_fd w)" "w_maps (open_new p app w) = w_maps w"
  "w_next_map (open_new p app w) = w_next_map w" "w_faults (open_new p app w) = w_faults w"
  "w_bavail (open_new p app w) = w_bavail w" "w_bsize (open_new p app w) = w_bsize w"
  by (simp_all add: open_new_def) (simp_all add: new_inode_def)

lemma wf_open_old: "wf_world w \<Longrightarrow> i < w_next_ino w \<Longrightarrow> wf_world (open_old i app w)"
  unfolding wf_world_def by (auto split: if_splits) (force simp: less_Suc_eq)+

lemma wf_open_new: "wf_world w \<Longrightarrow> lookup_path w p = None \<Longrightarrow> wf_world (open_new p app w)"
  unfolding wf_world_def by (auto split: if_splits) (force simp: less_Suc_eq)+

section \<open>Closing, unlinking, mapping, storing\<close>

lemma lookup_fd_put [simp]: "lookup_path (fd_put fd d bs w) q = lookup_path w q"
  by (simp add: lookup_path_def)

lemma lookup_tick [simp]: "lookup_path (tick w) q = lookup_path w q"
  by (simp add: lookup_path_def)

lemma sys_close_simps [simp]:
  "lookup_path (sys_close fd w) q = lookup_path w q"
  "w_files (sys_close fd w) = w_files w" "w_next_ino (sys_close fd w) = w_next_ino w"
  "w_fds (sys_close fd w) = (w_fds w)(fd := None)" "w_next_fd (sys_close fd w) = w_next_fd w"
  "w_maps (sys_close fd w) = w_maps w" "w_next_map (sys_close fd w) = w_next_map w"
  "w_faults (sys_close fd w) = w_faults w" "w_bavail (sys_close fd w) = w_bavail w"
  "w_bsize (sys_close fd w) = w_bsize w"
  by (simp_all add: sys_close_def lookup_path_def)

lemma map_of_filter_neq:
  "map_of (filter (\<lambda>(q, _). q \<noteq> p) l) q = (if q = p then None else map_of l q)"
  by (induction l) auto

lemma lookup_unlink [simp]:
  "w_faults w = [] \<Longrightarrow> lookup_path w p = Some (RegN i) \<Longrightarrow>
   lookup_path (sys_unlink p w) q = (if q = p then None else lookup_path w q)"
  by (auto simp: sys_unlink_def lookup_path_def map_of_filter_neq)

lemma sys_unlink_simps [simp]:
  "w_files (sys_unlink p w) = w_files w" "w_next_ino (sys_unlink p w) = w_next_ino w"
  "w_fds (sys_unlink p w) = w_fds w" "w_next_fd (sys_unlink p w) = w_next_fd w"
  "w_maps (sys_unlink p w) = w_maps w" "w_next_map (sys_unlink p w) = w_next_map w"
  "w_bavail (sys_unlink p w) = w_bavail w" "w_bsize (sys_unlink p w) = w_bsize w"
  "w_faults w = [] \<Longrightarrow> w_faults (sys_unlink p w) = []"
  by (auto simp: sys_unlink_def next_outcome_def
      split: list.splits outcome.splits option.splits node.splits)

lemma sys_munmap_simps [simp]:
  "lookup_path (sys_munmap p w) q = lookup_path w q"
  "w_files (sys_munmap p w) = w_files w" "w_next_ino (sys_munmap p w) = w_next_ino w"
  "w_fds (sys_munmap p w) = w_fds w" "w_next_fd (sys_munmap p w) = w_next_fd w"
  "w_maps (sys_munmap (Some m) w) = (w_maps w)(m := None)" "w_next_map (sys_munmap p w) = w_next_map w"
  "w_faults (sys_munmap p w) = w_faults w" "w_bavail (sys_munmap p w) = w_bavail w"
  "w_bsize (sys_munmap p w) = w_bsize w"
  by (simp_all add: sys_munmap_def lookup_path_def split: option.splits)

definition map_new :: "nat \<Rightarrow> nat \<Rightarrow> world \<Rightarrow> world" where
  "map_new n i w = w\<lparr>w_maps := (w_maps w)(w_next_map w \<mapsto> \<lparr>m_ino = i, m_len = n\<rparr>),
     w_next_map := Suc (w_next_map w)\<rparr>"

lemma sys_mmap_ok:
  "w_faults w = [] \<Longrightarrow> w_fds w fd = Some d \<Longrightarrow>
   sys_mmap n fd w = (Some (w_next_map w), map_new n (o_ino d) w)"
  by (simp add: sys_mmap_def map_new_def)

lemma map_new_simps [simp]:
  "lookup_path (map_new n i w) q = lookup_path w q"
  "w_files (map_new n i w) = w_files w" "w_next_ino (map_new n i w) = w_next_ino w"
  "w_fds (map_new n i w) = w_fds w" "w_next_fd (map_new n i w) = w_next_fd w"
  "w_maps (map_new n i w) = (w_maps w)(w_next_map w \<mapsto> \<lparr>m_ino = i, m_len = n\<rparr>)"
  "w_next_map (map_new n i w) = Suc (w_next_map w)" "w_faults (map_new n i w) = w_faults w"
  "w_bavail (map_new n i w) = w_bavail w" "w_bsize (map_new n i w) = w_bsize w"
  by (simp_all add: map_new_def lookup_path_def)

text \<open>A store into the file behind a mapping.\<close>

definition poke :: "nat \<Rightarrow> nat \<Rightarrow> byte list \<Rightarrow> world \<Rightarrow> world" where
  "poke i off bs w =
     w\<lparr>w_files := (w_files w)(i := (w_files w i)\<lparr>f_data := put_bytes (f_data (w_files w i)) off bs\<rparr>)\<rparr>"

lemma mem_store_poke:
  "map_file w m = Some (i, lim) \<Longrightarrow> off + length bs \<le> lim \<Longrightarrow> mem_store m off bs w = Some (poke i off bs w)"
  by (simp add: mem_store_def poke_def)

lemma poke_simps [simp]:
  "lookup_path (poke i off bs w) q = lookup_path w q"
  "w_files (poke i off bs w) =
     (w_files w)(i := (w_files w i)\<lparr>f_data := put_bytes (f_data (w_files w i)) off bs\<rparr>)"
  "w_next_ino (poke i off bs w) = w_next_ino w"
  "w_fds (poke i off bs w) = w_fds w" "w_next_fd (poke i off bs w) = w_next_fd w"
  "w_maps (poke i off bs w) = w_maps w" "w_next_map (poke i off bs w) = w_next_map w"
  "w_faults (poke i off bs w) = w_faults w" "w_bavail (poke i off bs w) = w_bavail w"
  "w_bsize (poke i off bs w) = w_bsize w"
  by (simp_all add: poke_def lookup_path_def)

lemma map_file_poke [simp]: "map_file (poke i off bs w) m = map_file w m"
  by (auto simp: map_file_def split: option.splits)

section \<open>Well-formedness is kept\<close>

lemma wf_view:
  assumes "wf_world w" and "\<And>p i. lookup_path w' p = Some (RegN i) \<Longrightarrow> lookup_path w p = Some (RegN i)"
    and "w_next_ino w' = w_next_ino w" and "w_next_fd w' = w_next_fd w" and "w_next_map w' = w_next_map w"
    and "\<And>fd d. w_fds w' fd = Some d \<Longrightarrow> \<exists>d'. w_fds w fd = Some d' \<and> o_ino d' = o_ino d"
    and "\<And>m mp. w_maps w' m = Some mp \<Longrightarrow> w_maps w m = Some mp"
  shows "wf_world w'"
  unfolding wf_world_def
proof (intro conjI allI impI)
  show "i < w_next_ino w'" if "lookup_path w' p = Some (RegN i)" for p i
    using wf_world_lookup [OF assms(1) assms(2) [OF that]] assms(3) by simp
  show "p = p'" if "lookup_path w' p = Some (RegN i)" "lookup_path w' p' = Some (RegN i)" for p p' i
    using wf_world_inj [OF assms(1) assms(2) [OF that(1)] assms(2) [OF that(2)]] .
next
  fix fd d
  assume "w_fds w' fd = Some d"
  from assms(6) [OF this] obtain d' where d: "w_fds w fd = Some d'" "o_ino d' = o_ino d" by blast
  then show "0 \<le> fd" "fd < int (w_next_fd w')" "o_ino d < w_next_ino w'"
    using wf_world_fd [OF assms(1) d(1)] assms(3,4) by auto
next
  fix m mp
  assume "w_maps w' m = Some mp"
  then show "m < w_next_map w'" "m_ino mp < w_next_ino w'"
    using wf_world_map [OF assms(1) assms(7)] assms(3,5) by auto
qed

lemma wf_close: "wf_world w \<Longrightarrow> wf_world (sys_close fd w)"
  by (erule wf_view) (auto split: if_splits)

lemma wf_tick: "wf_world w \<Longrightarrow> wf_world (tick w)"
  by (erule wf_view) (auto split: if_splits)

lemma wf_munmap: "wf_world w \<Longrightarrow> wf_world (sys_munmap p w)"
  by (erule wf_view) (auto simp: sys_munmap_def lookup_path_def split: if_splits option.splits)

lemma wf_poke: "wf_world w \<Longrightarrow> wf_world (poke i off bs w)"
  by (erule wf_view) auto

lemma wf_unlink: "wf_world w \<Longrightarrow> wf_world (sys_unlink p w)"
proof (erule wf_view)
  fix q i
  assume "lookup_path (sys_unlink p w) q = Some (RegN i)"
  then show "lookup_path w q = Some (RegN i)"
    by (auto simp: sys_unlink_def next_outcome_def lookup_path_def map_of_filter_neq
        split: list.splits outcome.splits option.splits node.splits if_splits)
qed auto

lemma wf_fd_put: "wf_world w \<Longrightarrow> w_fds w fd = Some d \<Longrightarrow> wf_world (fd_put fd d bs w)"
  by (erule wf_view) (auto simp: fd_put_def Let_def lookup_path_def split: if_splits)

lemma wf_map_new: "wf_world w \<Longrightarrow> i < w_next_ino w \<Longrightarrow> wf_world (map_new n i w)"
  unfolding wf_world_def by (auto split: if_splits) (force simp: less_Suc_eq)+

lemmas wf_effects = wf_close wf_tick wf_munmap wf_poke wf_unlink wf_fd_put wf_map_new wf_open_new wf_open_old

end
