(* ===== verification/Store_Effects.thy ===== *)
theory Store_Effects
  imports Posix_Effects Store_Manage
begin

text \<open>
  What the operations on one data or tag file do when nothing fails, in the observations of
  \<open>Posix_Effects\<close>.
\<close>

section \<open>A new data file\<close>

text \<open>
  The content of a data file after it was created: zeros, and in the last byte the character
  \<^verbatim>\<open>'0'\<close> that \<^verbatim>\<open>extend_file_size\<close> writes (the code passes the string \<^verbatim>\<open>"0x00"\<close> and the length 1).
\<close>

definition fresh_db :: "ucmq_conf \<Rightarrow> inode" where
  "fresh_db cf = \<lparr>f_size = max_db cf, f_data = (\<lambda>_. 0)(max_db cf - 1 := 0x30)\<rparr>"

lemma to_int_max_db: "conf_ok cf \<Longrightarrow> to_int (int (max_db cf)) = int (max_db cf)"
  using max_db_upper [of cf] by (intro to_int_id) (simp_all del: of_nat_unat)

lemma file_write_fresh:
  assumes "1 \<le> max_db cf"
  shows "file_write (file_truncate empty_file (max_db cf)) (max_db cf - 1) [0x30] = fresh_db cf"
proof -
  have "put_bytes (live_data (file_truncate empty_file (max_db cf))) (max_db cf - 1) [0x30]
      = (\<lambda>_. 0)(max_db cf - 1 := 0x30)"
    using assms by (auto simp: fun_eq_iff put_bytes_def live_data_def file_truncate_def empty_file_def)
  then show ?thesis using assms
    by (simp add: file_write_def fresh_db_def) (simp add: file_truncate_def empty_file_def)
qed

lemma extend_file_size_fresh:
  assumes "conf_ok cf" and "w_faults w = []" and "w_fds w fd = Some d" and "\<not> o_append d"
    and "w_files w (o_ino d) = empty_file"
  shows "extend_file_size fd (uint (MAX_DB_FILE_SIZE cf)) w =
     (True, w\<lparr>w_files := (w_files w)(o_ino d := fresh_db cf),
              w_fds := (w_fds w)(fd \<mapsto> d\<lparr>o_off := max_db cf\<rparr>)\<rparr>)"
proof -
  let ?n = "max_db cf"
  have n: "1 \<le> ?n" "?n \<le> 67108864" using max_db_lower [OF assms(1)] max_db_upper [OF assms(1)] by simp_all
  have u: "uint (MAX_DB_FILE_SIZE cf) = int ?n" by simp
  let ?w1 = "w\<lparr>w_files := (w_files w)(o_ino d := file_truncate empty_file ?n)\<rparr>"
  let ?w2 = "?w1\<lparr>w_fds := (w_fds w)(fd \<mapsto> d\<lparr>o_off := ?n - 1\<rparr>)\<rparr>"
  have t: "sys_ftruncate fd ?n w = (0, ?w1)"
    using assms by (simp add: sys_ftruncate_def)
  have "sys_lseek_end fd (- int 1) ?w1 = (int (?n - 1), ?w2)"
    using assms(2-4) n by (subst sys_lseek_end_ok [where d = d]) (simp_all add: file_truncate_def)
  then have l: "sys_lseek_end fd (- 1) ?w1 = (int (?n - 1), ?w2)" by simp
  have wr: "snd (sys_write fd [0x30] ?w2) = w\<lparr>w_files := (w_files w)(o_ino d := fresh_db cf),
      w_fds := (w_fds w)(fd \<mapsto> d\<lparr>o_off := ?n\<rparr>)\<rparr>"
    using assms(2,4) n
    by (subst sys_write_ok [where d = "d\<lparr>o_off := ?n - 1\<rparr>"])
      (simp_all add: fd_put_def Let_def file_write_fresh [simplified])
  have nn: "\<not> to_int (int (?n - 1)) < 0" using n by (subst to_int_id) (simp_all del: of_nat_unat)
  show ?thesis
    unfolding extend_file_size_def u to_int_max_db [OF assms(1)] Let_def
    using t l wr nn by (simp del: of_nat_unat)
qed

definition db_create :: "ucmq_conf \<Rightarrow> path \<Rightarrow> world \<Rightarrow> world" where
  "db_create cf p w =
     map_new (max_db cf) (w_next_ino w)
       ((open_new p False w)\<lparr>w_files := (w_files w)(w_next_ino w := fresh_db cf),
          w_fds := (w_fds w)(int (w_next_fd w) \<mapsto>
             \<lparr>o_ino = w_next_ino w, o_off = max_db cf, o_append = False, o_nonblock = True\<rparr>)\<rparr>)"

definition db_open :: "ucmq_conf \<Rightarrow> nat \<Rightarrow> world \<Rightarrow> world" where
  "db_open cf i w = map_new (max_db cf) i (open_old i False w)"

lemma open_db_file_create:
  assumes "conf_ok cf" and "w_faults w = []" and "lookup_path w p = None" and "parent_ok w p"
  shows "mq_sm_open_db_file cf p FOPEN_FLAG_CREATE w = (Some (w_next_map w), int (w_next_fd w), db_create cf p w)"
proof -
  let ?w = "open_new p False w"
    and ?d = "\<lparr>o_ino = w_next_ino w, o_off = 0, o_append = False, o_nonblock = True\<rparr>"
  let ?w' = "?w\<lparr>w_files := (w_files w)(w_next_ino w := fresh_db cf),
      w_fds := (w_fds w)(int (w_next_fd w) \<mapsto> ?d\<lparr>o_off := max_db cf\<rparr>)\<rparr>"
  have e: "extend_file_size (int (w_next_fd w)) (uint (MAX_DB_FILE_SIZE cf)) ?w = (True, ?w')"
    using assms by (subst extend_file_size_fresh [where d = ?d]) simp_all
  have m: "sys_mmap (max_db cf) (int (w_next_fd w)) ?w' = (Some (w_next_map w), db_create cf p w)"
    using assms by (subst sys_mmap_ok [where d = "?d\<lparr>o_off := max_db cf\<rparr>"]) (simp_all add: db_create_def)
  show ?thesis
    using assms e m by (simp add: mq_sm_open_db_file_def sys_open_new)
qed

lemma open_db_file_open:
  assumes "conf_ok cf" and "w_faults w = []" and "lookup_path w p = Some (RegN i)"
    and "f_size (w_files w i) = max_db cf"
  shows "mq_sm_open_db_file cf p FOPEN_FLAG_OPEN w = (Some (w_next_map w), int (w_next_fd w), db_open cf i w)"
proof -
  let ?d = "\<lparr>o_ino = i, o_off = 0, o_append = False, o_nonblock = True\<rparr>"
  have "get_file_size p (open_old i False w) = int (max_db cf)"
    using assms to_int_max_db [OF assms(1)]
    by (simp add: get_file_size_def sys_stat_size_def del: of_nat_unat)
  then have g: "word_of_int (get_file_size p (open_old i False w)) = MAX_DB_FILE_SIZE cf" by simp
  have m: "sys_mmap (max_db cf) (int (w_next_fd w)) (open_old i False w) = (Some (w_next_map w), db_open cf i w)"
    using assms by (subst sys_mmap_ok [where d = ?d]) (simp_all add: db_open_def)
  show ?thesis
    using assms g m by (simp add: mq_sm_open_db_file_def sys_open_old)
qed

lemma db_create_simps [simp]:
  "lookup_path w p = None \<Longrightarrow>
     lookup_path (db_create cf p w) q = (if q = p then Some (RegN (w_next_ino w)) else lookup_path w q)"
  "w_files (db_create cf p w) = (w_files w)(w_next_ino w := fresh_db cf)"
  "w_next_ino (db_create cf p w) = Suc (w_next_ino w)"
  "w_fds (db_create cf p w) = (w_fds w)(int (w_next_fd w) \<mapsto>
     \<lparr>o_ino = w_next_ino w, o_off = max_db cf, o_append = False, o_nonblock = True\<rparr>)"
  "w_next_fd (db_create cf p w) = Suc (w_next_fd w)"
  "w_maps (db_create cf p w) = (w_maps w)(w_next_map w \<mapsto> \<lparr>m_ino = w_next_ino w, m_len = max_db cf\<rparr>)"
  "w_next_map (db_create cf p w) = Suc (w_next_map w)" "w_faults (db_create cf p w) = w_faults w"
  "w_bavail (db_create cf p w) = w_bavail w" "w_bsize (db_create cf p w) = w_bsize w"
  by (simp_all add: db_create_def) (simp_all add: lookup_path_def open_new_def open_old_def alloc_fd_def
      new_inode_def map_add_def split: option.splits)

lemma db_open_simps [simp]:
  "lookup_path (db_open cf i w) q = lookup_path w q" "w_files (db_open cf i w) = w_files w"
  "w_next_ino (db_open cf i w) = w_next_ino w"
  "w_fds (db_open cf i w) = (w_fds w)(int (w_next_fd w) \<mapsto>
     \<lparr>o_ino = i, o_off = 0, o_append = False, o_nonblock = True\<rparr>)"
  "w_next_fd (db_open cf i w) = Suc (w_next_fd w)"
  "w_maps (db_open cf i w) = (w_maps w)(w_next_map w \<mapsto> \<lparr>m_ino = i, m_len = max_db cf\<rparr>)"
  "w_next_map (db_open cf i w) = Suc (w_next_map w)" "w_faults (db_open cf i w) = w_faults w"
  "w_bavail (db_open cf i w) = w_bavail w" "w_bsize (db_open cf i w) = w_bsize w"
  by (simp_all add: db_open_def)

lemma wf_db_create:
  assumes "wf_world w" and "lookup_path w p = None"
  shows "wf_world (db_create cf p w)"
proof -
  have "wf_world ((open_new p False w)\<lparr>w_files := (w_files w)(w_next_ino w := fresh_db cf),
          w_fds := (w_fds w)(int (w_next_fd w) \<mapsto>
             \<lparr>o_ino = w_next_ino w, o_off = max_db cf, o_append = False, o_nonblock = True\<rparr>)\<rparr>)"
    using wf_open_new [OF assms, of False]
    by (rule wf_view) (auto simp: lookup_path_def split: if_splits)
  then show ?thesis unfolding db_create_def by (rule wf_map_new) simp
qed

lemma wf_db_open: "wf_world w \<Longrightarrow> i < w_next_ino w \<Longrightarrow> wf_world (db_open cf i w)"
  unfolding db_open_def by (intro wf_map_new wf_open_old) simp_all

end
