(* ===== verification/Fifo_Rep.thy ===== *)
theory Fifo_Rep
  imports Queue_Manage Store_Effects
begin

text \<open>
  When a queue and the file system represent a list of messages. The data files from the
  reader's to the writer's index hold consecutive segments of the list; the handles of the
  queue (descriptors of the tag files, mappings of the data files) are the ones the code
  expects; the names the queue will use next are free.
\<close>

section \<open>Names\<close>

abbreviation db_path :: "ucmq_conf \<Rightarrow> string \<Rightarrow> nat \<Rightarrow> path" where
  "db_path cf nm n \<equiv> GEN_DATA_FULL_PATH_BY_QNAME_INDEX cf nm (of_nat n)"

abbreviation rtag_path :: "ucmq_conf \<Rightarrow> string \<Rightarrow> nat \<Rightarrow> path" where
  "rtag_path cf nm n \<equiv> GEN_RTAG_FULL_PATH_BY_QNAME_INDEX cf nm (of_nat n)"

abbreviation wtag_path :: "ucmq_conf \<Rightarrow> string \<Rightarrow> nat \<Rightarrow> path" where
  "wtag_path cf nm n \<equiv> GEN_WTAG_FULL_PATH_BY_QNAME_INDEX cf nm (of_nat n)"

text \<open>The directory of the queue fits the buffers of the code, so no name is cut off.\<close>

definition path_ok :: "ucmq_conf \<Rightarrow> string \<Rightarrow> bool" where
  "path_ok cf nm \<longleftrightarrow> length (data_file_path cf) + 1 + length nm \<le> 127"

definition queue_dir :: "ucmq_conf \<Rightarrow> string \<Rightarrow> path" where
  "queue_dir cf nm = data_file_path cf @ ''/'' @ nm"

lemma length_fmt_index: "length (fmt_index i) \<le> 20"
proof -
  have "unat i < 10 ^ Suc 19" using unsigned_less [of i, where 'a = nat] by simp
  then have "length (digits (unat i)) \<le> 20" using length_digits_le [of "unat i" 19] by simp
  then show ?thesis by (simp add: fmt_index_def pad_digits_def Let_def)
qed

lemma full_paths:
  assumes "path_ok cf nm"
  shows "GEN_DATA_FULL_PATH_BY_QNAME_INDEX cf nm i = queue_dir cf nm @ ''/'' @ db_name i"
    and "GEN_RTAG_FULL_PATH_BY_QNAME_INDEX cf nm i = queue_dir cf nm @ ''/'' @ rtag_name i"
    and "GEN_WTAG_FULL_PATH_BY_QNAME_INDEX cf nm i = queue_dir cf nm @ ''/'' @ wtag_name i"
    and "GEN_QUEUE_PATH_BY_QNAME cf nm = queue_dir cf nm"
  using assms length_fmt_index [of i]
  by (simp_all add: path_ok_def queue_dir_def store_consts db_name_def rtag_name_def wtag_name_def
      GEN_DATA_FULL_PATH_BY_QNAME_INDEX_def GEN_RTAG_FULL_PATH_BY_QNAME_INDEX_def
      GEN_WTAG_FULL_PATH_BY_QNAME_INDEX_def GEN_QUEUE_PATH_BY_QNAME_def)

lemma inj_digit_char: "a < 10 \<Longrightarrow> b < 10 \<Longrightarrow> digit_char a = digit_char b \<Longrightarrow> a = b"
proof -
  assume "a < 10" "b < 10" "digit_char a = digit_char b"
  then have "(of_char (char_of (48 + a)) :: nat) = of_char (char_of (48 + b))"
    by (simp add: digit_char_def)
  with \<open>a < 10\<close> \<open>b < 10\<close> show ?thesis by (simp add: of_char_of)
qed

lemma fmt_index_inj: "fmt_index i = fmt_index j \<Longrightarrow> i = j"
proof -
  assume eq: "fmt_index i = fmt_index j"
  have "inj_on digit_char (set (pad_digits 12 (unat i)) \<union> set (pad_digits 12 (unat j)))"
    by (auto simp: inj_on_def dest!: pad_digits_lt_10 intro: inj_digit_char)
  then have "pad_digits 12 (unat i) = pad_digits 12 (unat j)"
    using eq unfolding fmt_index_def by (rule map_inj_on [rotated])
  then show ?thesis by (metis pad_digits_inj word_unat_eq_iff)
qed

lemma digit_char_not_slash: "d < 10 \<Longrightarrow> digit_char d \<noteq> CHR ''/''"
proof
  assume "d < 10" "digit_char d = CHR ''/''"
  then have "(of_char (char_of (48 + d)) :: nat) = of_char (CHR ''/'')"
    by (simp add: digit_char_def)
  with \<open>d < 10\<close> show False by (simp add: of_char_of)
qed

lemma fmt_index_no_slash: "CHR ''/'' \<notin> set (fmt_index i)"
  using pad_digits_lt_10 digit_char_not_slash by (fastforce simp: fmt_index_def)

lemma last_slash_append:
  "CHR ''/'' \<notin> set n \<Longrightarrow> last_slash (d @ CHR ''/'' # n) = Some (length d)"
proof -
  assume n: "CHR ''/'' \<notin> set n"
  then have "last_slash n = None" by (induction n) auto
  then show ?thesis by (induction d) auto
qed

lemma parent_of_name: "CHR ''/'' \<notin> set n \<Longrightarrow> parent (d @ CHR ''/'' # n) = Some d"
  by (simp add: parent_def last_slash_append)

lemma names_no_slash:
  "CHR ''/'' \<notin> set (db_name i)" "CHR ''/'' \<notin> set (rtag_name i)" "CHR ''/'' \<notin> set (wtag_name i)"
  using fmt_index_no_slash by (simp_all add: db_name_def rtag_name_def wtag_name_def)

lemma queue_parent_ok:
  assumes "path_ok cf nm" and "has_dir w (queue_dir cf nm)"
  shows "parent_ok w (GEN_DATA_FULL_PATH_BY_QNAME_INDEX cf nm i)"
    and "parent_ok w (GEN_RTAG_FULL_PATH_BY_QNAME_INDEX cf nm i)"
    and "parent_ok w (GEN_WTAG_FULL_PATH_BY_QNAME_INDEX cf nm i)"
  using assms by (simp_all add: full_paths parent_ok_def parent_of_name names_no_slash)

lemma paths_eq [simp]:
  assumes "path_ok cf nm"
  shows "GEN_DATA_FULL_PATH_BY_QNAME_INDEX cf nm i = GEN_DATA_FULL_PATH_BY_QNAME_INDEX cf nm j \<longleftrightarrow> i = j"
    and "GEN_RTAG_FULL_PATH_BY_QNAME_INDEX cf nm i = GEN_RTAG_FULL_PATH_BY_QNAME_INDEX cf nm j \<longleftrightarrow> i = j"
    and "GEN_WTAG_FULL_PATH_BY_QNAME_INDEX cf nm i = GEN_WTAG_FULL_PATH_BY_QNAME_INDEX cf nm j \<longleftrightarrow> i = j"
    and "GEN_DATA_FULL_PATH_BY_QNAME_INDEX cf nm i \<noteq> GEN_RTAG_FULL_PATH_BY_QNAME_INDEX cf nm j"
    and "GEN_DATA_FULL_PATH_BY_QNAME_INDEX cf nm i \<noteq> GEN_WTAG_FULL_PATH_BY_QNAME_INDEX cf nm j"
    and "GEN_RTAG_FULL_PATH_BY_QNAME_INDEX cf nm i \<noteq> GEN_WTAG_FULL_PATH_BY_QNAME_INDEX cf nm j"
    and "GEN_RTAG_FULL_PATH_BY_QNAME_INDEX cf nm j \<noteq> GEN_DATA_FULL_PATH_BY_QNAME_INDEX cf nm i"
    and "GEN_WTAG_FULL_PATH_BY_QNAME_INDEX cf nm j \<noteq> GEN_DATA_FULL_PATH_BY_QNAME_INDEX cf nm i"
    and "GEN_WTAG_FULL_PATH_BY_QNAME_INDEX cf nm j \<noteq> GEN_RTAG_FULL_PATH_BY_QNAME_INDEX cf nm i"
  using assms
  by (auto simp: full_paths db_name_def rtag_name_def wtag_name_def dest: fmt_index_inj)

lemma paths_not_dir:
  assumes "path_ok cf nm"
  shows "GEN_DATA_FULL_PATH_BY_QNAME_INDEX cf nm i \<noteq> queue_dir cf nm"
    and "GEN_RTAG_FULL_PATH_BY_QNAME_INDEX cf nm i \<noteq> queue_dir cf nm"
    and "GEN_WTAG_FULL_PATH_BY_QNAME_INDEX cf nm i \<noteq> queue_dir cf nm"
  using assms by (simp_all add: full_paths)

section \<open>Segments\<close>

type_synonym message = "u32 \<times> byte list"

text \<open>
  A data file read from \<open>start\<close> holds exactly the messages \<open>ms\<close>, which end at \<open>e\<close>: what comes
  before the first and after the last one has no magic number where the reader looks. The head of the
  file never looks like a message.
\<close>

definition seg_ok :: "ucmq_conf \<Rightarrow> (nat \<Rightarrow> byte) \<Rightarrow> nat \<Rightarrow> message list \<Rightarrow> nat \<Rightarrow> bool" where
  "seg_ok cf f start ms e \<longleftrightarrow>
     (\<forall>i < DB_FILE_HEAD_LEN. f i \<noteq> MSG_HEAD_OF_FIRST_MAGIC_NUM) \<and> e \<le> max_db cf
     \<and> (\<exists>s. DB_FILE_HEAD_LEN \<le> s \<and> skips f start s \<and> msgs_at f s ms e)
     \<and> (\<forall>i. e \<le> i \<and> i + MSG_HEAD_LEN < max_db cf \<longrightarrow> no_magic f i)"

text \<open>The descriptor of a tag file: open on the file of that name, at its end.\<close>

definition tag_fd :: "world \<Rightarrow> int \<Rightarrow> path \<Rightarrow> bool" where
  "tag_fd w fd p \<longleftrightarrow>
     (\<exists>d. w_fds w fd = Some d \<and> lookup_path w p = Some (RegN (o_ino d)) \<and> o_nonblock d
        \<and> (o_append d \<or> o_off d = f_size (w_files w (o_ino d))))"

text \<open>The data files of the indices \<open>ri\<close> to \<open>wi\<close>: the segment of each index, read from \<open>rpos\<close> in the
  first and ending at \<open>wpos\<close> in the last.\<close>

definition data_rep ::
    "ucmq_conf \<Rightarrow> string \<Rightarrow> world \<Rightarrow> nat \<Rightarrow> nat \<Rightarrow> nat \<Rightarrow> nat \<Rightarrow> (nat \<Rightarrow> nat) \<Rightarrow> (nat \<Rightarrow> message list) \<Rightarrow> bool" where
  "data_rep cf nm w ri wi rpos wpos ino seg \<longleftrightarrow>
     (\<forall>n \<in> {ri..wi}. lookup_path w (db_path cf nm n) = Some (RegN (ino n))
        \<and> f_size (w_files w (ino n)) = max_db cf
        \<and> (\<exists>e. (n = wi \<longrightarrow> e = wpos) \<and>
              seg_ok cf (f_data (w_files w (ino n))) (if n = ri then rpos else DB_FILE_HEAD_LEN) (seg n) e))"

definition free_names :: "ucmq_conf \<Rightarrow> string \<Rightarrow> world \<Rightarrow> nat \<Rightarrow> nat \<Rightarrow> bool" where
  "free_names cf nm w ri wi \<longleftrightarrow>
     (\<forall>n. wi < n \<longrightarrow> n < 2 ^ 64 \<longrightarrow> lookup_path w (db_path cf nm n) = None)
     \<and> (\<forall>n. ri < n \<longrightarrow> n < 2 ^ 64 \<longrightarrow> lookup_path w (rtag_path cf nm n) = None)
     \<and> (\<forall>n. wi < n \<longrightarrow> n < 2 ^ 64 \<longrightarrow> lookup_path w (wtag_path cf nm n) = None)"

text \<open>The numbers that the queue holds on descriptors and mappings.\<close>

definition handles_ok :: "ucmq_conf \<Rightarrow> mq_queue \<Rightarrow> world \<Rightarrow> nat \<Rightarrow> nat \<Rightarrow> (nat \<Rightarrow> nat) \<Rightarrow> bool" where
  "handles_ok cf q w ri wi ino \<longleftrightarrow>
     maps_db cf w (d_map_mem (cur_rdb q)) (ino ri) \<and> maps_db cf w (d_map_mem (cur_wdb q)) (ino wi)
     \<and> (d_map_mem (cur_rdb q) = d_map_mem (cur_wdb q) \<longleftrightarrow> ri = wi)
     \<and> tag_fd w (rtag_fd q) (rtag_path cf (q_name q) ri) \<and> tag_fd w (wtag_fd q) (wtag_path cf (q_name q) wi)
     \<and> rtag_fd q \<noteq> wtag_fd q
     \<and> d_fd (cur_rdb q) \<notin> {rtag_fd q, wtag_fd q} \<and> d_fd (cur_wdb q) \<notin> {rtag_fd q, wtag_fd q}
     \<and> d_fd (cur_rdb q) < int (w_next_fd w) \<and> d_fd (cur_wdb q) < int (w_next_fd w)"

definition ri_of :: "mq_queue \<Rightarrow> nat" where "ri_of q = unat (d_cur_index (cur_rdb q))"
definition wi_of :: "mq_queue \<Rightarrow> nat" where "wi_of q = unat (d_cur_index (cur_wdb q))"
definition rpos_of :: "mq_queue \<Rightarrow> nat" where "rpos_of q = unat (d_pos (cur_rdb q))"
definition wpos_of :: "mq_queue \<Rightarrow> nat" where "wpos_of q = unat (d_pos (cur_wdb q))"

lemmas index_defs = ri_of_def wi_of_def rpos_of_def wpos_of_def

text \<open>
  \<open>rep_at\<close> gives the inode and the segment of each index; \<open>store_rep cf q w ms\<close> says that the
  files and handles of the queue represent the messages \<open>ms\<close> and that its mutex is free; \<open>queue_rep\<close>
  adds that the counters of the queue count them.
\<close>

definition rep_at :: "ucmq_conf \<Rightarrow> mq_queue \<Rightarrow> world \<Rightarrow> (nat \<Rightarrow> nat) \<Rightarrow> (nat \<Rightarrow> message list) \<Rightarrow> bool" where
  "rep_at cf q w ino seg \<longleftrightarrow>
     conf_ok cf \<and> path_ok cf (q_name q) \<and> wf_world w \<and> w_faults w = []
     \<and> has_dir w (queue_dir cf (q_name q))
     \<and> ri_of q \<le> wi_of q \<and> rpos_of q \<le> max_db cf
     \<and> free_names cf (q_name q) w (ri_of q) (wi_of q)
     \<and> data_rep cf (q_name q) w (ri_of q) (wi_of q) (rpos_of q) (wpos_of q) ino seg
     \<and> handles_ok cf q w (ri_of q) (wi_of q) ino"

abbreviation messages :: "mq_queue \<Rightarrow> (nat \<Rightarrow> message list) \<Rightarrow> message list" where
  "messages q seg \<equiv> concat (map seg [ri_of q..<Suc (wi_of q)])"

definition store_rep :: "ucmq_conf \<Rightarrow> mq_queue \<Rightarrow> world \<Rightarrow> message list \<Rightarrow> bool" where
  "store_rep cf q w ms \<longleftrightarrow>
     \<not> q_mutex q \<and> (\<exists>ino seg. rep_at cf q w ino seg \<and> ms = messages q seg)"

definition queue_rep :: "ucmq_conf \<Rightarrow> mq_queue \<Rightarrow> world \<Rightarrow> message list \<Rightarrow> bool" where
  "queue_rep cf q w ms \<longleftrightarrow>
     store_rep cf q w ms \<and> put_num q - get_num q = of_nat (length ms) \<and> length ms < 2 ^ 63"

section \<open>Facts about segments\<close>

lemma seg_ok_end: "seg_ok cf f start ms e \<Longrightarrow> DB_FILE_HEAD_LEN \<le> e \<and> start \<le> e \<and> e \<le> max_db cf"
  by (fastforce simp: seg_ok_def skips_def dest: msgs_at_le)

lemma seg_ok_write:
  assumes seg: "seg_ok cf f start ms e" and b: "0 < length b"
    and fit: "e + MSG_HEAD_LEN + length b \<le> max_db cf"
  shows "seg_ok cf (put_bytes f e (encode_msg d b)) start (ms @ [(d, b)]) (e + MSG_HEAD_LEN + length b)"
proof -
  let ?g = "put_bytes f e (encode_msg d b)" and ?e = "e + MSG_HEAD_LEN + length b"
  obtain s where s: "DB_FILE_HEAD_LEN \<le> s" "skips f start s" "msgs_at f s ms e"
    using seg by (auto simp: seg_ok_def)
  have se: "s \<le> e" using msgs_at_le [OF s(3)] .
  have low: "?g i = f i" if "i < e" for i using that by (simp add: put_bytes_outside)
  have high: "?g i = f i" if "?e \<le> i" for i using that by (simp add: put_bytes_outside add.assoc)
  have first: "?g e = MSG_HEAD_OF_FIRST_MAGIC_NUM"
    by (simp add: put_bytes_inside encode_msg_def)
  have "no_magic ?g i" if "start \<le> i" "i < s" for i
  proof (cases "Suc i < e")
    case True
    then show ?thesis using s(2) that low by (simp add: skips_def no_magic_def)
  next
    case False
    then have "Suc i = e" using that se by simp
    then show ?thesis using first by (simp add: no_magic_def store_consts)
  qed
  then have "skips ?g start s" using s(2) by (auto simp: skips_def)
  moreover have "msgs_at ?g s (ms @ [(d, b)]) ?e"
    using msgs_at_append [OF msgs_at_cong [OF s(3)] msgs_at_singleton [OF b]] low by simp
  moreover have "\<forall>i. ?e \<le> i \<and> i + MSG_HEAD_LEN < max_db cf \<longrightarrow> no_magic ?g i"
    using seg high by (simp add: seg_ok_def no_magic_def)
  moreover have "\<forall>i < DB_FILE_HEAD_LEN. ?g i \<noteq> MSG_HEAD_OF_FIRST_MAGIC_NUM"
    using seg s(1) se low by (simp add: seg_ok_def)
  ultimately show ?thesis using s(1) fit by (auto simp: seg_ok_def)
qed

lemma seg_ok_head:
  assumes seg: "seg_ok cf f start ms e" and h: "length h = DB_FILE_HEAD_LEN" "\<forall>c \<in> set h. c \<noteq> MSG_HEAD_OF_FIRST_MAGIC_NUM"
  shows "seg_ok cf (put_bytes f 0 h) start ms e"
proof -
  let ?g = "put_bytes f 0 h"
  obtain s where s: "DB_FILE_HEAD_LEN \<le> s" "skips f start s" "msgs_at f s ms e"
    using seg by (auto simp: seg_ok_def)
  have se: "s \<le> e" using msgs_at_le [OF s(3)] .
  have high: "?g i = f i" if "DB_FILE_HEAD_LEN \<le> i" for i using that h(1) by (simp add: put_bytes_outside)
  have low: "?g i \<noteq> MSG_HEAD_OF_FIRST_MAGIC_NUM" if "i < DB_FILE_HEAD_LEN" for i
    using that h nth_mem [of i h] by (simp add: put_bytes_inside)
  have "no_magic ?g i" if "no_magic f i" for i
    using that low [of i] high [of i] high [of "Suc i"] by (cases "i < DB_FILE_HEAD_LEN") (auto simp: no_magic_def)
  then have "skips ?g start s" and "\<forall>i. e \<le> i \<and> i + MSG_HEAD_LEN < max_db cf \<longrightarrow> no_magic ?g i"
    using s(2) seg by (auto simp: skips_def seg_ok_def)
  moreover have "msgs_at ?g s ms e" using msgs_at_cong [OF s(3)] high s(1) by simp
  ultimately show ?thesis using s(1) low seg by (auto simp: seg_ok_def)
qed

lemma seg_ok_Cons:
  assumes "seg_ok cf f start ((d, b) # ms) e"
  obtains s where "DB_FILE_HEAD_LEN \<le> s" "skips f start s" "0 < length b"
    "bytes_at f s (MSG_HEAD_LEN + length b) = encode_msg d b"
    "s + MSG_HEAD_LEN + length b \<le> e" "seg_ok cf f (s + MSG_HEAD_LEN + length b) ms e"
proof -
  obtain s where s: "DB_FILE_HEAD_LEN \<le> s" "skips f start s" "msgs_at f s ((d, b) # ms) e"
    using assms by (auto simp: seg_ok_def)
  moreover have "seg_ok cf f (s + MSG_HEAD_LEN + length b) ms e"
    using assms s unfolding seg_ok_def by (auto intro!: exI [of _ "s + MSG_HEAD_LEN + length b"])
  ultimately show ?thesis using that [of s] msgs_at_le by auto
qed

lemma seg_ok_empty:
  assumes "seg_ok cf f start [] e" and "start \<le> i" and "i + MSG_HEAD_LEN < max_db cf"
  shows "no_magic f i"
  using assms by (auto simp: seg_ok_def skips_def not_less) (meson not_le)

lemma seg_ok_fresh: "conf_ok cf \<Longrightarrow> seg_ok cf (f_data (fresh_db cf)) DB_FILE_HEAD_LEN [] DB_FILE_HEAD_LEN"
  using max_db_lower [of cf]
  by (auto simp: seg_ok_def fresh_db_def store_consts no_magic_def intro!: exI [of _ 128])

end
