(* ===== verification/Queue_Frame.thy ===== *)
theory Queue_Frame
  imports Fifo_Rep
begin

text \<open>
  What an operation on one queue leaves alone: the names outside the directory of the queue, the
  files these names lead to, and the descriptors and mappings that the queue does not hold. The
  relation is transitive, so it is shown step by step.
\<close>

definition own_path :: "ucmq_conf \<Rightarrow> string \<Rightarrow> path \<Rightarrow> bool" where
  "own_path cf nm p \<longleftrightarrow> p = queue_dir cf nm \<or> (\<exists>r. p = queue_dir cf nm @ ''/'' @ r)"

definition own_ino :: "ucmq_conf \<Rightarrow> string \<Rightarrow> world \<Rightarrow> nat \<Rightarrow> bool" where
  "own_ino cf nm w i \<longleftrightarrow> (\<exists>p. own_path cf nm p \<and> lookup_path w p = Some (RegN i))"

definition own_fds :: "mq_queue \<Rightarrow> int set" where
  "own_fds q = {rtag_fd q, wtag_fd q, d_fd (cur_rdb q), d_fd (cur_wdb q)}"

definition own_maps :: "mq_queue \<Rightarrow> ptr set" where
  "own_maps q = {d_map_mem (cur_rdb q), d_map_mem (cur_wdb q)}"

definition evolves :: "ucmq_conf \<Rightarrow> mq_queue \<Rightarrow> world \<Rightarrow> mq_queue \<Rightarrow> world \<Rightarrow> bool" where
  "evolves cf q w q' w' \<longleftrightarrow>
     q_name q' = q_name q \<and> maxque q' = maxque q \<and> q_mutex q' = q_mutex q
     \<and> w_bavail w' = w_bavail w \<and> w_bsize w' = w_bsize w
     \<and> w_next_ino w \<le> w_next_ino w' \<and> w_next_fd w \<le> w_next_fd w' \<and> w_next_map w \<le> w_next_map w'
     \<and> (\<forall>p. own_path cf (q_name q) p \<or> lookup_path w' p = lookup_path w p)
     \<and> (\<forall>i < w_next_ino w. own_ino cf (q_name q) w i \<or> w_files w' i = w_files w i)
     \<and> (\<forall>i. own_ino cf (q_name q) w' i \<longrightarrow> own_ino cf (q_name q) w i \<or> w_next_ino w \<le> i)
     \<and> (\<forall>fd < int (w_next_fd w). fd \<in> own_fds q \<or> w_fds w' fd = w_fds w fd)
     \<and> own_fds q' \<subseteq> own_fds q \<union> {int (w_next_fd w)..}
     \<and> (\<forall>m < w_next_map w. Some m \<in> own_maps q \<or> w_maps w' m = w_maps w m)
     \<and> own_maps q' \<subseteq> own_maps q \<union> Some ` {w_next_map w..}"

lemma own_paths [simp]:
  assumes "path_ok cf nm"
  shows "own_path cf nm (GEN_DATA_FULL_PATH_BY_QNAME_INDEX cf nm i)"
    and "own_path cf nm (GEN_RTAG_FULL_PATH_BY_QNAME_INDEX cf nm i)"
    and "own_path cf nm (GEN_WTAG_FULL_PATH_BY_QNAME_INDEX cf nm i)"
  using assms by (simp_all add: own_path_def full_paths)

text \<open>A name without a slash is determined by what follows it.\<close>

lemma name_split:
  assumes "x @ r = y @ s" "CHR ''/'' \<notin> set x" "CHR ''/'' \<notin> set y"
    "r = [] \<or> hd r = CHR ''/''" "s = [] \<or> hd s = CHR ''/''"
  shows "x = y"
  using assms
proof (induction x arbitrary: y)
  case Nil
  then show ?case by (cases y) auto
next
  case (Cons c x)
  then show ?case by (cases y) auto
qed

lemma own_path_name:
  assumes "own_path cf nm p"
  obtains r where "p = (data_file_path cf @ ''/'') @ nm @ r" and "r = [] \<or> hd r = CHR ''/''"
  using assms unfolding own_path_def queue_dir_def
proof (elim disjE exE)
  assume "p = data_file_path cf @ ''/'' @ nm"
  then show ?thesis by (intro that [of "[]"]) simp_all
next
  fix r
  assume "p = (data_file_path cf @ ''/'' @ nm) @ ''/'' @ r"
  then show ?thesis by (intro that [of "''/'' @ r"]) simp_all
qed

lemma own_path_disjoint:
  assumes "own_path cf a p" and "own_path cf b p" and "CHR ''/'' \<notin> set a" and "CHR ''/'' \<notin> set b"
  shows "a = b"
proof -
  obtain r where r: "p = (data_file_path cf @ ''/'') @ a @ r" "r = [] \<or> hd r = CHR ''/''"
    by (rule own_path_name [OF assms(1)])
  obtain s where s: "p = (data_file_path cf @ ''/'') @ b @ s" "s = [] \<or> hd s = CHR ''/''"
    by (rule own_path_name [OF assms(2)])
  have "a @ r = b @ s" using r(1) s(1) by simp
  then show ?thesis using assms(3,4) r(2) s(2) by (rule name_split)
qed

lemma evolvesD:
  assumes "evolves cf q w q' w'"
  shows "q_name q' = q_name q" "maxque q' = maxque q" "q_mutex q' = q_mutex q"
    "w_bavail w' = w_bavail w" "w_bsize w' = w_bsize w"
    "w_next_ino w \<le> w_next_ino w'" "w_next_fd w \<le> w_next_fd w'" "w_next_map w \<le> w_next_map w'"
    "own_path cf (q_name q) p \<or> lookup_path w' p = lookup_path w p"
    "i < w_next_ino w \<Longrightarrow> own_ino cf (q_name q) w i \<or> w_files w' i = w_files w i"
    "own_ino cf (q_name q) w' i \<Longrightarrow> own_ino cf (q_name q) w i \<or> w_next_ino w \<le> i"
    "fd < int (w_next_fd w) \<Longrightarrow> fd \<in> own_fds q \<or> w_fds w' fd = w_fds w fd"
    "fd \<in> own_fds q' \<Longrightarrow> fd \<in> own_fds q \<or> int (w_next_fd w) \<le> fd"
    "m < w_next_map w \<Longrightarrow> Some m \<in> own_maps q \<or> w_maps w' m = w_maps w m"
    "k \<in> own_maps q' \<Longrightarrow> k \<in> own_maps q \<or> (\<exists>n. k = Some n \<and> w_next_map w \<le> n)"
  using assms unfolding evolves_def by auto

lemma evolvesI:
  assumes "q_name q' = q_name q" "maxque q' = maxque q" "q_mutex q' = q_mutex q"
    "w_bavail w' = w_bavail w" "w_bsize w' = w_bsize w"
    "w_next_ino w \<le> w_next_ino w'" "w_next_fd w \<le> w_next_fd w'" "w_next_map w \<le> w_next_map w'"
    "\<And>p. own_path cf (q_name q) p \<or> lookup_path w' p = lookup_path w p"
    "\<And>i. i < w_next_ino w \<Longrightarrow> own_ino cf (q_name q) w i \<or> w_files w' i = w_files w i"
    "\<And>i. own_ino cf (q_name q) w' i \<Longrightarrow> own_ino cf (q_name q) w i \<or> w_next_ino w \<le> i"
    "\<And>fd. fd < int (w_next_fd w) \<Longrightarrow> fd \<in> own_fds q \<or> w_fds w' fd = w_fds w fd"
    "\<And>fd. fd \<in> own_fds q' \<Longrightarrow> fd \<in> own_fds q \<or> int (w_next_fd w) \<le> fd"
    "\<And>m. m < w_next_map w \<Longrightarrow> Some m \<in> own_maps q \<or> w_maps w' m = w_maps w m"
    "\<And>k. k \<in> own_maps q' \<Longrightarrow> k \<in> own_maps q \<or> (\<exists>n. k = Some n \<and> w_next_map w \<le> n)"
  shows "evolves cf q w q' w'"
  unfolding evolves_def using assms by (intro conjI) (blast | auto)+

lemma evolves_refl: "evolves cf q w q w"
  by (rule evolvesI) simp_all

lemma evolves_trans:
  assumes a: "evolves cf q w q1 w1" and b: "evolves cf q1 w1 q2 w2"
  shows "evolves cf q w q2 w2"
proof -
  note A = evolvesD [OF a] and B = evolvesD [OF b, unfolded A(1)]
  show ?thesis
  proof (rule evolvesI)
    show "own_path cf (q_name q) p \<or> lookup_path w2 p = lookup_path w p" for p
      using A(9) [of p] B(9) [of p] by auto
    show "own_ino cf (q_name q) w i \<or> w_files w2 i = w_files w i" if "i < w_next_ino w" for i
      using A(6) A(10) [of i] A(11) [of i] B(10) [of i] that by auto
    show "own_ino cf (q_name q) w i \<or> w_next_ino w \<le> i" if "own_ino cf (q_name q) w2 i" for i
      using A(6) A(11) [of i] B(11) [of i] that by auto
    show "fd \<in> own_fds q \<or> w_fds w2 fd = w_fds w fd" if "fd < int (w_next_fd w)" for fd
      using A(7) A(12) [of fd] A(13) [of fd] B(12) [of fd] that by auto
    show "fd \<in> own_fds q \<or> int (w_next_fd w) \<le> fd" if "fd \<in> own_fds q2" for fd
      using A(7) A(13) [of fd] B(13) [of fd] that by auto
    show "Some m \<in> own_maps q \<or> w_maps w2 m = w_maps w m" if "m < w_next_map w" for m
      using A(8) A(14) [of m] A(15) [of "Some m"] B(14) [of m] that by auto
    show "k \<in> own_maps q \<or> (\<exists>n. k = Some n \<and> w_next_map w \<le> n)" if "k \<in> own_maps q2" for k
      using A(8) A(15) [of k] B(15) [of k] that by auto
  qed (use A(2-8) B(1-8) in simp_all)
qed

lemma own_ino_lookup: "own_path cf nm p \<Longrightarrow> lookup_path w p = Some (RegN i) \<Longrightarrow> own_ino cf nm w i"
  unfolding own_ino_def by blast

text \<open>Steps that only change the content of files of the queue, or only fields of the queue.\<close>

lemma evolves_files:
  assumes "\<And>p. lookup_path w' p = lookup_path w p" and "\<And>i. w_files w' i \<noteq> w_files w i \<Longrightarrow> own_ino cf (q_name q) w i"
    and "w_next_ino w' = w_next_ino w" "w_next_fd w' = w_next_fd w" "w_next_map w' = w_next_map w"
    and "\<And>fd. w_fds w' fd \<noteq> w_fds w fd \<Longrightarrow> fd \<in> own_fds q" and "w_maps w' = w_maps w"
    and "w_bavail w' = w_bavail w" "w_bsize w' = w_bsize w"
  shows "evolves cf q w q w'"
proof (rule evolvesI)
  show "own_ino cf (q_name q) w i \<or> w_next_ino w \<le> i" if "own_ino cf (q_name q) w' i" for i
    using that unfolding own_ino_def assms(1) by blast
qed (use assms in auto)

lemma evolves_queue:
  assumes "q_name q' = q_name q" "maxque q' = maxque q" "q_mutex q' = q_mutex q"
    and "own_fds q' \<subseteq> own_fds q" "own_maps q' \<subseteq> own_maps q"
  shows "evolves cf q w q' w"
  by (rule evolvesI) (use assms in auto)

end
