(* ===== verification/Fifo_Read.thy ===== *)
theory Fifo_Read
  imports Queue_Frame
begin

text \<open>
  Reading from a represented queue: the loop of \<^verbatim>\<open>mq_sm_get_data\<close> skips what is not a message,
  moves on to the next data file at the end of one, and returns the oldest message.
\<close>

abbreviation at_pos :: "mq_queue \<Rightarrow> u32 \<Rightarrow> mq_queue" where
  "at_pos q p \<equiv> upd_rdb (d_pos_update (\<lambda>_. p)) q"

section \<open>Inside one file\<close>

lemma unat_u32_small: "conf_ok cf \<Longrightarrow> n \<le> max_db cf + 12 \<Longrightarrow> unat (of_nat n :: u32) = n"
  using max_db_upper [of cf] by (simp add: unat_of_nat take_bit_nat_eq_self)

lemma of_nat_rpos: "of_nat (rpos_of q) = d_pos (cur_rdb q)"
  by (simp add: rpos_of_def)

lemma end_guard:
  assumes "conf_ok cf" and "unat p \<le> max_db cf"
  shows "(p + of_nat MSG_HEAD_LEN \<ge> (v :: u32)) = (unat v \<le> unat p + MSG_HEAD_LEN)"
  using unat_pos_head [OF assms] by (simp add: word_le_nat_alt MSG_HEAD_LEN_def)

text \<open>One step over a position without a magic number.\<close>

lemma get_data_step:
  assumes cf: "conf_ok cf" and m: "maps_db cf w (d_map_mem (cur_rdb q)) i"
    and p: "rpos_of q + MSG_HEAD_LEN < max_db cf" and nm: "no_magic (f_data (w_files w i)) (rpos_of q)"
    and g: "d_cur_index (cur_rdb q) \<noteq> d_cur_index (cur_wdb q) \<or> rpos_of q + MSG_HEAD_LEN < wpos_of q"
  shows "mq_sm_get_data cf item q w = mq_sm_get_data cf item (at_pos q (of_nat (Suc (rpos_of q)))) w"
proof -
  have "unat (d_pos (cur_rdb q)) \<le> max_db cf" using p by (simp add: rpos_of_def)
  then have "\<not> (d_cur_index (cur_rdb q) = d_cur_index (cur_wdb q)
      \<and> d_pos (cur_rdb q) + of_nat MSG_HEAD_LEN \<ge> d_pos (cur_wdb q))"
    using g end_guard [OF cf] by (auto simp: index_defs)
  moreover have "mq_sm_db_parse_msg cf w (d_map_mem (cur_rdb q)) (d_pos (cur_rdb q)) item
      = Some (MSG_CHECK_RET_MAG_NUM_ERR, item)"
    using p nm by (intro parse_msg_no_magic [OF cf m]) (simp_all add: rpos_of_def MSG_HEAD_LEN_def)
  ultimately have "mq_sm_get_data cf item q w = mq_sm_get_data cf item (upd_rdb (d_pos_update (\<lambda>p. p + 1)) q) w"
    by (subst mq_sm_get_data.simps) auto
  moreover have "upd_rdb (d_pos_update (\<lambda>p. p + 1)) q = at_pos q (of_nat (Suc (rpos_of q)))"
    by (simp add: rpos_of_def add.commute)
  ultimately show ?thesis by simp
qed

lemma get_data_skip:
  assumes cf: "conf_ok cf" and s: "s + MSG_HEAD_LEN < max_db cf"
  shows "\<lbrakk>maps_db cf w (d_map_mem (cur_rdb q)) i; skips (f_data (w_files w i)) (rpos_of q) s;
     d_cur_index (cur_rdb q) \<noteq> d_cur_index (cur_wdb q) \<or> s + MSG_HEAD_LEN < wpos_of q\<rbrakk> \<Longrightarrow>
     mq_sm_get_data cf item q w = mq_sm_get_data cf item (at_pos q (of_nat s)) w"
proof (induction "s - rpos_of q" arbitrary: q)
  case 0
  then have "rpos_of q = s" by (simp add: skips_def)
  then have "of_nat s = d_pos (cur_rdb q)" using of_nat_rpos [of q] by simp
  then have "at_pos q (of_nat s) = q" by simp
  then show ?case by simp
next
  case (Suc n)
  let ?q = "at_pos q (of_nat (Suc (rpos_of q)))"
  have lt: "rpos_of q < s" using Suc.hyps(2) by simp
  have r: "rpos_of ?q = Suc (rpos_of q)"
    using unat_u32_small [OF cf, of "Suc (rpos_of q)"] lt s by (simp add: rpos_of_def)
  have "mq_sm_get_data cf item q w = mq_sm_get_data cf item ?q w"
    using Suc.prems lt s by (intro get_data_step [OF cf]) (auto simp: skips_def)
  also have "\<dots> = mq_sm_get_data cf item (at_pos ?q (of_nat s)) w"
    using Suc.prems Suc.hyps(2) lt r by (intro Suc.hyps(1)) (auto simp: skips_def wpos_of_def)
  finally show ?case by simp
qed

text \<open>The message at the reading position.\<close>

lemma get_data_message:
  assumes cf: "conf_ok cf" and m: "maps_db cf w (d_map_mem (cur_rdb q)) i"
    and b: "0 < length b" and fit: "rpos_of q + MSG_HEAD_LEN + length b \<le> max_db cf"
    and enc: "bytes_at (f_data (w_files w i)) (rpos_of q) (MSG_HEAD_LEN + length b) = encode_msg d b"
    and g: "d_cur_index (cur_rdb q) \<noteq> d_cur_index (cur_wdb q) \<or> rpos_of q + MSG_HEAD_LEN < wpos_of q"
  obtains it where "mq_sm_get_data cf item q w = Some (True, it, get_data_advance it q, w)"
    and "len it = of_nat (length b)" and "msg it = InMap (d_map_mem (cur_rdb q)) (rpos_of q + MSG_HEAD_LEN)"
    and "delay it = d"
proof -
  have "unat (d_pos (cur_rdb q)) \<le> max_db cf" using fit by (simp add: rpos_of_def)
  then have ng: "\<not> (d_cur_index (cur_rdb q) = d_cur_index (cur_wdb q)
      \<and> d_pos (cur_rdb q) + of_nat MSG_HEAD_LEN \<ge> d_pos (cur_wdb q))"
    using g end_guard [OF cf] by (auto simp: index_defs)
  obtain it where p: "mq_sm_db_parse_msg cf w (d_map_mem (cur_rdb q)) (d_pos (cur_rdb q)) item
      = Some (MSG_CHECK_RET_OK, it)"
    and it: "len it = of_nat (length b)" "msg it = InMap (d_map_mem (cur_rdb q)) (rpos_of q + MSG_HEAD_LEN)"
      "delay it = d"
    using parse_msg_encoded [OF cf m b, of "d_pos (cur_rdb q)" d item] fit enc
    by (simp add: rpos_of_def)
  have "mq_sm_get_data cf item q w = Some (True, it, get_data_advance it q, w)"
    using ng p by (subst mq_sm_get_data.simps) auto
  then show ?thesis using it by (rule that)
qed

text \<open>The end of a file that is not the writer's.\<close>

lemma get_data_end_of_file:
  assumes cf: "conf_ok cf" and ne: "d_cur_index (cur_rdb q) \<noteq> d_cur_index (cur_wdb q)"
    and m: "maps_db cf w (d_map_mem (cur_rdb q)) i" and le: "rpos_of q \<le> max_db cf"
    and nm: "\<forall>j. rpos_of q \<le> j \<and> j + MSG_HEAD_LEN < max_db cf \<longrightarrow> no_magic (f_data (w_files w i)) j"
  obtains p where "mq_sm_get_data cf item q w = do {
        (ok, q', w') \<leftarrow> get_data_next_file cf (at_pos q p) w;
        if \<not> ok then Some (False, item, q', w') else mq_sm_get_data cf item q' w' }"
proof -
  define s where "s = max (rpos_of q) (max_db cf - MSG_HEAD_LEN - 1)"
  define t where "t = max (rpos_of q) (max_db cf - MSG_HEAD_LEN)"
  have big: "MSG_HEAD_LEN < max_db cf" using max_db_lower [OF cf] by (simp add: MSG_HEAD_LEN_def)
  have le2: "t \<le> max_db cf" "max_db cf \<le> t + MSG_HEAD_LEN" using le by (auto simp: t_def)
  have eq: "mq_sm_get_data cf item q w = mq_sm_get_data cf item (at_pos q (of_nat t)) w"
  proof (cases "rpos_of q + MSG_HEAD_LEN < max_db cf")
    case True
    then have s: "s + MSG_HEAD_LEN < max_db cf" "rpos_of q \<le> s" and st: "Suc s = t"
      using big by (auto simp: s_def t_def)
    have "skips (f_data (w_files w i)) (rpos_of q) s"
      using nm s by (simp add: skips_def)
    then have "mq_sm_get_data cf item q w = mq_sm_get_data cf item (at_pos q (of_nat s)) w"
      using get_data_skip [OF cf s(1) m] ne by simp
    moreover have r: "rpos_of (at_pos q (of_nat s)) = s"
      using unat_u32_small [OF cf, of s] s(1) by (simp add: rpos_of_def)
    moreover have "mq_sm_get_data cf item (at_pos q (of_nat s)) w
        = mq_sm_get_data cf item (at_pos (at_pos q (of_nat s)) (of_nat (Suc s))) w"
      using get_data_step [OF cf, of w "at_pos q (of_nat s)" i item] m nm s ne r by simp
    ultimately show ?thesis using st by simp
  next
    case False
    then have "t = rpos_of q" by (simp add: t_def)
    then show ?thesis by (simp add: of_nat_rpos)
  qed
  have u: "unat (of_nat t :: u32) = t" using unat_u32_small [OF cf, of t] le2 by simp
  have "mq_sm_db_parse_msg cf w (d_map_mem (cur_rdb q)) (of_nat t) item = Some (MSG_CHECK_RET_LEN_BEY, item)"
    using le2 u by (intro parse_msg_beyond [OF cf m]) (simp_all add: MSG_HEAD_LEN_def)
  then have "mq_sm_get_data cf item (at_pos q (of_nat t)) w = do {
        (ok, q', w') \<leftarrow> get_data_next_file cf (at_pos q (of_nat t)) w;
        if \<not> ok then Some (False, item, q', w') else mq_sm_get_data cf item q' w' }"
    using ne by (subst mq_sm_get_data.simps) simp
  with eq show ?thesis by (intro that) simp
qed

section \<open>Moving to the next file\<close>

lemma next_read_index:
  assumes "ri_of q < wi_of q"
  shows "d_cur_index (cur_rdb q) + 1 = of_nat (Suc (ri_of q))"
    and "unat (d_cur_index (cur_rdb q) + 1) = Suc (ri_of q)"
    and "\<not> d_cur_index (cur_rdb q) + 1 > d_cur_index (cur_wdb q)"
    and "d_cur_index (cur_rdb q) + 1 = d_cur_index (cur_wdb q) \<longleftrightarrow> Suc (ri_of q) = wi_of q"
proof -
  show e: "d_cur_index (cur_rdb q) + 1 = of_nat (Suc (ri_of q))" by (simp add: ri_of_def)
  have "Suc (ri_of q) < 2 ^ 64" using assms unat_u64_lt [of "d_cur_index (cur_wdb q)"] by (simp add: wi_of_def)
  then show u: "unat (d_cur_index (cur_rdb q) + 1) = Suc (ri_of q)"
    unfolding e by (simp only: unat_of_nat) (simp add: take_bit_nat_eq_self)
  show "\<not> d_cur_index (cur_rdb q) + 1 > d_cur_index (cur_wdb q)"
    using assms u by (simp add: word_less_nat_alt wi_of_def)
  show "d_cur_index (cur_rdb q) + 1 = d_cur_index (cur_wdb q) \<longleftrightarrow> Suc (ri_of q) = wi_of q"
    using u by (metis wi_of_def word_unat_eq_iff)
qed

text \<open>The world after the old rtag and data file of the reader are gone and the new rtag is written.\<close>

definition reader_moved :: "ucmq_conf \<Rightarrow> mq_queue \<Rightarrow> byte list \<Rightarrow> world \<Rightarrow> world" where
  "reader_moved cf q line w =
     (let p = rtag_path cf (q_name q) (Suc (ri_of q));
          w = fd_put (int (w_next_fd w)) \<lparr>o_ino = w_next_ino w, o_off = 0, o_append = False, o_nonblock = True\<rparr>
                line (tick (open_new p False w));
          w = sys_unlink (rtag_path cf (q_name q) (ri_of q)) (sys_close (rtag_fd q) w)
      in sys_unlink (db_path cf (q_name q) (ri_of q))
           (sys_close (d_fd (cur_rdb q)) (sys_munmap (d_map_mem (cur_rdb q)) w)))"

lemma get_next_read_file_eval:
  assumes "conf_ok cf" and "path_ok cf (q_name q)" and "w_faults w = []"
    and "has_dir w (queue_dir cf (q_name q))" and lt: "ri_of q < wi_of q"
    and free: "lookup_path w (rtag_path cf (q_name q) (Suc (ri_of q))) = None"
    and nxt: "Suc (ri_of q) < wi_of q \<Longrightarrow>
       lookup_path (reader_moved cf q line w) (db_path cf (q_name q) (Suc (ri_of q))) = Some (RegN i)
       \<and> f_size (w_files (reader_moved cf q line w) i) = max_db cf"
    and line: "line = rtag_line (q\<lparr>cur_rdb := (cur_rdb q)\<lparr>d_pos := of_nat DB_FILE_HEAD_LEN\<rparr>\<rparr>)"
    and flt: "w_faults (reader_moved cf q line w) = []"
  shows "get_next_read_file cf q w =
    (let q' = q\<lparr>rtag_fd := int (w_next_fd w),
               cur_rdb := (cur_rdb q)\<lparr>d_cur_index := of_nat (Suc (ri_of q)), d_opt_count := 0,
                 d_pos := of_nat DB_FILE_HEAD_LEN, d_flag := 1\<rparr>\<rparr>;
         w' = reader_moved cf q line w
     in if Suc (ri_of q) = wi_of q
        then (True, q'\<lparr>cur_rdb := (cur_rdb q')\<lparr>d_map_mem := d_map_mem (cur_wdb q), d_fd := d_fd (cur_wdb q)\<rparr>\<rparr>, w')
        else (True, q'\<lparr>cur_rdb := (cur_rdb q')\<lparr>d_map_mem := Some (w_next_map w'), d_fd := int (w_next_fd w')\<rparr>\<rparr>,
              db_open cf i w'))"
proof -
  let ?p = "rtag_path cf (q_name q) (Suc (ri_of q))" and ?fd = "int (w_next_fd w)"
  let ?d = "\<lparr>o_ino = w_next_ino w, o_off = 0, o_append = False, o_nonblock = True\<rparr>"
  have op: "mq_sm_rtag_open_next_file ?p w = (?fd, open_new ?p False w)"
    using sys_open_new [OF assms(3) free queue_parent_ok(2) [OF assms(2,4)], of False]
    by (simp add: mq_sm_rtag_open_next_file_def)
  have wr: "mq_sm_rtag_write_item q1 (open_new ?p False w) = (True, fd_put ?fd ?d line (tick (open_new ?p False w)))"
    if "rtag_fd q1 = ?fd" "rtag_line q1 = line" for q1
  proof -
    have "line \<noteq> []" by (simp add: line rtag_line_def)
    then show ?thesis
      using that write_n_ok [of "open_new ?p False w" ?fd ?d line READ_OPT_TIMEOUT] assms(3)
      by (simp add: mq_sm_rtag_write_item_def)
  qed
  have op2: "Suc (ri_of q) \<noteq> wi_of q \<Longrightarrow>
      mq_sm_open_db_file cf (db_path cf (q_name q) (Suc (ri_of q))) FOPEN_FLAG_OPEN (reader_moved cf q line w)
      = (Some (w_next_map (reader_moved cf q line w)), int (w_next_fd (reader_moved cf q line w)),
         db_open cf i (reader_moved cf q line w))"
    using nxt lt flt by (intro open_db_file_open [OF assms(1)]) auto
  have ri: "GEN_RTAG_FULL_PATH_BY_QNAME_INDEX cf (q_name q) (d_cur_index (cur_rdb q)) = rtag_path cf (q_name q) (ri_of q)"
    "GEN_DATA_FULL_PATH_BY_QNAME_INDEX cf (q_name q) (d_cur_index (cur_rdb q)) = db_path cf (q_name q) (ri_of q)"
    by (simp_all add: ri_of_def)
  show ?thesis
    using lt op op2 next_read_index(3,4) [OF lt]
    by (simp add: get_next_read_file_def Let_def ri next_read_index(1) [OF lt] wr line rtag_line_def
        reader_moved_def del: of_nat_Suc)
qed

lemma data_rep_lookup:
  "data_rep cf nm w ri wi rpos wpos ino seg \<Longrightarrow> n \<in> {ri..wi} \<Longrightarrow>
   lookup_path w (db_path cf nm n) = Some (RegN (ino n)) \<and> f_size (w_files w (ino n)) = max_db cf"
  by (simp add: data_rep_def)

lemma of_nat_u64_inj: "m < 2 ^ 64 \<Longrightarrow> n < 2 ^ 64 \<Longrightarrow> (of_nat m :: u64) = of_nat n \<longleftrightarrow> m = n"
  by (simp add: word_of_nat_eq_iff take_bit_nat_eq_self)

lemma index_range: "ri_of q < 2 ^ 64" "wi_of q < 2 ^ 64"
  using unat_u64_lt by (simp_all add: ri_of_def wi_of_def)

lemma rep_atD:
  assumes "rep_at cf q w ino seg"
  shows "conf_ok cf" "path_ok cf (q_name q)" "wf_world w" "w_faults w = []"
    "has_dir w (queue_dir cf (q_name q))" "ri_of q \<le> wi_of q" "rpos_of q \<le> max_db cf"
    "free_names cf (q_name q) w (ri_of q) (wi_of q)"
    "data_rep cf (q_name q) w (ri_of q) (wi_of q) (rpos_of q) (wpos_of q) ino seg"
    "handles_ok cf q w (ri_of q) (wi_of q) ino"
  using assms by (simp_all add: rep_at_def)

lemma tag_fdE:
  assumes "tag_fd w fd p" "wf_world w"
  obtains d where "w_fds w fd = Some d" "lookup_path w p = Some (RegN (o_ino d))" "o_nonblock d"
    "o_append d \<or> o_off d = f_size (w_files w (o_ino d))" "o_ino d < w_next_ino w" "0 \<le> fd" "fd < int (w_next_fd w)"
  using assms wf_world_fd unfolding tag_fd_def by blast

lemma maps_dbE:
  assumes "maps_db cf w m i" "wf_world w"
  obtains k mp where "m = Some k" "w_maps w k = Some mp" "m_ino mp = i" "k < w_next_map w" "i < w_next_ino w"
    "min (m_len mp) (f_size (w_files w i)) = max_db cf"
  using assms wf_world_map unfolding maps_db_def map_file_def by (auto split: option.splits)

lemma maps_db_cong:
  "maps_db cf w m i \<Longrightarrow> w_maps w' (the m) = w_maps w (the m) \<Longrightarrow> f_size (w_files w' i) = f_size (w_files w i) \<Longrightarrow>
   maps_db cf w' m i"
  by (auto simp: maps_db_def map_file_def split: option.splits)

lemma tag_fd_cong:
  "tag_fd w fd p \<Longrightarrow> w_fds w' fd = w_fds w fd \<Longrightarrow> lookup_path w' p = lookup_path w p \<Longrightarrow>
   (\<And>i. lookup_path w p = Some (RegN i) \<Longrightarrow> w_files w' i = w_files w i) \<Longrightarrow> tag_fd w' fd p"
  by (auto simp: tag_fd_def)

lemma reader_moved_views:
  fixes "line" :: "byte list"
  assumes rep: "rep_at cf q w ino seg" and lt: "ri_of q < wi_of q"
  defines "w' \<equiv> reader_moved cf q line w" and "nm \<equiv> q_name q"
  shows "lookup_path w' p = (if p = rtag_path cf nm (Suc (ri_of q)) then Some (RegN (w_next_ino w))
           else if p = rtag_path cf nm (ri_of q) \<or> p = db_path cf nm (ri_of q) then None else lookup_path w p)"
    and "w_files w' = (w_files w)(w_next_ino w := file_write empty_file 0 line)"
    and "w_fds w' = (w_fds w)(int (w_next_fd w) \<mapsto> \<lparr>o_ino = w_next_ino w, o_off = length line, o_append = False, o_nonblock = True\<rparr>,
           rtag_fd q := None, d_fd (cur_rdb q) := None)"
    and "w_maps w' = (w_maps w)(the (d_map_mem (cur_rdb q)) := None)"
    and "w_next_ino w' = Suc (w_next_ino w)" and "w_next_fd w' = Suc (w_next_fd w)"
    and "w_next_map w' = w_next_map w" and "w_faults w' = []" and "wf_world w'"
    and "w_bavail w' = w_bavail w" and "w_bsize w' = w_bsize w"
proof -
  note D = rep_atD [OF rep]
  have range: "Suc (ri_of q) < 2 ^ 64" using lt index_range(2) [of q] by simp
  have free: "lookup_path w (rtag_path cf nm (Suc (ri_of q))) = None"
    using D(8) range unfolding free_names_def nm_def by blast
  have neq: "(of_nat (Suc (ri_of q)) :: u64) \<noteq> of_nat (ri_of q)"
    using of_nat_u64_inj [of "Suc (ri_of q)" "ri_of q"] range by simp
  have paths: "rtag_path cf nm (ri_of q) \<noteq> rtag_path cf nm (Suc (ri_of q))"
      "db_path cf nm (ri_of q) \<noteq> rtag_path cf nm (Suc (ri_of q))" "db_path cf nm (ri_of q) \<noteq> rtag_path cf nm (ri_of q)"
    using D(2) neq unfolding nm_def by (simp_all del: of_nat_Suc)
  obtain i where rt: "lookup_path w (rtag_path cf nm (ri_of q)) = Some (RegN i)"
    using D(10) unfolding handles_ok_def tag_fd_def nm_def by blast
  have db: "lookup_path w (db_path cf nm (ri_of q)) = Some (RegN (ino (ri_of q)))"
    using data_rep_lookup [OF D(9), of "ri_of q"] D(6) unfolding nm_def by simp
  obtain k where m: "d_map_mem (cur_rdb q) = Some k"
    using D(10) maps_db_not_Null unfolding handles_ok_def by blast
  let ?d = "\<lparr>o_ino = w_next_ino w, o_off = 0, o_append = False, o_nonblock = True\<rparr>"
  have put: "w_files (fd_put fd ?d line v) = (w_files v)(w_next_ino w := file_write (w_files v (w_next_ino w)) 0 line)"
      "w_fds (fd_put fd ?d line v) = (w_fds v)(fd \<mapsto> ?d\<lparr>o_off := length line\<rparr>)" for fd v
    by (simp_all add: fd_put_def Let_def)
  show "lookup_path w' p = (if p = rtag_path cf nm (Suc (ri_of q)) then Some (RegN (w_next_ino w))
           else if p = rtag_path cf nm (ri_of q) \<or> p = db_path cf nm (ri_of q) then None else lookup_path w p)"
    using free paths rt db D(4) unfolding w'_def reader_moved_def Let_def nm_def [symmetric]
    by (simp del: of_nat_Suc)
  show "wf_world w'"
    using free D(3) unfolding w'_def reader_moved_def Let_def nm_def [symmetric]
    by (intro wf_effects) (simp_all del: of_nat_Suc)
  show "w_files w' = (w_files w)(w_next_ino w := file_write empty_file 0 line)"
    and "w_fds w' = (w_fds w)(int (w_next_fd w) \<mapsto> \<lparr>o_ino = w_next_ino w, o_off = length line, o_append = False, o_nonblock = True\<rparr>,
           rtag_fd q := None, d_fd (cur_rdb q) := None)"
    and "w_maps w' = (w_maps w)(the (d_map_mem (cur_rdb q)) := None)"
    and "w_next_ino w' = Suc (w_next_ino w)" and "w_next_fd w' = Suc (w_next_fd w)"
    and "w_next_map w' = w_next_map w" and "w_faults w' = []"
    and "w_bavail w' = w_bavail w" and "w_bsize w' = w_bsize w"
    using D(4) m put by (simp_all add: w'_def reader_moved_def Let_def)
qed

lemma data_rep_next:
  assumes rep: "rep_at cf q w ino seg" and lt: "ri_of q < wi_of q"
    and lk: "\<And>p. lookup_path v p = lookup_path (reader_moved cf q line w) p"
    and fl: "w_files v = w_files (reader_moved cf q line w)"
  shows "data_rep cf (q_name q) v (Suc (ri_of q)) (wi_of q) DB_FILE_HEAD_LEN (wpos_of q) ino seg"
  unfolding data_rep_def
proof (intro ballI)
  fix n
  assume n: "n \<in> {Suc (ri_of q)..wi_of q}"
  note D = rep_atD [OF rep] and V = reader_moved_views [OF rep lt, of "line"]
  have n': "n \<in> {ri_of q..wi_of q}" "n \<noteq> ri_of q" "n < 2 ^ 64" using n index_range(2) [of q] by auto
  have d: "lookup_path w (db_path cf (q_name q) n) = Some (RegN (ino n))" "f_size (w_files w (ino n)) = max_db cf"
    "\<exists>e. (n = wi_of q \<longrightarrow> e = wpos_of q) \<and> seg_ok cf (f_data (w_files w (ino n))) DB_FILE_HEAD_LEN (seg n) e"
    using bspec [OF D(9) [unfolded data_rep_def] n'(1)] n'(2) by simp_all
  have "ino n \<noteq> w_next_ino w" using wf_world_lookup [OF D(3) d(1)] by simp
  moreover have "db_path cf (q_name q) n \<noteq> db_path cf (q_name q) (ri_of q)"
    using D(2) n'(2,3) index_range(1) [of q] by (simp add: of_nat_u64_inj)
  ultimately show "lookup_path v (db_path cf (q_name q) n) = Some (RegN (ino n))
      \<and> f_size (w_files v (ino n)) = max_db cf
      \<and> (\<exists>e. (n = wi_of q \<longrightarrow> e = wpos_of q) \<and> seg_ok cf (f_data (w_files v (ino n)))
            (if n = Suc (ri_of q) then DB_FILE_HEAD_LEN else DB_FILE_HEAD_LEN) (seg n) e)"
    using d D(2) by (simp add: lk fl V(1,2) del: of_nat_Suc)
qed

lemma free_names_next:
  assumes rep: "rep_at cf q w ino seg" and lt: "ri_of q < wi_of q"
    and lk: "\<And>p. lookup_path v p = lookup_path (reader_moved cf q line w) p"
  shows "free_names cf (q_name q) v (Suc (ri_of q)) (wi_of q)"
    and "has_dir v (queue_dir cf (q_name q))"
proof -
  note D = rep_atD [OF rep] and V = reader_moved_views [OF rep lt, of "line"]
  have "Suc (ri_of q) < 2 ^ 64" using lt index_range(2) [of q] by simp
  then show "free_names cf (q_name q) v (Suc (ri_of q)) (wi_of q)"
    using D(8) D(2) unfolding free_names_def
    by (auto simp: lk V(1) of_nat_u64_inj simp del: of_nat_Suc)
  show "has_dir v (queue_dir cf (q_name q))"
    using D(5) paths_not_dir [OF D(2), THEN not_sym] by (simp add: has_dir_def lk V(1) del: of_nat_Suc)
qed

lemma tag_fd_new:
  assumes "w_fds w fd = Some \<lparr>o_ino = i, o_off = length line, o_append = False, o_nonblock = True\<rparr>"
    and "lookup_path w p = Some (RegN i)" and "w_files w i = file_write empty_file 0 line"
  shows "tag_fd w fd p"
  using assms by (simp add: tag_fd_def file_write_def empty_file_def)

lemma handlesD:
  assumes rep: "rep_at cf q w ino seg"
  shows "maps_db cf w (d_map_mem (cur_rdb q)) (ino (ri_of q))" "maps_db cf w (d_map_mem (cur_wdb q)) (ino (wi_of q))"
    "d_map_mem (cur_rdb q) = d_map_mem (cur_wdb q) \<longleftrightarrow> ri_of q = wi_of q"
    "tag_fd w (rtag_fd q) (rtag_path cf (q_name q) (ri_of q))"
    "tag_fd w (wtag_fd q) (wtag_path cf (q_name q) (wi_of q))"
    "rtag_fd q \<noteq> wtag_fd q" "d_fd (cur_rdb q) \<noteq> rtag_fd q" "d_fd (cur_rdb q) \<noteq> wtag_fd q"
    "d_fd (cur_wdb q) \<noteq> rtag_fd q" "d_fd (cur_wdb q) \<noteq> wtag_fd q"
    "d_fd (cur_rdb q) < int (w_next_fd w)" "d_fd (cur_wdb q) < int (w_next_fd w)"
    "rtag_fd q < int (w_next_fd w)" "wtag_fd q < int (w_next_fd w)"
    "\<exists>k. d_map_mem (cur_rdb q) = Some k \<and> k < w_next_map w" "\<exists>k. d_map_mem (cur_wdb q) = Some k \<and> k < w_next_map w"
proof -
  have H: "handles_ok cf q w (ri_of q) (wi_of q) ino" and wf: "wf_world w" using rep_atD [OF rep] by simp_all
  show m: "maps_db cf w (d_map_mem (cur_rdb q)) (ino (ri_of q))" "maps_db cf w (d_map_mem (cur_wdb q)) (ino (wi_of q))"
    and t: "tag_fd w (rtag_fd q) (rtag_path cf (q_name q) (ri_of q))"
    "tag_fd w (wtag_fd q) (wtag_path cf (q_name q) (wi_of q))"
    using H unfolding handles_ok_def by blast+
  show "\<exists>k. d_map_mem (cur_rdb q) = Some k \<and> k < w_next_map w" using maps_dbE [OF m(1) wf] by blast
  show "\<exists>k. d_map_mem (cur_wdb q) = Some k \<and> k < w_next_map w" using maps_dbE [OF m(2) wf] by blast
  show "rtag_fd q < int (w_next_fd w)" using tag_fdE [OF t(1) wf] by blast
  show "wtag_fd q < int (w_next_fd w)" using tag_fdE [OF t(2) wf] by blast
qed (use rep in \<open>auto simp: rep_at_def handles_ok_def\<close>)

lemma reader_moved_handles:
  fixes "line" :: "byte list"
  assumes rep: "rep_at cf q w ino seg" and lt: "ri_of q < wi_of q"
  defines "w' \<equiv> reader_moved cf q line w"
  shows "tag_fd w' (int (w_next_fd w)) (rtag_path cf (q_name q) (Suc (ri_of q)))"
    and "tag_fd w' (wtag_fd q) (wtag_path cf (q_name q) (wi_of q))"
    and "maps_db cf w' (d_map_mem (cur_wdb q)) (ino (wi_of q))"
proof -
  note D = rep_atD [OF rep] and H = handlesD [OF rep] and V = reader_moved_views [OF rep lt, of "line"]
  show "tag_fd w' (int (w_next_fd w)) (rtag_path cf (q_name q) (Suc (ri_of q)))"
    unfolding w'_def by (rule tag_fd_new [where i = "w_next_ino w" and line = "line"]) (use H(11,13) in \<open>simp_all add: V(1-3) del: of_nat_Suc\<close>)
  obtain i where d: "lookup_path w (wtag_path cf (q_name q) (wi_of q)) = Some (RegN i)" "i < w_next_ino w"
    by (rule tag_fdE [OF H(5) D(3)]) blast
  show "tag_fd w' (wtag_fd q) (wtag_path cf (q_name q) (wi_of q))"
    using H(5) unfolding w'_def
    by (rule tag_fd_cong) (use H d D(2) in \<open>auto simp: V(1-3) simp del: of_nat_Suc\<close>)
  have "ino (wi_of q) < w_next_ino w" by (rule maps_dbE [OF H(2) D(3)])
  then show "maps_db cf w' (d_map_mem (cur_wdb q)) (ino (wi_of q))"
    using H(2) unfolding w'_def
    by (rule_tac maps_db_cong) (use H(3,15,16) lt in \<open>auto simp: V(2,4)\<close>)
qed

lemma tag_fd_db_open: "tag_fd w fd p \<Longrightarrow> fd \<noteq> int (w_next_fd w) \<Longrightarrow> tag_fd (db_open cf i w) fd p"
  by (rule tag_fd_cong) auto

lemma maps_db_db_open:
  "maps_db cf w m k \<Longrightarrow> m \<noteq> Some (w_next_map w) \<Longrightarrow> maps_db cf (db_open cf i w) m k"
  by (auto simp: maps_db_def map_file_def split: option.splits)

lemma maps_db_open_new:
  "f_size (w_files w i) = max_db cf \<Longrightarrow> maps_db cf (db_open cf i w) (Some (w_next_map w)) i"
  by (simp add: maps_db_def map_file_def)

lemma next_read_rep:
  assumes rep: "rep_at cf q w ino seg" and lt: "ri_of q < wi_of q"
  obtains q' w' where "get_next_read_file cf q w = (True, q', w')" and "rep_at cf q' w' ino seg"
    and "ri_of q' = Suc (ri_of q)" and "wi_of q' = wi_of q"
    and "put_num q' = put_num q" "get_num q' = get_num q" and "evolves cf q w q' w'"
proof -
  note D = rep_atD [OF rep] and H = handlesD [OF rep]
  define line where "line = rtag_line (q\<lparr>cur_rdb := (cur_rdb q)\<lparr>d_pos := of_nat DB_FILE_HEAD_LEN\<rparr>\<rparr>)"
  note V = reader_moved_views [OF rep lt, of "line"] and T = reader_moved_handles [OF rep lt, of "line"]
  define v where "v = reader_moved cf q line w"
  let ?i = "ino (Suc (ri_of q))"
  define q1 where "q1 = q\<lparr>rtag_fd := int (w_next_fd w),
      cur_rdb := (cur_rdb q)\<lparr>d_cur_index := of_nat (Suc (ri_of q)), d_opt_count := 0,
        d_pos := of_nat DB_FILE_HEAD_LEN, d_flag := 1\<rparr>\<rparr>"
  define q' where "q' = (if Suc (ri_of q) = wi_of q
      then q1\<lparr>cur_rdb := (cur_rdb q1)\<lparr>d_map_mem := d_map_mem (cur_wdb q), d_fd := d_fd (cur_wdb q)\<rparr>\<rparr>
      else q1\<lparr>cur_rdb := (cur_rdb q1)\<lparr>d_map_mem := Some (w_next_map v), d_fd := int (w_next_fd v)\<rparr>\<rparr>)"
  define w' where "w' = (if Suc (ri_of q) = wi_of q then v else db_open cf ?i v)"
  have nf: "lookup_path v (db_path cf (q_name q) (Suc (ri_of q))) = Some (RegN ?i)" "f_size (w_files v ?i) = max_db cf"
    using data_rep_lookup [OF data_rep_next [OF rep lt, of v "line"], of "Suc (ri_of q)"] lt
    by (simp_all add: v_def del: of_nat_Suc)
  have free: "lookup_path w (rtag_path cf (q_name q) (Suc (ri_of q))) = None"
    using D(8) lt index_range(2) [of q] unfolding free_names_def by (simp del: of_nat_Suc)
  have ev: "get_next_read_file cf q w = (True, q', w')"
    using get_next_read_file_eval [OF D(1,2,4,5) lt free _ line_def V(8), of ?i] nf
    by (simp add: q'_def w'_def q1_def v_def Let_def del: of_nat_Suc)
  have ix: "ri_of q' = Suc (ri_of q)" "wi_of q' = wi_of q" "rpos_of q' = DB_FILE_HEAD_LEN" "wpos_of q' = wpos_of q"
    "q_name q' = q_name q" "wtag_fd q' = wtag_fd q" "rtag_fd q' = int (w_next_fd w)" "cur_wdb q' = cur_wdb q"
    using next_read_index(2) [OF lt] unfolding next_read_index(1) [OF lt]
    by (simp_all add: q'_def q1_def index_defs store_consts del: of_nat_Suc)
  have lk: "lookup_path w' p = lookup_path v p" "w_files w' = w_files v" for p by (simp_all add: w'_def)
  have dr: "data_rep cf (q_name q) w' (Suc (ri_of q)) (wi_of q) DB_FILE_HEAD_LEN (wpos_of q) ino seg"
    by (rule data_rep_next [OF rep lt, of _ "line"]) (simp_all add: lk v_def)
  have fn: "free_names cf (q_name q) w' (Suc (ri_of q)) (wi_of q)" "has_dir w' (queue_dir cf (q_name q))"
    by (rule free_names_next [OF rep lt, of _ "line"], simp add: lk v_def)+
  have wf: "wf_world w'" using V(9) wf_world_lookup [OF V(9)] nf unfolding w'_def v_def by (auto intro!: wf_db_open)
  have ho: "handles_ok cf q' w' (Suc (ri_of q)) (wi_of q) ino"
  proof (cases "Suc (ri_of q) = wi_of q")
    case True
    then show ?thesis
      using T H V(6) ix by (auto simp: handles_ok_def w'_def v_def q'_def q1_def simp del: of_nat_Suc)
  next
    case False
    have "maps_db cf w' (Some (w_next_map v)) ?i" using False nf(2) by (simp add: w'_def maps_db_open_new)
    moreover have "maps_db cf w' (d_map_mem (cur_wdb q)) (ino (wi_of q))" "d_map_mem (cur_wdb q) \<noteq> Some (w_next_map v)"
      using False T(3) H(16) V(7) by (auto simp: w'_def v_def intro!: maps_db_db_open)
    moreover have "tag_fd w' (int (w_next_fd w)) (rtag_path cf (q_name q) (Suc (ri_of q)))"
        "tag_fd w' (wtag_fd q) (wtag_path cf (q_name q) (wi_of q))"
      using False T(1,2) H(14) V(6) by (auto simp: w'_def v_def intro!: tag_fd_db_open simp del: of_nat_Suc)
    ultimately show ?thesis
      using False H(10,12,14) V(6) ix(5-8) unfolding handles_ok_def
      by (simp add: q'_def q1_def w'_def v_def del: of_nat_Suc)
  qed
  have "DB_FILE_HEAD_LEN \<le> max_db cf" using max_db_lower [OF D(1)] by (simp add: store_consts)
  then have "rep_at cf q' w' ino seg"
    using D(1,2) dr fn wf ho lt V(8) by (simp add: rep_at_def ix) (simp add: w'_def v_def)
  moreover have "evolves cf q w q' w'"
  proof (rule evolvesI)
    have op: "own_path cf (q_name q) (rtag_path cf (q_name q) (Suc (ri_of q)))"
      "own_path cf (q_name q) (rtag_path cf (q_name q) (ri_of q))" "own_path cf (q_name q) (db_path cf (q_name q) (ri_of q))"
      using D(2) by (simp_all del: of_nat_Suc)
    show lw: "own_path cf (q_name q) p \<or> lookup_path w' p = lookup_path w p" for p
      using op by (auto simp: lk v_def V(1) simp del: of_nat_Suc)
    show "own_ino cf (q_name q) w i \<or> w_next_ino w \<le> i" if "own_ino cf (q_name q) w' i" for i
      using that unfolding own_ino_def lk v_def V(1) by (auto split: if_splits simp del: of_nat_Suc)
    show "fd \<in> own_fds q \<or> w_fds w' fd = w_fds w fd" if "fd < int (w_next_fd w)" for fd
      using that V(6) by (auto simp: w'_def v_def V(3) own_fds_def)
    show "Some m \<in> own_maps q \<or> w_maps w' m = w_maps w m" if "m < w_next_map w" for m
      using that V(7) H(15) by (auto simp: w'_def v_def V(4) own_maps_def)
  qed (use V(2,5-7,10,11) in \<open>auto simp: q'_def q1_def w'_def v_def own_fds_def own_maps_def split: if_splits\<close>)
  ultimately show ?thesis
    using ev ix by (intro that [of q' w']) (simp_all add: q'_def q1_def)
qed

section \<open>Getting the oldest message\<close>

lemma rep_at_mutex [simp]: "rep_at cf (q\<lparr>q_mutex := m\<rparr>) w ino seg \<longleftrightarrow> rep_at cf q w ino seg"
  by (simp add: rep_at_def handles_ok_def index_defs)

lemma get_next_read_file_pos:
  assumes "get_next_read_file cf q w = (True, q', w')"
  shows "get_next_read_file cf (at_pos q p) w = (True, q', w')"
  using assms unfolding get_next_read_file_def Let_def
  by (auto simp: mq_sm_rtag_write_item_def rtag_line_def split: if_splits prod.splits)

lemma next_file_rep:
  assumes rep: "rep_at cf q w ino seg" and lt: "ri_of q < wi_of q" and mu: "\<not> q_mutex q"
  obtains q' w' where "\<forall>p. get_data_next_file cf (at_pos q p) w = Some (True, q', w')"
    and "rep_at cf q' w' ino seg" and "ri_of q' = Suc (ri_of q)" and "wi_of q' = wi_of q"
    and "put_num q' = put_num q" "get_num q' = get_num q" and "evolves cf q w q' w'"
proof -
  let ?q = "q\<lparr>q_mutex := True\<rparr>"
  have "rep_at cf ?q w ino seg" "ri_of ?q < wi_of ?q" using rep lt by (simp_all add: index_defs)
  then obtain q' w' where n: "get_next_read_file cf ?q w = (True, q', w')"
      "rep_at cf q' w' ino seg" "ri_of q' = Suc (ri_of ?q)" "wi_of q' = wi_of ?q"
      "put_num q' = put_num ?q" "get_num q' = get_num ?q" "evolves cf ?q w q' w'"
    by (rule next_read_rep)
  have "evolves cf q w (q'\<lparr>q_mutex := False\<rparr>) w'"
    using n(7) mu unfolding evolves_def by (simp add: own_fds_def own_maps_def)
  then show ?thesis
  proof (rule that [rotated -1, of "q'\<lparr>q_mutex := False\<rparr>" w'])
    show "\<forall>p. get_data_next_file cf (at_pos q p) w = Some (True, q'\<lparr>q_mutex := False\<rparr>, w')"
    proof
      fix p
      have e: "(at_pos q p)\<lparr>q_mutex := True\<rparr> = at_pos ?q p" by simp
      have "get_next_read_file cf ((at_pos q p)\<lparr>q_mutex := True\<rparr>) w = (True, q', w')"
        unfolding e by (rule get_next_read_file_pos [OF n(1)])
      then show "get_data_next_file cf (at_pos q p) w = Some (True, q'\<lparr>q_mutex := False\<rparr>, w')"
        using mu by (simp add: get_data_next_file_def mutex_lock_def mutex_unlock_def)
    qed
  qed (use n in \<open>simp_all add: index_defs\<close>)
qed

lemma messages_empty_seg:
  "seg (ri_of q) = [] \<Longrightarrow> ri_of q < wi_of q \<Longrightarrow>
   messages q seg = concat (map seg [Suc (ri_of q)..<Suc (wi_of q)])"
  by (simp add: upt_conv_Cons)

lemma messages_upd_head:
  "ri_of q \<le> wi_of q \<Longrightarrow> seg (ri_of q) = m # ms \<Longrightarrow>
   messages q seg = m # concat (map (seg(ri_of q := ms)) [ri_of q..<Suc (wi_of q)])"
  by (simp add: upt_conv_Cons del: upt_Suc)

lemma advance_simps [simp]:
  "cur_wdb (get_data_advance it q) = cur_wdb q" "q_name (get_data_advance it q) = q_name q"
  "rtag_fd (get_data_advance it q) = rtag_fd q" "wtag_fd (get_data_advance it q) = wtag_fd q"
  "maxque (get_data_advance it q) = maxque q" "q_mutex (get_data_advance it q) = q_mutex q"
  "cur_rdb (get_data_advance it q) = (cur_rdb q)\<lparr>d_pos := d_pos (cur_rdb q) + (len it + of_nat MSG_HEAD_LEN),
     d_opt_count := d_opt_count (cur_rdb q) + 1\<rparr>"
  by (simp_all add: get_data_advance_def Let_def)

lemma advance_count:
  "put_num (get_data_advance it q) - get_num (get_data_advance it q) = put_num q - get_num q - 1"
  by (simp add: get_data_advance_def Let_def)

lemma rep_at_advance:
  assumes rep: "rep_at cf q w ino seg" and e: "ri_of q = wi_of q \<longrightarrow> e = wpos_of q"
    and ok: "seg_ok cf (f_data (w_files w (ino (ri_of q)))) p ms e" and p: "p \<le> max_db cf"
    and q': "q_name q' = q_name q" "rtag_fd q' = rtag_fd q" "wtag_fd q' = wtag_fd q" "cur_wdb q' = cur_wdb q"
      "d_cur_index (cur_rdb q') = d_cur_index (cur_rdb q)" "d_fd (cur_rdb q') = d_fd (cur_rdb q)"
      "d_map_mem (cur_rdb q') = d_map_mem (cur_rdb q)" "rpos_of q' = p"
  shows "rep_at cf q' w ino (seg(ri_of q := ms))"
proof -
  have ix: "ri_of q' = ri_of q" "wi_of q' = wi_of q" "wpos_of q' = wpos_of q" using q' by (simp_all add: index_defs)
  have "data_rep cf (q_name q) w (ri_of q) (wi_of q) p (wpos_of q) ino (seg(ri_of q := ms))"
    unfolding data_rep_def
  proof (intro ballI)
    fix n
    assume n: "n \<in> {ri_of q..wi_of q}"
    show "lookup_path w (db_path cf (q_name q) n) = Some (RegN (ino n)) \<and> f_size (w_files w (ino n)) = max_db cf
      \<and> (\<exists>e. (n = wi_of q \<longrightarrow> e = wpos_of q) \<and> seg_ok cf (f_data (w_files w (ino n)))
            (if n = ri_of q then p else DB_FILE_HEAD_LEN) ((seg(ri_of q := ms)) n) e)"
      using bspec [OF rep_atD(9) [OF rep, unfolded data_rep_def] n] e ok by (cases "n = ri_of q") auto
  qed
  then show ?thesis
    using rep p q' unfolding rep_at_def ix by (simp add: handles_ok_def)
qed

lemma encode_msg_body:
  assumes "bytes_at f s (MSG_HEAD_LEN + length b) = encode_msg d b"
  shows "bytes_at f (s + MSG_HEAD_LEN) (length b) = b"
proof -
  have "drop MSG_HEAD_LEN (bytes_at f s (MSG_HEAD_LEN + length b)) = bytes_at f (s + MSG_HEAD_LEN) (length b)"
    by (simp add: bytes_at_add)
  moreover have "drop MSG_HEAD_LEN (encode_msg d b) = b" by (simp add: encode_msg_def MSG_HEAD_LEN_def)
  ultimately show ?thesis using assms by simp
qed

text \<open>The file the reader is in has a message.\<close>

lemma get_data_here:
  assumes rep: "rep_at cf q w ino seg" and seg: "seg (ri_of q) = (d, b) # ms"
  obtains it q' where "mq_sm_get_data cf item q w = Some (True, it, q', w)"
    and "rep_at cf q' w ino (seg(ri_of q := ms))" "ri_of q' = ri_of q" "wi_of q' = wi_of q"
    and "len it = of_nat (length b)" "delay it = d" "load_msg w (msg it) (unat (len it)) = Some b"
    and "put_num q' - get_num q' = put_num q - get_num q - 1" and "evolves cf q w q' w"
    and "\<exists>off. msg it = InMap (d_map_mem (cur_rdb q')) off"
proof -
  note D = rep_atD [OF rep] and H = handlesD [OF rep]
  let ?f = "f_data (w_files w (ino (ri_of q)))"
  obtain e where e: "ri_of q = wi_of q \<longrightarrow> e = wpos_of q" "seg_ok cf ?f (rpos_of q) ((d, b) # ms) e"
    using bspec [OF D(9) [unfolded data_rep_def], of "ri_of q"] D(6) seg by auto
  obtain s where s: "DB_FILE_HEAD_LEN \<le> s" "skips ?f (rpos_of q) s" "0 < length b"
      "bytes_at ?f s (MSG_HEAD_LEN + length b) = encode_msg d b" "s + MSG_HEAD_LEN + length b \<le> e"
      "seg_ok cf ?f (s + MSG_HEAD_LEN + length b) ms e"
    by (rule seg_ok_Cons [OF e(2)])
  have le: "e \<le> max_db cf" using seg_ok_end [OF e(2)] by simp
  let ?q = "at_pos q (of_nat s)"
  have rp: "rpos_of ?q = s" using unat_u32_small [OF D(1), of s] s(5) le by (simp add: rpos_of_def)
  have g: "d_cur_index (cur_rdb q) \<noteq> d_cur_index (cur_wdb q) \<or> s + MSG_HEAD_LEN < wpos_of q"
  proof (cases "ri_of q = wi_of q")
    case True
    then show ?thesis using e(1) s(3,5) by linarith
  qed (auto simp: ri_of_def wi_of_def)
  have "mq_sm_get_data cf item q w = mq_sm_get_data cf item ?q w"
    by (rule get_data_skip [OF D(1) _ H(1) s(2) g]) (use s(3,5) le in linarith)
  moreover obtain it where it: "mq_sm_get_data cf item ?q w = Some (True, it, get_data_advance it ?q, w)"
      "len it = of_nat (length b)" "msg it = InMap (d_map_mem (cur_rdb ?q)) (rpos_of ?q + MSG_HEAD_LEN)" "delay it = d"
  proof (rule get_data_message [OF D(1)])
    show "maps_db cf w (d_map_mem (cur_rdb ?q)) (ino (ri_of q))" using H(1) by simp
    show "bytes_at ?f (rpos_of ?q) (MSG_HEAD_LEN + length b) = encode_msg d b" using s(4) rp by simp
  qed (use s(3,5) le g rp in \<open>auto simp: wpos_of_def\<close>)
  ultimately have ev: "mq_sm_get_data cf item q w = Some (True, it, get_data_advance it ?q, w)" by simp
  have lb: "unat (len it) = length b" using unat_u32_small [OF D(1), of "length b"] s(5) le it(2) by simp
  have "load_msg w (msg it) (unat (len it)) = Some (bytes_at ?f (s + MSG_HEAD_LEN) (length b))"
    using H(1) s(5) le lb rp it(3) by (auto simp: load_msg_def mem_load_def maps_db_def split: option.splits)
  also have "bytes_at ?f (s + MSG_HEAD_LEN) (length b) = b"
    by (rule encode_msg_body [OF s(4)])
  finally have ld: "load_msg w (msg it) (unat (len it)) = Some b" .
  have dp: "d_pos (cur_rdb (get_data_advance it ?q)) = of_nat (s + MSG_HEAD_LEN + length b)"
    using it(2) by simp
  have rp': "rpos_of (get_data_advance it ?q) = s + MSG_HEAD_LEN + length b"
    unfolding rpos_of_def dp using s(5) le by (intro unat_u32_small [OF D(1)]) simp
  have "rep_at cf (get_data_advance it ?q) w ino (seg(ri_of q := ms))"
    by (rule rep_at_advance [OF rep e(1) s(6)]) (use s(5) le rp' in auto)
  moreover have "evolves cf q w (get_data_advance it ?q) w"
    by (rule evolves_queue) (simp_all add: own_fds_def own_maps_def)
  ultimately show ?thesis
    using advance_count [of it ?q] it(3)
    by (intro that [OF ev _ _ _ it(2,4) ld]) (simp_all add: ri_of_def wi_of_def)
qed

text \<open>
  The oldest message may be some files further on: the files before it hold no message, and the
  loop removes them on its way.
\<close>

lemma get_data_rep:
  assumes "rep_at cf q w ino seg" and "\<not> q_mutex q" and "messages q seg = (d, b) # ms"
  obtains it q' w' seg' where "mq_sm_get_data cf item q w = Some (True, it, q', w')"
    and "rep_at cf q' w' ino seg'" "messages q' seg' = ms"
    and "len it = of_nat (length b)" "delay it = d" "load_msg w' (msg it) (unat (len it)) = Some b"
    and "put_num q' - get_num q' = put_num q - get_num q - 1" and "evolves cf q w q' w'"
    and "\<exists>off. msg it = InMap (d_map_mem (cur_rdb q')) off" "wi_of q' = wi_of q"
  using assms
proof (induction "wi_of q - ri_of q" arbitrary: q w thesis)
  case (0 q w)
  note D = rep_atD [OF 0(3)]
  have "ri_of q = wi_of q" using 0(1) D(6) by simp
  then have sg: "seg (ri_of q) = (d, b) # ms" using 0(5) by simp
  obtain it q' where g: "mq_sm_get_data cf item q w = Some (True, it, q', w)"
      "rep_at cf q' w ino (seg(ri_of q := ms))" "ri_of q' = ri_of q" "wi_of q' = wi_of q"
      "len it = of_nat (length b)" "delay it = d" "load_msg w (msg it) (unat (len it)) = Some b"
      "put_num q' - get_num q' = put_num q - get_num q - 1" "evolves cf q w q' w"
      "\<exists>off. msg it = InMap (d_map_mem (cur_rdb q')) off"
    by (rule get_data_here [OF 0(3) sg])
  show ?case by (rule 0(2) [OF g(1,2)]) (use g \<open>ri_of q = wi_of q\<close> in simp_all)
next
  case (Suc n q w)
  note D = rep_atD [OF Suc(4)] and H = handlesD [OF Suc(4)]
  have lt: "ri_of q < wi_of q" using Suc(2) by simp
  show ?case
  proof (cases "seg (ri_of q)")
    case (Cons m ms')
    have me: "m = (d, b)" "ms = concat (map (seg(ri_of q := ms')) [ri_of q..<Suc (wi_of q)])"
      using messages_upd_head [of q seg, OF D(6) Cons] Suc(6) by simp_all
    obtain it q' where g: "mq_sm_get_data cf item q w = Some (True, it, q', w)"
        "rep_at cf q' w ino (seg(ri_of q := ms'))" "ri_of q' = ri_of q" "wi_of q' = wi_of q"
        "len it = of_nat (length b)" "delay it = d" "load_msg w (msg it) (unat (len it)) = Some b"
        "put_num q' - get_num q' = put_num q - get_num q - 1" "evolves cf q w q' w"
        "\<exists>off. msg it = InMap (d_map_mem (cur_rdb q')) off"
      by (rule get_data_here [OF Suc(4) Cons [unfolded me(1)]])
    show ?thesis by (rule Suc(3) [OF g(1,2)]) (use g me(2) in simp_all)
  next
    case Nil
    have ne: "d_cur_index (cur_rdb q) \<noteq> d_cur_index (cur_wdb q)" using lt by (auto simp: index_defs)
    obtain e where "seg_ok cf (f_data (w_files w (ino (ri_of q)))) (rpos_of q) [] e"
      using bspec [OF D(9) [unfolded data_rep_def], of "ri_of q"] D(6) Nil by auto
    then have nm: "\<forall>j. rpos_of q \<le> j \<and> j + MSG_HEAD_LEN < max_db cf \<longrightarrow> no_magic (f_data (w_files w (ino (ri_of q)))) j"
      using seg_ok_empty by blast
    obtain p where p: "mq_sm_get_data cf item q w = do {
        (ok, q', w') \<leftarrow> get_data_next_file cf (at_pos q p) w;
        if \<not> ok then Some (False, item, q', w') else mq_sm_get_data cf item q' w' }"
      by (rule get_data_end_of_file [OF D(1) ne H(1) D(7) nm])
    obtain q1 w1 where n: "\<forall>p. get_data_next_file cf (at_pos q p) w = Some (True, q1, w1)"
        "rep_at cf q1 w1 ino seg" "ri_of q1 = Suc (ri_of q)" "wi_of q1 = wi_of q"
        "put_num q1 = put_num q" "get_num q1 = get_num q" "evolves cf q w q1 w1"
      by (rule next_file_rep [OF Suc(4) lt Suc(5)])
    have "mq_sm_get_data cf item q w = mq_sm_get_data cf item q1 w1" using p n(1) by simp
    moreover have "n = wi_of q1 - ri_of q1" using n(3,4) Suc(2) by simp
    moreover have "messages q1 seg = (d, b) # ms" using messages_empty_seg [of seg, OF Nil lt] Suc(6) n(3,4) by simp
    moreover have "\<not> q_mutex q1" using evolvesD(3) [OF n(7)] Suc(5) by simp
    ultimately show ?thesis
      using Suc(1) [of q1 w1] Suc(3) n(2,4,5,6) evolves_trans [OF n(7)] by metis
  qed
qed

end
