(* ===== verification/Fifo_Tags.thy ===== *)
theory Fifo_Tags
  imports Fifo_Read
begin

text \<open>
  Writing a line of a tag file does not change the messages a queue represents, and leaves
  everything outside the queue alone.
\<close>

definition tag_put :: "int \<Rightarrow> byte list \<Rightarrow> world \<Rightarrow> world" where
  "tag_put fd line w = fd_put fd (the (w_fds w fd)) line (tick w)"

lemma tag_put_simps [simp]:
  "lookup_path (tag_put fd line w) p = lookup_path w p" "w_maps (tag_put fd line w) = w_maps w"
  "w_next_ino (tag_put fd line w) = w_next_ino w" "w_next_fd (tag_put fd line w) = w_next_fd w"
  "w_next_map (tag_put fd line w) = w_next_map w" "w_faults (tag_put fd line w) = w_faults w"
  "w_bavail (tag_put fd line w) = w_bavail w" "w_bsize (tag_put fd line w) = w_bsize w"
  "i \<noteq> o_ino (the (w_fds w fd)) \<Longrightarrow> w_files (tag_put fd line w) i = w_files w i"
  "fd' \<noteq> fd \<Longrightarrow> w_fds (tag_put fd line w) fd' = w_fds w fd'"
  by (simp_all add: tag_put_def fd_put_def Let_def) (simp_all add: lookup_path_def)

lemma wf_tag_put: "wf_world w \<Longrightarrow> w_fds w fd = Some d \<Longrightarrow> wf_world (tag_put fd line w)"
  unfolding tag_put_def by (intro wf_effects) simp_all

lemma tag_put_tag_fd:
  assumes "tag_fd w fd p"
  shows "tag_fd (tag_put fd line w) fd p"
  using assms unfolding tag_fd_def tag_put_def fd_put_def Let_def
  by (auto simp: file_write_def lookup_path_def)

lemma tag_write_items:
  assumes "w_faults w = []"
  shows "tag_fd w (rtag_fd q) p \<Longrightarrow> mq_sm_rtag_write_item q w = (True, tag_put (rtag_fd q) (rtag_line q) w)"
    and "tag_fd w (wtag_fd q) p \<Longrightarrow> mq_sm_wtag_write_item q w = (True, tag_put (wtag_fd q) (wtag_line q) w)"
proof -
  assume "tag_fd w (rtag_fd q) p"
  then obtain d where "w_fds w (rtag_fd q) = Some d" "o_nonblock d" unfolding tag_fd_def by blast
  moreover have "rtag_line q \<noteq> []" by (simp add: rtag_line_def)
  ultimately show "mq_sm_rtag_write_item q w = (True, tag_put (rtag_fd q) (rtag_line q) w)"
    using write_n_ok [OF assms] by (simp add: mq_sm_rtag_write_item_def tag_put_def)
next
  assume "tag_fd w (wtag_fd q) p"
  then obtain d where "w_fds w (wtag_fd q) = Some d" "o_nonblock d" unfolding tag_fd_def by blast
  moreover have "wtag_line q \<noteq> []" by (simp add: wtag_line_def)
  ultimately show "mq_sm_wtag_write_item q w = (True, tag_put (wtag_fd q) (wtag_line q) w)"
    using write_n_ok [OF assms] by (simp add: mq_sm_wtag_write_item_def tag_put_def)
qed

text \<open>A world in which the data files and the handles of the queue look the same.\<close>

lemma rep_at_same_data:
  assumes rep: "rep_at cf q w ino seg" and wf: "wf_world w'" "w_faults w' = []"
    and lk: "\<And>p. lookup_path w' p = lookup_path w p" and mp: "w_maps w' = w_maps w"
    and fl: "\<And>n. n \<in> {ri_of q..wi_of q} \<Longrightarrow> w_files w' (ino n) = w_files w (ino n)"
    and tg: "tag_fd w' (rtag_fd q) (rtag_path cf (q_name q) (ri_of q))"
      "tag_fd w' (wtag_fd q) (wtag_path cf (q_name q) (wi_of q))"
    and nx: "w_next_fd w' = w_next_fd w"
  shows "rep_at cf q w' ino seg"
proof -
  note D = rep_atD [OF rep] and H = handlesD [OF rep]
  have "data_rep cf (q_name q) w' (ri_of q) (wi_of q) (rpos_of q) (wpos_of q) ino seg"
    using D(9) fl lk unfolding data_rep_def by simp
  moreover have "free_names cf (q_name q) w' (ri_of q) (wi_of q)" "has_dir w' (queue_dir cf (q_name q))"
    using D(5,8) lk by (simp_all add: free_names_def has_dir_def)
  moreover have "maps_db cf w' (d_map_mem (cur_rdb q)) (ino (ri_of q))" "maps_db cf w' (d_map_mem (cur_wdb q)) (ino (wi_of q))"
    using H(1,2) D(6) mp fl by (auto intro: maps_db_cong)
  ultimately show ?thesis
    using rep wf tg nx unfolding rep_at_def handles_ok_def by simp
qed

text \<open>The inodes of the data files and of the tag files are different.\<close>

lemma tag_not_data:
  assumes rep: "rep_at cf q w ino seg" and n: "n \<in> {ri_of q..wi_of q}"
  shows "o_ino (the (w_fds w (rtag_fd q))) \<noteq> ino n" and "o_ino (the (w_fds w (wtag_fd q))) \<noteq> ino n"
    and "o_ino (the (w_fds w (rtag_fd q))) \<noteq> o_ino (the (w_fds w (wtag_fd q)))"
proof -
  note D = rep_atD [OF rep] and H = handlesD [OF rep]
  have db: "lookup_path w (db_path cf (q_name q) n) = Some (RegN (ino n))" using data_rep_lookup [OF D(9) n] by simp
  have r: "lookup_path w (rtag_path cf (q_name q) (ri_of q)) = Some (RegN (o_ino (the (w_fds w (rtag_fd q)))))"
    and wt: "lookup_path w (wtag_path cf (q_name q) (wi_of q)) = Some (RegN (o_ino (the (w_fds w (wtag_fd q)))))"
    using H(4,5) by (auto simp: tag_fd_def)
  show "o_ino (the (w_fds w (rtag_fd q))) \<noteq> ino n" "o_ino (the (w_fds w (wtag_fd q))) \<noteq> ino n"
    and "o_ino (the (w_fds w (rtag_fd q))) \<noteq> o_ino (the (w_fds w (wtag_fd q)))"
    using wf_world_inj [OF D(3) r] wf_world_inj [OF D(3) wt] wt db paths_eq [OF D(2)] by metis+
qed

lemma tag_put_rep:
  assumes rep: "rep_at cf q w ino seg" and fd: "fd = rtag_fd q \<or> fd = wtag_fd q"
  shows "rep_at cf q (tag_put fd line w) ino seg"
proof -
  note D = rep_atD [OF rep] and H = handlesD [OF rep] and N = tag_not_data [OF rep]
  have ri: "ri_of q \<in> {ri_of q..wi_of q}" using D(6) by simp
  have other: "tag_fd (tag_put fd line w) fd' p"
    if "tag_fd w fd' p" "fd' \<noteq> fd" "o_ino (the (w_fds w fd')) \<noteq> o_ino (the (w_fds w fd))" for fd' p
    using that(1) by (rule tag_fd_cong) (use that in \<open>auto simp: tag_fd_def\<close>)
  show ?thesis
  proof (rule rep_at_same_data [OF rep])
    show "wf_world (tag_put fd line w)"
      using fd H(4,5) wf_tag_put [OF D(3)] by (auto simp: tag_fd_def)
    show "w_files (tag_put fd line w) (ino n) = w_files w (ino n)" if "n \<in> {ri_of q..wi_of q}" for n
      using N(1,2) [OF that] fd by auto
    show "tag_fd (tag_put fd line w) (rtag_fd q) (rtag_path cf (q_name q) (ri_of q))"
      using fd H(4,6) tag_put_tag_fd other N(3) [OF ri] by metis
    show "tag_fd (tag_put fd line w) (wtag_fd q) (wtag_path cf (q_name q) (wi_of q))"
      using fd H(5,6) tag_put_tag_fd other N(3) [OF ri] by metis
  qed (use D(4) in simp_all)
qed

lemma tag_put_evolves:
  assumes rep: "rep_at cf q w ino seg" and fd: "fd = rtag_fd q \<or> fd = wtag_fd q"
  shows "evolves cf q w q (tag_put fd line w)"
proof (rule evolves_files)
  note D = rep_atD [OF rep] and H = handlesD [OF rep]
  fix i
  assume "w_files (tag_put fd line w) i \<noteq> w_files w i"
  then have "i = o_ino (the (w_fds w fd))" using tag_put_simps(9) by blast
  moreover obtain p where "own_path cf (q_name q) p" "tag_fd w fd p"
    using fd H(4,5) own_paths(2,3) [OF D(2)] by blast
  ultimately show "own_ino cf (q_name q) w i" by (auto simp: own_ino_def tag_fd_def)
next
  fix f
  assume "w_fds (tag_put fd line w) f \<noteq> w_fds w f"
  then have "f = fd" using tag_put_simps(10) by blast
  then show "f \<in> own_fds q" using fd by (auto simp: own_fds_def)
qed simp_all

text \<open>The messages in the file of the reader can still be loaded.\<close>

lemma tag_put_load:
  assumes rep: "rep_at cf q w ino seg" and fd: "fd = rtag_fd q \<or> fd = wtag_fd q"
  shows "mem_load (tag_put fd line w) (d_map_mem (cur_rdb q)) off n = mem_load w (d_map_mem (cur_rdb q)) off n"
proof -
  have ri: "ri_of q \<in> {ri_of q..wi_of q}" using rep_atD(6) [OF rep] by simp
  have "w_files (tag_put fd line w) (ino (ri_of q)) = w_files w (ino (ri_of q))"
    using tag_not_data(1,2) [OF rep ri] fd by auto
  moreover have "map_file w (d_map_mem (cur_rdb q)) = Some (ino (ri_of q), max_db cf)"
      "map_file (tag_put fd line w) (d_map_mem (cur_rdb q)) = Some (ino (ri_of q), max_db cf)"
    using handlesD(1) [OF rep] handlesD(1) [OF tag_put_rep [OF rep fd, of "line"]] by (simp_all add: maps_db_def)
  ultimately show ?thesis by (simp add: mem_load_def)
qed

end
