(* ===== verification/Fifo_Write.thy ===== *)
theory Fifo_Write
  imports Fifo_Tags
begin

text \<open>
  Writing to a represented queue: a message goes to the end of the file of the writer, after the
  writer has moved on to a new file when the message does not fit.
\<close>

section \<open>Storing into the file of the writer\<close>

lemma rep_at_wfile:
  assumes rep: "rep_at cf q w ino seg"
    and ok: "\<And>start. seg_ok cf (f_data (w_files w (ino (wi_of q)))) start (seg (wi_of q)) (wpos_of q) \<Longrightarrow>
       seg_ok cf (put_bytes (f_data (w_files w (ino (wi_of q)))) off bs) start ms p"
    and q': "q_name q' = q_name q" "rtag_fd q' = rtag_fd q" "wtag_fd q' = wtag_fd q" "cur_rdb q' = cur_rdb q"
      "d_cur_index (cur_wdb q') = d_cur_index (cur_wdb q)" "d_fd (cur_wdb q') = d_fd (cur_wdb q)"
      "d_map_mem (cur_wdb q') = d_map_mem (cur_wdb q)" "wpos_of q' = p"
  shows "rep_at cf q' (poke (ino (wi_of q)) off bs w) ino (seg(wi_of q := ms))"
proof -
  let ?w = "poke (ino (wi_of q)) off bs w"
  note D = rep_atD [OF rep] and H = handlesD [OF rep]
  have ix: "ri_of q' = ri_of q" "wi_of q' = wi_of q" "rpos_of q' = rpos_of q" using q' by (simp_all add: index_defs)
  have wi: "wi_of q \<in> {ri_of q..wi_of q}" using D(6) by simp
  have neq: "ino n \<noteq> ino (wi_of q)" if "n \<in> {ri_of q..wi_of q}" "n \<noteq> wi_of q" for n
  proof
    assume "ino n = ino (wi_of q)"
    then have "db_path cf (q_name q) n = db_path cf (q_name q) (wi_of q)"
      using wf_world_inj [OF D(3)] data_rep_lookup [OF D(9) that(1)] data_rep_lookup [OF D(9) wi] by metis
    moreover have "n < 2 ^ 64" using that(1) index_range(2) [of q] by simp
    ultimately show False using D(2) that(2) index_range(2) [of q] by (simp add: of_nat_u64_inj)
  qed
  have "data_rep cf (q_name q) ?w (ri_of q) (wi_of q) (rpos_of q) p ino (seg(wi_of q := ms))"
    unfolding data_rep_def
  proof (intro ballI)
    fix n
    assume n: "n \<in> {ri_of q..wi_of q}"
    let ?s = "if n = ri_of q then rpos_of q else DB_FILE_HEAD_LEN"
    note old = bspec [OF D(9) [unfolded data_rep_def] n]
    have sz: "f_size (w_files ?w (ino n)) = max_db cf"
      using conjunct1 [OF conjunct2 [OF old]] by (cases "ino n = ino (wi_of q)") simp_all
    have sg: "\<exists>e. (n = wi_of q \<longrightarrow> e = p) \<and> seg_ok cf (f_data (w_files ?w (ino n))) ?s ((seg(wi_of q := ms)) n) e"
    proof (cases "n = wi_of q")
      case True
      then have "seg_ok cf (f_data (w_files w (ino (wi_of q)))) ?s (seg (wi_of q)) (wpos_of q)" using old by auto
      then show ?thesis using True ok [of ?s] by simp
    next
      case False
      then show ?thesis using old neq [OF n] by auto
    qed
    show "lookup_path ?w (db_path cf (q_name q) n) = Some (RegN (ino n)) \<and> f_size (w_files ?w (ino n)) = max_db cf
      \<and> (\<exists>e. (n = wi_of q \<longrightarrow> e = p) \<and> seg_ok cf (f_data (w_files ?w (ino n))) ?s ((seg(wi_of q := ms)) n) e)"
      unfolding poke_simps(1) by (intro conjI conjunct1 [OF old] sz sg)
  qed
  moreover have "free_names cf (q_name q) ?w (ri_of q) (wi_of q)" "has_dir ?w (queue_dir cf (q_name q))"
    using D(5,8) by (simp_all add: free_names_def has_dir_def)
  moreover have "handles_ok cf q' ?w (ri_of q) (wi_of q) ino"
  proof -
    have "maps_db cf ?w m i \<longleftrightarrow> maps_db cf w m i" for m i by (simp add: maps_db_def)
    moreover have keep: "tag_fd ?w fd t" if "tag_fd w fd t" "t \<noteq> db_path cf (q_name q) (wi_of q)" for fd t
    proof -
      have "i \<noteq> ino (wi_of q)" if "lookup_path w t = Some (RegN i)" for i
        using wf_world_inj [OF D(3) that] data_rep_lookup [OF D(9) wi] \<open>t \<noteq> _\<close> by blast
      then show ?thesis by (intro tag_fd_cong [OF that(1)]) simp_all
    qed
    moreover have "tag_fd ?w (rtag_fd q) (rtag_path cf (q_name q) (ri_of q))"
        "tag_fd ?w (wtag_fd q) (wtag_path cf (q_name q) (wi_of q))"
      using D(2) by (intro keep H(4,5); simp)+
    ultimately show ?thesis using H(1-3,6-12) q' unfolding handles_ok_def by simp
  qed
  ultimately show ?thesis
    using D(1,2,4,6,7) q' wf_poke [OF D(3)] unfolding rep_at_def ix by simp
qed

lemma poke_evolves:
  assumes rep: "rep_at cf q w ino seg" and n: "n \<in> {ri_of q..wi_of q}"
  shows "evolves cf q w q (poke (ino n) off bs w)"
proof (rule evolves_files)
  fix i
  assume "w_files (poke (ino n) off bs w) i \<noteq> w_files w i"
  then have "i = ino n" by (auto split: if_splits)
  then show "own_ino cf (q_name q) w i"
    using data_rep_lookup [OF rep_atD(9) [OF rep] n] own_paths(1) [OF rep_atD(2) [OF rep]] own_ino_lookup by metis
qed simp_all

text \<open>The item that \<^verbatim>\<open>mq_qm_push_item\<close> and \<^verbatim>\<open>mq_sm_put_data\<close> hand to the writer.\<close>

definition item_for :: "msg_item \<Rightarrow> u32 \<Rightarrow> byte list \<Rightarrow> bool" where
  "item_for it d b \<longleftrightarrow>
     magic_num1 it = MSG_HEAD_OF_FIRST_MAGIC_NUM \<and> magic_num2 it = MSG_HEAD_OF_SECOND_MAGIC_NUM
     \<and> delay it = d \<and> crc16 it = crc16_loop 0 b \<and> unat (len it) = length b
     \<and> (\<exists>m. msg it = Caller m \<and> length b \<le> length m \<and> b = take (length b) m)"

lemma item_for_bytes:
  assumes "item_for it d b"
  shows "msg_head_bytes it @ b = encode_msg d b" and "load_msg w (msg it) (unat (len it)) = Some b"
    and "len it = of_nat (length b)"
proof -
  have "of_nat (unat (len it)) = len it" by simp
  then show l: "len it = of_nat (length b)" using assms by (simp add: item_for_def del: of_nat_unat)
  show "load_msg w (msg it) (unat (len it)) = Some b" using assms by (auto simp: item_for_def load_msg_def)
  show "msg_head_bytes it @ b = encode_msg d b"
    using assms l by (simp add: item_for_def msg_head_bytes_def encode_msg_def)
qed

text \<open>The part of \<^verbatim>\<open>mq_sm_db_write_msg\<close> after the test for room.\<close>

definition write_here :: "mq_queue \<Rightarrow> msg_item \<Rightarrow> world \<Rightarrow> (bool \<times> mq_queue \<times> world) option" where
  "write_here q item w = do {
     let p = unat (d_pos (cur_wdb q));
     w \<leftarrow> mem_store (d_map_mem (cur_wdb q)) p (msg_head_bytes item) w;
     body \<leftarrow> load_msg w (msg item) (unat (len item));
     w \<leftarrow> mem_store (d_map_mem (cur_wdb q)) (p + MSG_HEAD_LEN) body w;
     Some (True,
       q\<lparr>cur_wdb := (cur_wdb q)\<lparr>d_pos := d_pos (cur_wdb q) + (len item + of_nat MSG_HEAD_LEN),
                                d_opt_count := d_opt_count (cur_wdb q) + 1\<rparr>,
         put_num := put_num q + 1\<rparr>, w)
   }"

lemma write_here_rep:
  assumes rep: "rep_at cf q w ino seg" and it: "item_for item d b" and b: "0 < length b"
    and fit: "wpos_of q + MSG_HEAD_LEN + length b \<le> max_db cf"
  obtains q' w' where "write_here q item w = Some (True, q', w')"
    and "rep_at cf q' w' ino (seg(wi_of q := seg (wi_of q) @ [(d, b)]))"
    and "ri_of q' = ri_of q" "wi_of q' = wi_of q" "put_num q' = put_num q + 1" "get_num q' = get_num q"
    and "evolves cf q w q' w'"
proof -
  note D = rep_atD [OF rep] and H = handlesD [OF rep] and I = item_for_bytes [OF it]
  let ?i = "ino (wi_of q)"
  define w' where "w' = poke ?i (wpos_of q) (encode_msg d b) w"
  define q' where "q' = q\<lparr>cur_wdb := (cur_wdb q)\<lparr>d_pos := d_pos (cur_wdb q) + (len item + of_nat MSG_HEAD_LEN),
      d_opt_count := d_opt_count (cur_wdb q) + 1\<rparr>, put_num := put_num q + 1\<rparr>"
  have m: "map_file w (d_map_mem (cur_wdb q)) = Some (?i, max_db cf)" using H(2) by (simp add: maps_db_def)
  have w': "poke ?i (wpos_of q + MSG_HEAD_LEN) b (poke ?i (wpos_of q) (msg_head_bytes item) w) = w'"
    unfolding w'_def I(1) [symmetric] by (simp add: poke_def put_bytes_append)
  have ev: "write_here q item w = Some (True, q', w')"
    using m fit I(2) w' by (simp add: write_here_def mem_store_poke wpos_of_def q'_def)
  have dp: "d_pos (cur_wdb q') = of_nat (wpos_of q + MSG_HEAD_LEN + length b)"
    by (simp add: q'_def I(3) wpos_of_def)
  have wp: "wpos_of q' = wpos_of q + MSG_HEAD_LEN + length b"
    unfolding wpos_of_def [of q'] dp using fit by (intro unat_u32_small [OF D(1)]) simp
  have rp: "rep_at cf q' w' ino (seg(wi_of q := seg (wi_of q) @ [(d, b)]))"
    unfolding w'_def by (rule rep_at_wfile [OF rep seg_ok_write [OF _ b fit]]) (simp_all add: wp, simp_all add: q'_def)
  have "evolves cf q w q w'" unfolding w'_def using D(6) by (intro poke_evolves [OF rep]) simp
  moreover have "evolves cf q w' q' w'"
    by (rule evolves_queue) (simp_all add: q'_def own_fds_def own_maps_def)
  ultimately have "evolves cf q w q' w'" by (rule evolves_trans)
  then show ?thesis using ev rp by (intro that) (simp_all add: q'_def index_defs)
qed

section \<open>A new file for the writer\<close>

lemma next_write_index:
  assumes "Suc (wi_of q) < 2 ^ 64"
  shows "d_cur_index (cur_wdb q) + 1 = of_nat (Suc (wi_of q))"
    and "unat (of_nat (Suc (wi_of q)) :: u64) = Suc (wi_of q)"
proof -
  show "d_cur_index (cur_wdb q) + 1 = of_nat (Suc (wi_of q))" by (simp add: wi_of_def)
  show "unat (of_nat (Suc (wi_of q)) :: u64) = Suc (wi_of q)"
    using assms by (simp only: unat_of_nat) (simp add: take_bit_nat_eq_self)
qed

text \<open>The world after the writer has moved; \<open>line\<close> is the line of the new wtag file, \<open>head\<close> the head of the new
  data file.\<close>

definition writer_closed :: "mq_queue \<Rightarrow> world \<Rightarrow> world" where
  "writer_closed q w =
     (if ri_of q < wi_of q then sys_close (d_fd (cur_wdb q)) (sys_munmap (d_map_mem (cur_wdb q)) w) else w)"

definition writer_moved :: "ucmq_conf \<Rightarrow> mq_queue \<Rightarrow> byte list \<Rightarrow> byte list \<Rightarrow> world \<Rightarrow> world" where
  "writer_moved cf q line head w =
     (let v = open_new (wtag_path cf (q_name q) (Suc (wi_of q))) False (writer_closed q w);
          v = poke (Suc (w_next_ino w)) 0 head (db_create cf (db_path cf (q_name q) (Suc (wi_of q))) v);
          v = fd_put (int (w_next_fd w)) \<lparr>o_ino = w_next_ino w, o_off = 0, o_append = False, o_nonblock = True\<rparr>
                line (tick v)
      in sys_unlink (wtag_path cf (q_name q) (wi_of q)) (sys_close (wtag_fd q) v))"

lemma writer_closed_simps [simp]:
  "lookup_path (writer_closed q w) p = lookup_path w p" "w_files (writer_closed q w) = w_files w"
  "w_next_ino (writer_closed q w) = w_next_ino w" "w_next_fd (writer_closed q w) = w_next_fd w"
  "w_next_map (writer_closed q w) = w_next_map w" "w_faults (writer_closed q w) = w_faults w"
  "w_bavail (writer_closed q w) = w_bavail w" "w_bsize (writer_closed q w) = w_bsize w"
  "parent_ok (writer_closed q w) p = parent_ok w p"
  by (simp_all add: writer_closed_def parent_ok_def has_dir_def split: option.split)

lemma wf_writer_closed: "wf_world w \<Longrightarrow> wf_world (writer_closed q w)"
  by (simp add: writer_closed_def wf_effects)

lemma free_next:
  assumes "rep_at cf q w ino seg" and "Suc (wi_of q) < 2 ^ 64"
  shows "lookup_path w (db_path cf (q_name q) (Suc (wi_of q))) = None"
    and "lookup_path w (wtag_path cf (q_name q) (Suc (wi_of q))) = None"
  using rep_atD(8) [OF assms(1)] assms(2) unfolding free_names_def by (simp_all del: of_nat_Suc)

lemma writer_moved_views:
  fixes "line" head :: "byte list"
  assumes rep: "rep_at cf q w ino seg" and lt: "Suc (wi_of q) < 2 ^ 64"
  defines "w' \<equiv> writer_moved cf q line head w" and "nm \<equiv> q_name q"
  shows "lookup_path w' p = (if p = db_path cf nm (Suc (wi_of q)) then Some (RegN (Suc (w_next_ino w)))
           else if p = wtag_path cf nm (Suc (wi_of q)) then Some (RegN (w_next_ino w))
           else if p = wtag_path cf nm (wi_of q) then None else lookup_path w p)"
    and "w_files w' = (w_files w)(w_next_ino w := file_write empty_file 0 line,
           Suc (w_next_ino w) := (fresh_db cf)\<lparr>f_data := put_bytes (f_data (fresh_db cf)) 0 head\<rparr>)"
    and "w_fds w' = (w_fds (writer_closed q w))(
           int (w_next_fd w) \<mapsto> \<lparr>o_ino = w_next_ino w, o_off = length line, o_append = False, o_nonblock = True\<rparr>,
           int (Suc (w_next_fd w)) \<mapsto>
             \<lparr>o_ino = Suc (w_next_ino w), o_off = max_db cf, o_append = False, o_nonblock = True\<rparr>,
           wtag_fd q := None)"
    and "w_maps w' = (w_maps (writer_closed q w))(w_next_map w \<mapsto> \<lparr>m_ino = Suc (w_next_ino w), m_len = max_db cf\<rparr>)"
    and "w_next_ino w' = Suc (Suc (w_next_ino w))" and "w_next_fd w' = Suc (Suc (w_next_fd w))"
    and "w_next_map w' = Suc (w_next_map w)" and "w_faults w' = []" and "wf_world w'"
    and "w_bavail w' = w_bavail w" and "w_bsize w' = w_bsize w"
proof -
  note D = rep_atD [OF rep] and F = free_next [OF rep lt, folded nm_def]
  have pk: "path_ok cf nm" using D(2) by (simp add: nm_def)
  have ne: "wtag_path cf nm (wi_of q) \<noteq> wtag_path cf nm (Suc (wi_of q))"
    using pk lt index_range(2) [of q] of_nat_u64_inj [of "wi_of q" "Suc (wi_of q)"] by (simp del: of_nat_Suc)
  obtain i where wt: "lookup_path w (wtag_path cf nm (wi_of q)) = Some (RegN i)"
    using handlesD(5) [OF rep] unfolding tag_fd_def nm_def by blast
  let ?d = "\<lparr>o_ino = w_next_ino w, o_off = 0, o_append = False, o_nonblock = True\<rparr>"
  have put: "w_files (fd_put fd ?d line v) = (w_files v)(w_next_ino w := file_write (w_files v (w_next_ino w)) 0 line)"
      "w_fds (fd_put fd ?d line v) = (w_fds v)(fd \<mapsto> ?d\<lparr>o_off := length line\<rparr>)" for fd v
    by (simp_all add: fd_put_def Let_def)
  show "lookup_path w' p = (if p = db_path cf nm (Suc (wi_of q)) then Some (RegN (Suc (w_next_ino w)))
           else if p = wtag_path cf nm (Suc (wi_of q)) then Some (RegN (w_next_ino w))
           else if p = wtag_path cf nm (wi_of q) then None else lookup_path w p)"
    using F ne wt D(4) pk unfolding w'_def writer_moved_def Let_def nm_def [symmetric]
    by (simp del: of_nat_Suc)
  show "wf_world w'"
    using F D(3) pk unfolding w'_def writer_moved_def Let_def nm_def [symmetric]
    by (intro wf_effects wf_db_create wf_writer_closed) (simp_all del: of_nat_Suc)
  show "w_files w' = (w_files w)(w_next_ino w := file_write empty_file 0 line,
           Suc (w_next_ino w) := (fresh_db cf)\<lparr>f_data := put_bytes (f_data (fresh_db cf)) 0 head\<rparr>)"
    by (simp add: w'_def writer_moved_def Let_def put fun_upd_twist)
  show "w_fds w' = (w_fds (writer_closed q w))(
           int (w_next_fd w) \<mapsto> \<lparr>o_ino = w_next_ino w, o_off = length line, o_append = False, o_nonblock = True\<rparr>,
           int (Suc (w_next_fd w)) \<mapsto>
             \<lparr>o_ino = Suc (w_next_ino w), o_off = max_db cf, o_append = False, o_nonblock = True\<rparr>,
           wtag_fd q := None)"
    by (simp add: w'_def writer_moved_def Let_def put fun_upd_twist)
  show "w_maps w' = (w_maps (writer_closed q w))(w_next_map w \<mapsto> \<lparr>m_ino = Suc (w_next_ino w), m_len = max_db cf\<rparr>)"
    and "w_next_ino w' = Suc (Suc (w_next_ino w))" and "w_next_fd w' = Suc (Suc (w_next_fd w))"
    and "w_next_map w' = Suc (w_next_map w)" and "w_faults w' = []"
    and "w_bavail w' = w_bavail w" and "w_bsize w' = w_bsize w"
    using D(4) by (simp_all add: w'_def writer_moved_def Let_def)
qed

lemma db_file_head_facts:
  shows "length (db_file_head c) = DB_FILE_HEAD_LEN" and "\<forall>b \<in> set (db_file_head c). b \<noteq> MSG_HEAD_OF_FIRST_MAGIC_NUM"
proof -
  let ?ds = "pad_digits 1 DB_FILE_VERSION @ pad_digits 12 (unat c)"
  have "unat c < 2 ^ 32" using unsigned_less [of c, where 'a = nat] by simp
  then have "length (pad_digits (Suc 11) (unat c)) = Suc 11" "length (pad_digits (Suc 0) DB_FILE_VERSION) = Suc 0"
    using length_pad_digits [of "unat c" 11] length_pad_digits [of DB_FILE_VERSION 0]
    by (simp_all add: DB_FILE_VERSION_def)
  then have l: "length (map digit_byte ?ds) = 13" by simp
  then show "length (db_file_head c) = DB_FILE_HEAD_LEN"
    unfolding db_file_head_def Let_def by (simp add: DB_FILE_HEAD_LEN_def)
  have "unat b < 58" if "b \<in> set (db_file_head c)" for b
  proof -
    have "b = 0 \<or> (\<exists>d \<in> set ?ds. b = digit_byte d)"
      using that unfolding db_file_head_def Let_def by (auto split: if_splits)
    then show ?thesis
      using unat_digit_byte pad_digits_lt_10 by fastforce
  qed
  then show "\<forall>b \<in> set (db_file_head c). b \<noteq> MSG_HEAD_OF_FIRST_MAGIC_NUM"
    by (fastforce simp: MSG_HEAD_OF_FIRST_MAGIC_NUM_def)
qed

lemma get_next_write_file_eval:
  assumes rep: "rep_at cf q w ino seg" and lt: "Suc (wi_of q) < 2 ^ 64" and sp: "\<not> storage_short cf w"
  defines "q' \<equiv> q\<lparr>wtag_fd := int (w_next_fd w), cur_wdb := (cur_wdb q)\<lparr>d_map_mem := Some (w_next_map w),
      d_fd := int (Suc (w_next_fd w)), d_opt_count := 0, d_flag := 1, d_pos := of_nat DB_FILE_HEAD_LEN,
      d_cur_index := of_nat (Suc (wi_of q))\<rparr>\<rparr>"
  shows "get_next_write_file cf q w = Some (True, q', writer_moved cf q (wtag_line q') (db_file_head 0) w)"
proof -
  note D = rep_atD [OF rep] and F = free_next [OF rep lt]
  let ?wp = "wtag_path cf (q_name q) (Suc (wi_of q))" and ?dp = "db_path cf (q_name q) (Suc (wi_of q))"
  let ?fd = "int (w_next_fd w)" and ?d = "\<lparr>o_ino = w_next_ino w, o_off = 0, o_append = False, o_nonblock = True\<rparr>"
  define w2 where "w2 = open_new ?wp False (writer_closed q w)"
  define w3 where "w3 = db_create cf ?dp w2"
  define w4 where "w4 = poke (Suc (w_next_ino w)) 0 (db_file_head 0) w3"
  have op: "mq_sm_wtag_open_next_file ?wp (writer_closed q w) = (?fd, w2)"
    using sys_open_new [of "writer_closed q w" ?wp False] D(4) F(2) queue_parent_ok(3) [OF D(2,5)]
    by (simp add: mq_sm_wtag_open_next_file_def w2_def del: of_nat_Suc)
  have f3: "lookup_path w2 ?dp = None" using F D(2) by (simp add: w2_def del: of_nat_Suc)
  have "has_dir w2 (queue_dir cf (q_name q))"
    using D(5) F(2) paths_not_dir(3) [OF D(2), THEN not_sym] by (simp add: w2_def has_dir_def del: of_nat_Suc)
  then have cr: "mq_sm_open_db_file cf ?dp FOPEN_FLAG_CREATE w2 = (Some (w_next_map w), int (Suc (w_next_fd w)), w3)"
    using open_db_file_create [OF D(1) _ f3 queue_parent_ok(1) [OF D(2)]] D(4) by (simp add: w3_def) (simp add: w2_def)
  have hd: "mq_sm_db_write_file_head q1 w3 = Some (True, w4)"
    if "d_map_mem (cur_wdb q1) = Some (w_next_map w)" "d_opt_count (cur_wdb q1) = 0" for q1
  proof -
    have "map_file w3 (Some (w_next_map w)) = Some (Suc (w_next_ino w), max_db cf)"
      by (simp add: map_file_def w3_def w2_def fresh_db_def)
    then show ?thesis using that max_db_lower [OF D(1)]
      by (simp add: mq_sm_db_write_file_head_def mem_store_poke db_file_head_facts w4_def DB_FILE_HEAD_LEN_def)
  qed
  have wr: "mq_sm_wtag_write_item q1 w4 = (True, fd_put ?fd ?d (wtag_line q') (tick w4))"
    if "wtag_fd q1 = ?fd" "wtag_line q1 = wtag_line q'" for q1
  proof -
    have "wtag_line q' \<noteq> []" by (simp add: wtag_line_def)
    then show ?thesis
      using that write_n_ok [of w4 ?fd ?d "wtag_line q'" READ_OPT_TIMEOUT] D(4)
      by (simp add: mq_sm_wtag_write_item_def w4_def w3_def w2_def)
  qed
  have cl: "(if d_cur_index (cur_wdb q) > d_cur_index (cur_rdb q)
        then (upd_wdb (d_flag_update (\<lambda>_. 0)) q, sys_close (d_fd (cur_wdb q)) (sys_munmap (d_map_mem (cur_wdb q)) w))
        else (q, w))
      = (if ri_of q < wi_of q then upd_wdb (d_flag_update (\<lambda>_. 0)) q else q, writer_closed q w)"
    by (simp add: writer_closed_def ri_of_def wi_of_def word_less_nat_alt)
  have wi: "GEN_WTAG_FULL_PATH_BY_QNAME_INDEX cf (q_name q) (d_cur_index (cur_wdb q)) = wtag_path cf (q_name q) (wi_of q)"
    by (simp add: wi_of_def)
  show ?thesis
    using sp op cr hd wr
    by (simp add: get_next_write_file_def Let_def cl next_write_index(1) [OF lt] wi q'_def wtag_line_def
        writer_moved_def w4_def w3_def w2_def del: of_nat_Suc)
qed

lemma writer_moved_data:
  fixes "line" head :: "byte list"
  assumes rep: "rep_at cf q w ino seg" and lt: "Suc (wi_of q) < 2 ^ 64"
    and h: "length head = DB_FILE_HEAD_LEN" "\<forall>b \<in> set head. b \<noteq> MSG_HEAD_OF_FIRST_MAGIC_NUM"
  defines "w' \<equiv> writer_moved cf q line head w" and "nm \<equiv> q_name q"
  shows "data_rep cf nm w' (ri_of q) (Suc (wi_of q)) (rpos_of q) DB_FILE_HEAD_LEN
           (ino(Suc (wi_of q) := Suc (w_next_ino w))) (seg(Suc (wi_of q) := []))"
    and "free_names cf nm w' (ri_of q) (Suc (wi_of q))" and "has_dir w' (queue_dir cf nm)"
proof -
  note D = rep_atD [OF rep] and V = writer_moved_views [OF rep lt, of "line" head]
  have pk: "path_ok cf nm" using D(2) by (simp add: nm_def)
  show "free_names cf nm w' (ri_of q) (Suc (wi_of q))"
    using D(8) lt pk unfolding free_names_def w'_def nm_def
    by (auto simp: V(1) of_nat_u64_inj simp del: of_nat_Suc)
  show "has_dir w' (queue_dir cf nm)"
    using D(5) paths_not_dir [OF D(2), THEN not_sym] by (simp add: has_dir_def w'_def nm_def V(1) del: of_nat_Suc)
  show "data_rep cf nm w' (ri_of q) (Suc (wi_of q)) (rpos_of q) DB_FILE_HEAD_LEN
           (ino(Suc (wi_of q) := Suc (w_next_ino w))) (seg(Suc (wi_of q) := []))"
    unfolding data_rep_def
  proof (intro ballI)
    fix n
    let ?ino = "ino(Suc (wi_of q) := Suc (w_next_ino w))" and ?seg = "seg(Suc (wi_of q) := [])"
    let ?s = "if n = ri_of q then rpos_of q else DB_FILE_HEAD_LEN"
    assume n: "n \<in> {ri_of q..Suc (wi_of q)}"
    show "lookup_path w' (db_path cf nm n) = Some (RegN (?ino n)) \<and> f_size (w_files w' (?ino n)) = max_db cf
      \<and> (\<exists>e. (n = Suc (wi_of q) \<longrightarrow> e = DB_FILE_HEAD_LEN) \<and> seg_ok cf (f_data (w_files w' (?ino n))) ?s (?seg n) e)"
    proof (cases "n = Suc (wi_of q)")
      case True
      have "f_size (fresh_db cf) = max_db cf" by (simp add: fresh_db_def)
      moreover have "n \<noteq> ri_of q" using True D(6) by simp
      ultimately show ?thesis
        using True seg_ok_head [OF seg_ok_fresh [OF D(1)] h] by (simp add: w'_def nm_def V(1,2) del: of_nat_Suc)
    next
      case False
      then have n': "n \<in> {ri_of q..wi_of q}" "n < 2 ^ 64" using n lt by auto
      note old = bspec [OF D(9) [unfolded data_rep_def] n'(1)]
      have i: "ino n < w_next_ino w" using wf_world_lookup [OF D(3) conjunct1 [OF old]] .
      have lk: "lookup_path w' (db_path cf nm n) = Some (RegN (ino n))"
        using conjunct1 [OF old] False n'(2) lt D(2) by (simp add: w'_def nm_def V(1) of_nat_u64_inj del: of_nat_Suc)
      have fl: "w_files w' (ino n) = w_files w (ino n)" using i by (simp add: w'_def V(2))
      show ?thesis using conjunct2 [OF old] lk fl False by auto
    qed
  qed
qed

lemma writer_moved_handles:
  fixes "line" head :: "byte list"
  assumes rep: "rep_at cf q w ino seg" and lt: "Suc (wi_of q) < 2 ^ 64"
  defines "w' \<equiv> writer_moved cf q line head w"
  shows "tag_fd w' (int (w_next_fd w)) (wtag_path cf (q_name q) (Suc (wi_of q)))"
    and "tag_fd w' (rtag_fd q) (rtag_path cf (q_name q) (ri_of q))"
    and "maps_db cf w' (d_map_mem (cur_rdb q)) (ino (ri_of q))"
    and "maps_db cf w' (Some (w_next_map w)) (Suc (w_next_ino w))"
proof -
  note D = rep_atD [OF rep] and H = handlesD [OF rep] and V = writer_moved_views [OF rep lt, of "line" head]
  show "tag_fd w' (int (w_next_fd w)) (wtag_path cf (q_name q) (Suc (wi_of q)))"
    unfolding w'_def by (rule tag_fd_new [where i = "w_next_ino w" and line = "line"])
      (use H(14) D(2) in \<open>simp_all add: V(1-3) del: of_nat_Suc\<close>)
  obtain i where i: "lookup_path w (rtag_path cf (q_name q) (ri_of q)) = Some (RegN i)" "i < w_next_ino w"
    by (rule tag_fdE [OF H(4) D(3)]) blast
  have cl: "w_fds (writer_closed q w) (rtag_fd q) = w_fds w (rtag_fd q)"
    using H(9) by (simp add: writer_closed_def)
  show "tag_fd w' (rtag_fd q) (rtag_path cf (q_name q) (ri_of q))"
    using H(4) unfolding w'_def
  proof (rule tag_fd_cong)
    show "w_fds (writer_moved cf q line head w) (rtag_fd q) = w_fds w (rtag_fd q)"
      using H(6,13) cl by (simp add: V(3))
  qed (use i D(2) in \<open>auto simp: V(1,2) simp del: of_nat_Suc\<close>)
  obtain k where k: "d_map_mem (cur_rdb q) = Some k" "k < w_next_map w" using H(15) by blast
  have "w_maps (writer_closed q w) k = w_maps w k"
    using H(3,16) k by (auto simp: writer_closed_def)
  moreover have "ino (ri_of q) < w_next_ino w" by (rule maps_dbE [OF H(1) D(3)])
  ultimately show "maps_db cf w' (d_map_mem (cur_rdb q)) (ino (ri_of q))"
    using H(1) k unfolding w'_def by (intro maps_db_cong [OF H(1)]) (simp_all add: V(2,4))
  show "maps_db cf w' (Some (w_next_map w)) (Suc (w_next_ino w))"
    by (simp add: maps_db_def map_file_def w'_def V(2,4) fresh_db_def)
qed

lemma writer_moved_evolves:
  fixes "line" head :: "byte list"
  assumes rep: "rep_at cf q w ino seg" and lt: "Suc (wi_of q) < 2 ^ 64"
    and q': "q_name q' = q_name q" "maxque q' = maxque q" "q_mutex q' = q_mutex q" "cur_rdb q' = cur_rdb q"
      "rtag_fd q' = rtag_fd q" "wtag_fd q' = int (w_next_fd w)" "d_fd (cur_wdb q') = int (Suc (w_next_fd w))"
      "d_map_mem (cur_wdb q') = Some (w_next_map w)"
  shows "evolves cf q w q' (writer_moved cf q line head w)"
proof -
  note D = rep_atD [OF rep] and H = handlesD [OF rep] and V = writer_moved_views [OF rep lt, of "line" head]
  obtain k where k: "d_map_mem (cur_wdb q) = Some k" using H(16) by blast
  show ?thesis
  proof (rule evolvesI)
    have op: "own_path cf (q_name q) (db_path cf (q_name q) (Suc (wi_of q)))"
      "own_path cf (q_name q) (wtag_path cf (q_name q) (Suc (wi_of q)))" "own_path cf (q_name q) (wtag_path cf (q_name q) (wi_of q))"
      using D(2) by (simp_all del: of_nat_Suc)
    show "own_path cf (q_name q) p \<or> lookup_path (writer_moved cf q line head w) p = lookup_path w p" for p
      using op by (auto simp: V(1) simp del: of_nat_Suc)
    show "own_ino cf (q_name q) w i \<or> w_next_ino w \<le> i" if "own_ino cf (q_name q) (writer_moved cf q line head w) i" for i
      using that unfolding own_ino_def V(1) by (auto split: if_splits simp del: of_nat_Suc)
    show "fd \<in> own_fds q \<or> w_fds (writer_moved cf q line head w) fd = w_fds w fd" if "fd < int (w_next_fd w)" for fd
      using that by (auto simp: V(3) own_fds_def writer_closed_def)
    show "Some m \<in> own_maps q \<or> w_maps (writer_moved cf q line head w) m = w_maps w m" if "m < w_next_map w" for m
      using that k by (auto simp: V(4) own_maps_def writer_closed_def)
  qed (use V(2,5-7,10,11) q' in \<open>auto simp: own_fds_def own_maps_def\<close>)
qed

lemma next_write_rep:
  assumes rep: "rep_at cf q w ino seg" and lt: "Suc (wi_of q) < 2 ^ 64" and sp: "\<not> storage_short cf w"
  obtains q' w' ino' where "get_next_write_file cf q w = Some (True, q', w')"
    and "rep_at cf q' w' ino' (seg(Suc (wi_of q) := []))"
    and "ri_of q' = ri_of q" "wi_of q' = Suc (wi_of q)" "wpos_of q' = DB_FILE_HEAD_LEN"
    and "put_num q' = put_num q" "get_num q' = get_num q" and "evolves cf q w q' w'"
proof -
  note D = rep_atD [OF rep] and H = handlesD [OF rep]
  define q' where "q' = q\<lparr>wtag_fd := int (w_next_fd w), cur_wdb := (cur_wdb q)\<lparr>d_map_mem := Some (w_next_map w),
      d_fd := int (Suc (w_next_fd w)), d_opt_count := 0, d_flag := 1, d_pos := of_nat DB_FILE_HEAD_LEN,
      d_cur_index := of_nat (Suc (wi_of q))\<rparr>\<rparr>"
  let ?line = "wtag_line q'" and ?head = "db_file_head 0" and ?ino = "ino(Suc (wi_of q) := Suc (w_next_ino w))"
  define w' where "w' = writer_moved cf q ?line ?head w"
  note V = writer_moved_views [OF rep lt, of ?line ?head] and T = writer_moved_handles [OF rep lt, of ?line ?head]
    and N = writer_moved_data [OF rep lt db_file_head_facts, of ?line 0]
  have ev: "get_next_write_file cf q w = Some (True, q', w')"
    unfolding w'_def q'_def by (rule get_next_write_file_eval [OF rep lt sp])
  have ix: "ri_of q' = ri_of q" "wi_of q' = Suc (wi_of q)" "rpos_of q' = rpos_of q" "wpos_of q' = DB_FILE_HEAD_LEN"
    using next_write_index(2) [OF lt] by (simp_all add: q'_def index_defs store_consts del: of_nat_Suc)
  have f: "q_name q' = q_name q" "maxque q' = maxque q" "q_mutex q' = q_mutex q" "cur_rdb q' = cur_rdb q"
      "rtag_fd q' = rtag_fd q" "wtag_fd q' = int (w_next_fd w)" "d_fd (cur_wdb q') = int (Suc (w_next_fd w))"
      "d_map_mem (cur_wdb q') = Some (w_next_map w)" "put_num q' = put_num q" "get_num q' = get_num q"
    by (simp_all add: q'_def)
  have "handles_ok cf q' w' (ri_of q) (Suc (wi_of q)) ?ino"
  proof -
    have "d_map_mem (cur_rdb q) \<noteq> Some (w_next_map w)" using H(15) by auto
    moreover have "ri_of q \<noteq> Suc (wi_of q)" using D(6) by simp
    ultimately show ?thesis
      using T H(7,11,13) V(6) unfolding handles_ok_def w'_def f by (simp del: of_nat_Suc)
  qed
  then have "rep_at cf q' w' ?ino (seg(Suc (wi_of q) := []))"
    using N D(1,2,6,7) V(8,9) unfolding rep_at_def ix f by (simp add: w'_def)
  moreover have "evolves cf q w q' w'"
    unfolding w'_def using f by (intro writer_moved_evolves [OF rep lt]) simp_all
  ultimately show ?thesis using that [OF ev] ix f by blast
qed

section \<open>Putting a message\<close>

lemma messages_append:
  assumes "ri_of q \<le> wi_of q" and "ri_of q' = ri_of q" "wi_of q' = wi_of q"
  shows "messages q' (seg(wi_of q := seg (wi_of q) @ [m])) = messages q seg @ [m]"
  using assms by simp

lemma messages_new_file:
  assumes "ri_of q \<le> wi_of q" and "ri_of q' = ri_of q" "wi_of q' = Suc (wi_of q)"
  shows "messages q' (seg(Suc (wi_of q) := [])) = messages q seg"
  using assms by simp

lemma write_msg_split:
  "mq_sm_db_write_msg cf q item w = do {
     (ok, q, w) \<leftarrow>
       (if d_pos (cur_wdb q) + len item + of_nat MSG_HEAD_LEN > MAX_DB_FILE_SIZE cf
        then do {
          w \<leftarrow> (if d_map_mem (cur_wdb q) \<noteq> None
               then map_option snd (mq_sm_db_write_file_head q w) else Some w);
          q \<leftarrow> mutex_lock q;
          (ok, q, w) \<leftarrow> get_next_write_file cf q w;
          Some (ok, mutex_unlock q, w)
        }
        else Some (True, q, w));
     if \<not> ok then Some (False, q, w) else write_here q item w
   }"
  unfolding mq_sm_db_write_msg_def write_here_def ..

lemma wpos_bound: "rep_at cf q w ino seg \<Longrightarrow> DB_FILE_HEAD_LEN \<le> wpos_of q \<and> wpos_of q \<le> max_db cf"
proof -
  assume rep: "rep_at cf q w ino seg"
  obtain st where "seg_ok cf (f_data (w_files w (ino (wi_of q)))) st (seg (wi_of q)) (wpos_of q)"
    using bspec [OF rep_atD(9) [OF rep, unfolded data_rep_def], of "wi_of q"] rep_atD(6) [OF rep] by auto
  from seg_ok_end [OF this] show ?thesis by simp
qed

lemma storage_short_cong: "w_bavail w' = w_bavail w \<Longrightarrow> w_bsize w' = w_bsize w \<Longrightarrow> storage_short cf w' = storage_short cf w"
  by (simp add: storage_short_def get_storage_free_def)

text \<open>The test for room, at 32 bits, is the comparison of the numbers.\<close>

lemma room_test:
  assumes rep: "rep_at cf q w ino seg" and b: "body_ok cf b"
  shows "(d_pos (cur_wdb q) + of_nat (length b) + of_nat MSG_HEAD_LEN > MAX_DB_FILE_SIZE cf)
     \<longleftrightarrow> max_db cf < wpos_of q + MSG_HEAD_LEN + length b"
proof -
  note D = rep_atD [OF rep]
  have e: "d_pos (cur_wdb q) + of_nat (length b) + of_nat MSG_HEAD_LEN = of_nat (wpos_of q + MSG_HEAD_LEN + length b)"
    by (simp add: wpos_of_def)
  have u: "unat (of_nat (wpos_of q + MSG_HEAD_LEN + length b) :: u32) = wpos_of q + MSG_HEAD_LEN + length b"
    using wpos_bound [OF rep] b max_db_upper [OF D(1)]
    by (simp only: unat_of_nat) (simp add: take_bit_nat_eq_self body_ok_def)
  show ?thesis unfolding e word_less_nat_alt u ..
qed

lemma roll_rep:
  assumes rep: "rep_at cf q w ino seg" and mu: "\<not> q_mutex q" and lt: "Suc (wi_of q) < 2 ^ 64"
    and sp: "\<not> storage_short cf w"
  obtains w1 q2 q' w' ino' where
      "mq_sm_db_write_file_head q w = Some (True, w1)" "mutex_lock q = Some q2"
      "get_next_write_file cf q2 w1 = Some (True, q', w')"
    and "rep_at cf (mutex_unlock q') w' ino' (seg(Suc (wi_of q) := []))"
    and "ri_of (mutex_unlock q') = ri_of q" "wi_of (mutex_unlock q') = Suc (wi_of q)"
      "wpos_of (mutex_unlock q') = DB_FILE_HEAD_LEN"
    and "put_num (mutex_unlock q') = put_num q" "get_num (mutex_unlock q') = get_num q"
    and "evolves cf q w (mutex_unlock q') w'"
proof -
  note D = rep_atD [OF rep] and H = handlesD [OF rep]
  let ?h = "db_file_head (d_opt_count (cur_wdb q))" and ?q = "q\<lparr>q_mutex := True\<rparr>"
  define w1 where "w1 = poke (ino (wi_of q)) 0 ?h w"
  have hd: "mq_sm_db_write_file_head q w = Some (True, w1)"
    using H(2) max_db_lower [OF D(1)]
    by (simp add: mq_sm_db_write_file_head_def maps_db_def mem_store_poke db_file_head_facts w1_def DB_FILE_HEAD_LEN_def)
  have r1: "rep_at cf q w1 ino (seg(wi_of q := seg (wi_of q)))"
    unfolding w1_def by (rule rep_at_wfile [OF rep seg_ok_head]) (simp_all add: db_file_head_facts)
  have rq: "rep_at cf ?q w1 ino seg" "Suc (wi_of ?q) < 2 ^ 64" "\<not> storage_short cf w1"
    using r1 lt sp storage_short_cong [of w1 w] by (simp_all add: index_defs w1_def)
  obtain q' w' ino' where n: "get_next_write_file cf ?q w1 = Some (True, q', w')"
      "rep_at cf q' w' ino' (seg(Suc (wi_of ?q) := []))" "ri_of q' = ri_of ?q" "wi_of q' = Suc (wi_of ?q)"
      "wpos_of q' = DB_FILE_HEAD_LEN" "put_num q' = put_num ?q" "get_num q' = get_num ?q" "evolves cf ?q w1 q' w'"
    by (rule next_write_rep [OF rq])
  have "evolves cf q w q w1" unfolding w1_def using D(6) by (intro poke_evolves [OF rep]) simp
  moreover have "evolves cf q w1 (mutex_unlock q') w'"
    using n(8) mu unfolding evolves_def mutex_unlock_def by (simp add: own_fds_def own_maps_def)
  ultimately have "evolves cf q w (mutex_unlock q') w'" by (rule evolves_trans)
  then show ?thesis
    using n mu by (intro that [OF hd, of ?q q' w' ino']) (simp_all add: mutex_lock_def mutex_unlock_def index_defs)
qed

lemma write_msg_rep:
  assumes rep: "rep_at cf q w ino seg" and mu: "\<not> q_mutex q" and it: "item_for item d b" and b: "body_ok cf b"
    and lt: "Suc (wi_of q) < 2 ^ 64" and sp: "\<not> storage_short cf w"
  obtains q' w' ino' seg' where "mq_sm_db_write_msg cf q item w = Some (True, q', w')"
    and "rep_at cf q' w' ino' seg'" "messages q' seg' = messages q seg @ [(d, b)]"
    and "put_num q' = put_num q + 1" "get_num q' = get_num q" "wi_of q' \<le> Suc (wi_of q)" "evolves cf q w q' w'"
proof (cases "max_db cf < wpos_of q + MSG_HEAD_LEN + length b")
  case False
  note D = rep_atD [OF rep]
  have b0: "0 < length b" and fit: "wpos_of q + MSG_HEAD_LEN + length b \<le> max_db cf"
    using b False by (simp_all add: body_ok_def)
  obtain q' w' where h: "write_here q item w = Some (True, q', w')"
      "rep_at cf q' w' ino (seg(wi_of q := seg (wi_of q) @ [(d, b)]))" "ri_of q' = ri_of q" "wi_of q' = wi_of q"
      "put_num q' = put_num q + 1" "get_num q' = get_num q" "evolves cf q w q' w'"
    by (rule write_here_rep [OF rep it b0 fit])
  have "mq_sm_db_write_msg cf q item w = Some (True, q', w')"
    using room_test [OF rep b] False h(1) by (simp add: write_msg_split item_for_bytes(3) [OF it])
  then show ?thesis
    by (rule that [OF _ h(2)]) (use messages_append [OF D(6) h(3,4)] h in simp_all)
next
  case True
  note D = rep_atD [OF rep] and H = handlesD [OF rep]
  obtain w1 q2 q1 w2 ino' where r: "mq_sm_db_write_file_head q w = Some (True, w1)" "mutex_lock q = Some q2"
      "get_next_write_file cf q2 w1 = Some (True, q1, w2)"
      "rep_at cf (mutex_unlock q1) w2 ino' (seg(Suc (wi_of q) := []))"
      "ri_of (mutex_unlock q1) = ri_of q" "wi_of (mutex_unlock q1) = Suc (wi_of q)"
      "wpos_of (mutex_unlock q1) = DB_FILE_HEAD_LEN"
      "put_num (mutex_unlock q1) = put_num q" "get_num (mutex_unlock q1) = get_num q"
      "evolves cf q w (mutex_unlock q1) w2"
    by (rule roll_rep [OF rep mu lt sp])
  let ?q = "mutex_unlock q1" and ?seg = "seg(Suc (wi_of q) := [])"
  have b0: "0 < length b" and fit: "wpos_of ?q + MSG_HEAD_LEN + length b \<le> max_db cf"
    using b r(7) by (simp_all add: body_ok_def)
  obtain q' w' where h: "write_here ?q item w2 = Some (True, q', w')"
      "rep_at cf q' w' ino' (?seg(wi_of ?q := ?seg (wi_of ?q) @ [(d, b)]))" "ri_of q' = ri_of ?q" "wi_of q' = wi_of ?q"
      "put_num q' = put_num ?q + 1" "get_num q' = get_num ?q" "evolves cf ?q w2 q' w'"
    by (rule write_here_rep [OF r(4) it b0 fit])
  have "d_map_mem (cur_wdb q) \<noteq> None" using H(16) by auto
  then have "mq_sm_db_write_msg cf q item w = Some (True, q', w')"
    using room_test [OF rep b] True r(1-3) h(1) by (simp add: write_msg_split item_for_bytes(3) [OF it])
  moreover have "messages q' (?seg(wi_of ?q := ?seg (wi_of ?q) @ [(d, b)])) = messages q seg @ [(d, b)]"
    unfolding messages_append [OF rep_atD(6) [OF r(4)] h(3,4)] messages_new_file [OF D(6) r(5,6)] ..
  moreover have "evolves cf q w q' w'" using r(10) h(7) by (rule evolves_trans)
  ultimately show ?thesis
    by (intro that [OF _ h(2)]) (use r h in simp_all)
qed

end
