(* ===== verification/Fifo_Queue.thy ===== *)
theory Fifo_Queue
  imports Fifo_Write
begin

text \<open>
  \<^verbatim>\<open>mq_qm_push_item\<close> and \<^verbatim>\<open>mq_qm_pop_item\<close> on a represented queue, and the contract of a bounded
  queue that the two keep over any sequence of calls.
\<close>

section \<open>The two operations\<close>

lemma rep_at_fields [simp]:
  "rep_at cf (q\<lparr>sync_intv := n\<rparr>) w ino seg \<longleftrightarrow> rep_at cf q w ino seg"
  by (simp add: rep_at_def handles_ok_def index_defs)

lemma queue_repD:
  assumes "queue_rep cf q w ms"
  obtains ino seg where "rep_at cf q w ino seg" "ms = messages q seg" "\<not> q_mutex q"
    "put_num q - get_num q = of_nat (length ms)" "length ms < 2 ^ 63"
  using assms unfolding queue_rep_def store_rep_def by blast

lemma queue_repI:
  "rep_at cf q w ino seg \<Longrightarrow> messages q seg = ms \<Longrightarrow> \<not> q_mutex q \<Longrightarrow> put_num q - get_num q = of_nat (length ms) \<Longrightarrow>
   length ms < 2 ^ 63 \<Longrightarrow> queue_rep cf q w ms"
  unfolding queue_rep_def store_rep_def by blast

lemma unat_count: "length ms < 2 ^ 63 \<Longrightarrow> unat (of_nat (length ms) :: u64) = length ms"
  by (simp add: unat_of_nat take_bit_nat_eq_self)

text \<open>An item as the callers of \<^verbatim>\<open>mq_qm_push_item\<close> fill it in.\<close>

definition put_item :: "msg_item \<Rightarrow> u32 \<Rightarrow> byte list \<Rightarrow> bool" where
  "put_item it d b \<longleftrightarrow>
     delay it = d \<and> unat (len it) = length b
     \<and> (\<exists>m. msg it = Caller m \<and> length b \<le> length m \<and> b = take (length b) m)"

text \<open>The item of a message, which is its delay and its bytes.\<close>

definition message_item :: "message \<Rightarrow> msg_item" where
  "message_item m = \<lparr>magic_num1 = 0, magic_num2 = 0, delay = fst m, crc16 = 0, len = of_nat (length (snd m)), msg = Caller (snd m)\<rparr>"

lemma message_item_put:
  assumes "conf_ok cf" and "body_ok cf (snd m)"
  shows "put_item (message_item m) (fst m) (snd m)"
  using assms unat_u32_small [OF assms(1), of "length (snd m)"] by (auto simp: put_item_def message_item_def body_ok_def)

lemma build_crc16:
  assumes "put_item it d b" and "conf_ok cf" and "body_ok cf b"
  shows "mq_sm_db_build_msg_crc16 w c (msg it) (len it) = Some (True, crc16_loop 0 b)"
proof -
  have l: "length b < 2 ^ 31" using assms(3) max_db_upper [OF assms(2)] by (simp add: body_ok_def)
  have u: "unat (len it) = length b" using assms(1) by (simp add: put_item_def)
  have s: "sint (len it) = int (length b)"
  proof -
    have "uint (len it) = int (length b)" using u by (simp add: uint_nat)
    then show ?thesis using l by (simp add: sint_uint signed_take_bit_int_eq_self)
  qed
  show ?thesis
    using assms s u by (auto simp: mq_sm_db_build_msg_crc16_def put_item_def load_msg_def crc16_append_def Let_def body_ok_def)
qed

lemma unat_maxque: "unat (ucast (maxque q) :: u64) = unat (maxque q)"
  using unsigned_less [of "maxque q", where 'a = nat] by (simp add: unsigned_ucast_eq take_bit_nat_eq_self)

lemma full_test:
  assumes "put_num q - get_num q = of_nat (length ms)" and "length ms < 2 ^ 63"
  shows "(put_num q - get_num q + 1 > ucast (maxque q)) \<longleftrightarrow> unat (maxque q) \<le> length ms"
proof -
  have e: "put_num q - get_num q + 1 = (of_nat (Suc (length ms)) :: u64)" using assms(1) by simp
  have u: "unat (of_nat (Suc (length ms)) :: u64) = Suc (length ms)"
    using assms(2) by (simp only: unat_of_nat) (simp add: take_bit_nat_eq_self)
  show ?thesis unfolding e word_less_nat_alt u unat_maxque by auto
qed

lemma push_full:
  assumes rep: "queue_rep cf q w ms" and full: "maxque q \<noteq> 0" "unat (maxque q) \<le> length ms"
  shows "mq_qm_push_item cf q item w = Some (QUEUE_FULL, q, w)"
  using full_test [of q ms] rep full by (simp add: mq_qm_push_item_def queue_rep_def)

lemma push_steps:
  assumes rep: "queue_rep cf q w ms" and it: "put_item item d b" and b: "body_ok cf b"
    and room: "maxque q = 0 \<or> length ms < unat (maxque q)" and lt: "Suc (wi_of q) < 2 ^ 64" and sp: "\<not> storage_short cf w"
  obtains q1 w1 it' where "item_for it' d b" "mq_sm_db_write_msg cf q it' w = Some (True, q1, w1)"
    and "mq_qm_push_item cf q item w = Some (QUEUE_PUT_OK, q1\<lparr>sync_intv := sync_countdown cf (sync_intv q1)\<rparr>,
       tag_put (wtag_fd q1) (wtag_line q1) w1)"
proof -
  obtain ino seg where r: "rep_at cf q w ino seg" "ms = messages q seg" "\<not> q_mutex q"
      "put_num q - get_num q = of_nat (length ms)" "length ms < 2 ^ 63"
    by (rule queue_repD [OF rep])
  let ?it = "item\<lparr>magic_num1 := MSG_HEAD_OF_FIRST_MAGIC_NUM, magic_num2 := MSG_HEAD_OF_SECOND_MAGIC_NUM\<rparr>"
  have it': "put_item ?it d b" using it by (simp add: put_item_def)
  have i: "item_for (?it\<lparr>crc16 := crc16_loop 0 b\<rparr>) d b" using it by (simp add: put_item_def item_for_def)
  then obtain q1 w1 ino' seg' where p: "mq_sm_db_write_msg cf q (?it\<lparr>crc16 := crc16_loop 0 b\<rparr>) w = Some (True, q1, w1)"
      "rep_at cf q1 w1 ino' seg'"
    by (rule write_msg_rep [OF r(1,3) _ b lt sp])
  have "mq_sm_wtag_write_item q1 w1 = (True, tag_put (wtag_fd q1) (wtag_line q1) w1)"
    using tag_write_items(2) [OF rep_atD(4) [OF p(2)] handlesD(5) [OF p(2)]] .
  moreover have "mq_sm_put_data cf ?it q w = Some (True, q1, w1)"
    using build_crc16 [OF it' rep_atD(1) [OF r(1)] b] p(1) by (simp add: mq_sm_put_data_def)
  ultimately show ?thesis
    using full_test [OF r(4,5)] room by (intro that [OF i p(1)]) (auto simp: mq_qm_push_item_def)
qed

lemma push_room:
  assumes rep: "queue_rep cf q w ms" and it: "put_item item d b" and b: "body_ok cf b"
    and room: "maxque q = 0 \<or> length ms < unat (maxque q)" "Suc (length ms) < 2 ^ 63"
    and lt: "Suc (wi_of q) < 2 ^ 64" and sp: "\<not> storage_short cf w"
  obtains q' w' where "mq_qm_push_item cf q item w = Some (QUEUE_PUT_OK, q', w')"
    and "queue_rep cf q' w' (ms @ [(d, b)])" "wi_of q' \<le> Suc (wi_of q)" "evolves cf q w q' w'"
proof -
  obtain ino seg where r: "rep_at cf q w ino seg" "ms = messages q seg" "\<not> q_mutex q"
      "put_num q - get_num q = of_nat (length ms)" "length ms < 2 ^ 63"
    by (rule queue_repD [OF rep])
  obtain q1 w1 it' where s: "item_for it' d b" "mq_sm_db_write_msg cf q it' w = Some (True, q1, w1)"
      "mq_qm_push_item cf q item w = Some (QUEUE_PUT_OK, q1\<lparr>sync_intv := sync_countdown cf (sync_intv q1)\<rparr>,
         tag_put (wtag_fd q1) (wtag_line q1) w1)"
    by (rule push_steps [OF rep it b room(1) lt sp])
  obtain ino' seg' where p: "rep_at cf q1 w1 ino' seg'" "messages q1 seg' = messages q seg @ [(d, b)]"
      "put_num q1 = put_num q + 1" "get_num q1 = get_num q" "wi_of q1 \<le> Suc (wi_of q)" "evolves cf q w q1 w1"
    by (rule write_msg_rep [OF r(1,3) s(1) b lt sp]) (use s(2) in auto)
  define w2 where "w2 = tag_put (wtag_fd q1) (wtag_line q1) w1"
  define q2 where "q2 = q1\<lparr>sync_intv := sync_countdown cf (sync_intv q1)\<rparr>"
  have "rep_at cf q2 w2 ino' seg'" unfolding q2_def w2_def using tag_put_rep [OF p(1)] by simp
  moreover have "messages q2 seg' = ms @ [(d, b)]" using p(2) r(2) by (simp add: q2_def index_defs)
  moreover have "put_num q2 - get_num q2 = of_nat (length (ms @ [(d, b)]))"
    using p(3,4) r(4) by (simp add: q2_def diff_add_eq [symmetric])
  moreover have "\<not> q_mutex q2" using evolvesD(3) [OF p(6)] r(3) by (simp add: q2_def)
  ultimately have "queue_rep cf q2 w2 (ms @ [(d, b)])" using room(2) by (intro queue_repI) simp_all
  moreover have "evolves cf q w q2 w2"
  proof -
    have "evolves cf q1 w1 q1 w2" unfolding w2_def by (rule tag_put_evolves [OF p(1)]) simp
    moreover have "evolves cf q1 w2 q2 w2" by (rule evolves_queue) (simp_all add: q2_def own_fds_def own_maps_def)
    ultimately show ?thesis using p(6) evolves_trans by blast
  qed
  ultimately show ?thesis using s(3) p(5) by (intro that [of q2 w2]) (simp_all add: q2_def w2_def index_defs)
qed

lemma pop_empty:
  assumes "queue_rep cf q w []"
  shows "\<exists>it. mq_qm_pop_item cf q item w = Some (QUEUE_GET_END, it, q, w)"
  using assms by (simp add: mq_qm_pop_item_def queue_rep_def)

lemma pop_steps:
  assumes rep: "queue_rep cf q w ((d, b) # ms)"
  obtains it q' w1 i where "mq_sm_get_data cf i q w = Some (True, it, q', w1)"
    and "mq_qm_pop_item cf q item w = Some (QUEUE_GET_OK, it, q', tag_put (rtag_fd q') (rtag_line q') w1)"
proof -
  obtain ino seg where r: "rep_at cf q w ino seg" "(d, b) # ms = messages q seg" "\<not> q_mutex q"
      "put_num q - get_num q = of_nat (length ((d, b) # ms))" "length ((d, b) # ms) < 2 ^ 63"
    by (rule queue_repD [OF rep])
  let ?it = "item\<lparr>magic_num1 := MSG_HEAD_OF_FIRST_MAGIC_NUM, magic_num2 := MSG_HEAD_OF_SECOND_MAGIC_NUM\<rparr>"
  obtain it q1 w1 seg' where g: "mq_sm_get_data cf ?it q w = Some (True, it, q1, w1)" "rep_at cf q1 w1 ino seg'"
    by (rule get_data_rep [OF r(1,3) r(2) [symmetric]])
  have tw: "mq_sm_rtag_write_item q1 w1 = (True, tag_put (rtag_fd q1) (rtag_line q1) w1)"
    using tag_write_items(1) [OF rep_atD(4) [OF g(2)] handlesD(4) [OF g(2)]] .
  have "unat (put_num q - get_num q) \<noteq> 0" using r(4) unat_count [OF r(5)] by (simp only:) simp
  then have "\<not> put_num q - get_num q < 1" by (simp add: word_less_nat_alt)
  then have "mq_qm_pop_item cf q item w = Some (QUEUE_GET_OK, it, q1, tag_put (rtag_fd q1) (rtag_line q1) w1)"
    using g(1) tw by (simp add: mq_qm_pop_item_def)
  then show ?thesis by (rule that [OF g(1)])
qed

lemma pop_message:
  assumes rep: "queue_rep cf q w ((d, b) # ms)"
  obtains it q' w' where "mq_qm_pop_item cf q item w = Some (QUEUE_GET_OK, it, q', w')"
    and "len it = of_nat (length b)" "delay it = d" "load_msg w' (msg it) (unat (len it)) = Some b"
    and "queue_rep cf q' w' ms" "wi_of q' = wi_of q" "evolves cf q w q' w'"
proof -
  obtain ino seg where r: "rep_at cf q w ino seg" "(d, b) # ms = messages q seg" "\<not> q_mutex q"
      "put_num q - get_num q = of_nat (length ((d, b) # ms))" "length ((d, b) # ms) < 2 ^ 63"
    by (rule queue_repD [OF rep])
  obtain it q1 w1 i where s: "mq_sm_get_data cf i q w = Some (True, it, q1, w1)"
      "mq_qm_pop_item cf q item w = Some (QUEUE_GET_OK, it, q1, tag_put (rtag_fd q1) (rtag_line q1) w1)"
    by (rule pop_steps [OF rep])
  obtain seg' where g: "rep_at cf q1 w1 ino seg'" "messages q1 seg' = ms" "len it = of_nat (length b)" "delay it = d"
      "load_msg w1 (msg it) (unat (len it)) = Some b" "put_num q1 - get_num q1 = put_num q - get_num q - 1"
      "evolves cf q w q1 w1" "\<exists>off. msg it = InMap (d_map_mem (cur_rdb q1)) off" "wi_of q1 = wi_of q"
    by (rule get_data_rep [OF r(1,3) r(2) [symmetric], of i]) (use s(1) in auto)
  define w2 where "w2 = tag_put (rtag_fd q1) (rtag_line q1) w1"
  have r2: "rep_at cf q1 w2 ino seg'" unfolding w2_def by (rule tag_put_rep [OF g(1)]) simp
  have ld: "load_msg w2 (msg it) (unat (len it)) = Some b"
    using g(5,8) tag_put_load [OF g(1), of "rtag_fd q1" "rtag_line q1"] by (auto simp: load_msg_def w2_def)
  have "queue_rep cf q1 w2 ms"
    using r2 g(2) evolvesD(3) [OF g(7)] r(3,5) g(6) r(4) by (intro queue_repI) simp_all
  moreover have "evolves cf q w q1 w2"
    using g(7) tag_put_evolves [OF g(1), of "rtag_fd q1"] evolves_trans unfolding w2_def by blast
  ultimately show ?thesis using that [OF s(2) g(3,4)] ld g(9) unfolding w2_def by blast
qed

end
