(* ===== verification/Fifo_Create.thy ===== *)
theory Fifo_Create
  imports Fifo_Queue
begin

text \<open>
  \<^verbatim>\<open>mq_sm_creat_db\<close> and \<^verbatim>\<open>mq_qm_add_queue\<close> on a name whose directory does not exist yet: the new
  queue represents the empty list, and nothing outside its directory changes.
\<close>

definition fresh_dir :: "ucmq_conf \<Rightarrow> string \<Rightarrow> world \<Rightarrow> bool" where
  "fresh_dir cf nm w \<longleftrightarrow> (\<forall>p. own_path cf nm p \<longrightarrow> lookup_path w p = None)"

text \<open>The world with the directory, the two tag files (still empty) and the data file.\<close>

definition dir_made :: "path \<Rightarrow> world \<Rightarrow> world" where
  "dir_made p w = w\<lparr>w_errno := ENOENT, w_fs := w_fs w @ [(p, DirN)]\<rparr>"

lemma dir_made_simps [simp]:
  "lookup_path w p = None \<Longrightarrow> lookup_path (dir_made p w) r = (if r = p then Some DirN else lookup_path w r)"
  "w_files (dir_made p w) = w_files w" "w_next_ino (dir_made p w) = w_next_ino w" "w_fds (dir_made p w) = w_fds w"
  "w_next_fd (dir_made p w) = w_next_fd w" "w_maps (dir_made p w) = w_maps w" "w_next_map (dir_made p w) = w_next_map w"
  "w_faults (dir_made p w) = w_faults w" "w_bavail (dir_made p w) = w_bavail w" "w_bsize (dir_made p w) = w_bsize w"
  by (auto simp: dir_made_def lookup_path_def map_add_def split: option.splits)

lemma wf_dir_made: "wf_world w \<Longrightarrow> lookup_path w p = None \<Longrightarrow> wf_world (dir_made p w)"
  by (erule wf_view) (auto split: if_splits)

definition queue_made :: "ucmq_conf \<Rightarrow> string \<Rightarrow> world \<Rightarrow> world" where
  "queue_made cf nm w =
     db_create cf (GEN_DATA_FULL_PATH_BY_QNAME_INDEX cf nm 1)
       (open_new (GEN_WTAG_FULL_PATH_BY_QNAME_INDEX cf nm 1) False
         (open_new (GEN_RTAG_FULL_PATH_BY_QNAME_INDEX cf nm 1) False (dir_made (queue_dir cf nm) w)))"

definition made_queue :: "ucmq_conf \<Rightarrow> string \<Rightarrow> world \<Rightarrow> mq_queue" where
  "made_queue cf nm w =
     (let db = \<lparr>d_fd = int (w_next_fd w + 2), d_stat = 0, d_flag = 1, d_map_mem = Some (w_next_map w), d_pos = 128,
                d_opt_count = 0, d_cur_index = 1\<rparr>
      in \<lparr>q_name = nm, rtag_fd = int (w_next_fd w), wtag_fd = int (w_next_fd w + 1), sync_intv = 0,
          maxque = def_max_queue cf, put_num = 0, get_num = 0, cur_rdb = db, cur_wdb = db, q_mutex = False\<rparr>)"

lemma queue_made_views:
  assumes "path_ok cf nm" and "fresh_dir cf nm w"
  shows "lookup_path (queue_made cf nm w) p =
       (if p = GEN_DATA_FULL_PATH_BY_QNAME_INDEX cf nm 1 then Some (RegN (w_next_ino w + 2))
        else if p = GEN_WTAG_FULL_PATH_BY_QNAME_INDEX cf nm 1 then Some (RegN (w_next_ino w + 1))
        else if p = GEN_RTAG_FULL_PATH_BY_QNAME_INDEX cf nm 1 then Some (RegN (w_next_ino w))
        else if p = queue_dir cf nm then Some DirN else lookup_path w p)"
    and "w_files (queue_made cf nm w) = (w_files w)(w_next_ino w := empty_file, w_next_ino w + 1 := empty_file,
       w_next_ino w + 2 := fresh_db cf)"
    and "w_fds (queue_made cf nm w) = (w_fds w)(
       int (w_next_fd w) \<mapsto> \<lparr>o_ino = w_next_ino w, o_off = 0, o_append = False, o_nonblock = True\<rparr>,
       int (w_next_fd w + 1) \<mapsto> \<lparr>o_ino = w_next_ino w + 1, o_off = 0, o_append = False, o_nonblock = True\<rparr>,
       int (w_next_fd w + 2) \<mapsto> \<lparr>o_ino = w_next_ino w + 2, o_off = max_db cf, o_append = False, o_nonblock = True\<rparr>)"
    and "w_maps (queue_made cf nm w) = (w_maps w)(w_next_map w \<mapsto> \<lparr>m_ino = w_next_ino w + 2, m_len = max_db cf\<rparr>)"
    and "w_next_ino (queue_made cf nm w) = w_next_ino w + 3" "w_next_fd (queue_made cf nm w) = w_next_fd w + 3"
    and "w_next_map (queue_made cf nm w) = w_next_map w + 1" "w_faults (queue_made cf nm w) = w_faults w"
    and "w_bavail (queue_made cf nm w) = w_bavail w" "w_bsize (queue_made cf nm w) = w_bsize w"
    and "wf_world w \<Longrightarrow> wf_world (queue_made cf nm w)"
proof -
  have own: "own_path cf nm (queue_dir cf nm)" by (simp add: own_path_def)
  then have free: "lookup_path w (queue_dir cf nm) = None"
      "lookup_path w (GEN_DATA_FULL_PATH_BY_QNAME_INDEX cf nm 1) = None"
      "lookup_path w (GEN_WTAG_FULL_PATH_BY_QNAME_INDEX cf nm 1) = None"
      "lookup_path w (GEN_RTAG_FULL_PATH_BY_QNAME_INDEX cf nm 1) = None"
    using assms by (simp_all add: fresh_dir_def)
  note nd = paths_not_dir [OF assms(1)] paths_not_dir [OF assms(1), THEN not_sym]
  show "lookup_path (queue_made cf nm w) p =
       (if p = GEN_DATA_FULL_PATH_BY_QNAME_INDEX cf nm 1 then Some (RegN (w_next_ino w + 2))
        else if p = GEN_WTAG_FULL_PATH_BY_QNAME_INDEX cf nm 1 then Some (RegN (w_next_ino w + 1))
        else if p = GEN_RTAG_FULL_PATH_BY_QNAME_INDEX cf nm 1 then Some (RegN (w_next_ino w))
        else if p = queue_dir cf nm then Some DirN else lookup_path w p)"
    using free nd assms(1) by (simp add: queue_made_def)
  show "wf_world (queue_made cf nm w)" if "wf_world w"
    unfolding queue_made_def using that free nd assms(1)
    by (intro wf_db_create wf_open_new wf_dir_made) simp_all
qed (simp_all add: queue_made_def eval_nat_numeral)

lemma made_queue_simps [simp]:
  "q_name (made_queue cf nm w) = nm" "rtag_fd (made_queue cf nm w) = int (w_next_fd w)"
  "wtag_fd (made_queue cf nm w) = int (w_next_fd w + 1)" "maxque (made_queue cf nm w) = def_max_queue cf"
  "put_num (made_queue cf nm w) = 0" "get_num (made_queue cf nm w) = 0" "\<not> q_mutex (made_queue cf nm w)"
  "ri_of (made_queue cf nm w) = 1" "wi_of (made_queue cf nm w) = 1"
  "rpos_of (made_queue cf nm w) = DB_FILE_HEAD_LEN" "wpos_of (made_queue cf nm w) = DB_FILE_HEAD_LEN"
  "d_map_mem (cur_rdb (made_queue cf nm w)) = Some (w_next_map w)"
  "d_map_mem (cur_wdb (made_queue cf nm w)) = Some (w_next_map w)"
  "d_fd (cur_rdb (made_queue cf nm w)) = int (w_next_fd w + 2)" "d_fd (cur_wdb (made_queue cf nm w)) = int (w_next_fd w + 2)"
  by (simp_all add: made_queue_def Let_def index_defs DB_FILE_HEAD_LEN_def)

lemma queue_made_rep:
  assumes cf: "conf_ok cf" and pk: "path_ok cf nm" and wf: "wf_world w" "w_faults w = []" and fr: "fresh_dir cf nm w"
  shows "rep_at cf (made_queue cf nm w) (queue_made cf nm w) (\<lambda>_. w_next_ino w + 2) (\<lambda>_. [])"
proof -
  note V = queue_made_views [OF pk fr]
  have one: "(of_nat n :: u64) = 1 \<longleftrightarrow> n = 1" if "n < 2 ^ 64" for n
    using of_nat_u64_inj [OF that, of 1] by simp
  have nd: "queue_dir cf nm \<noteq> GEN_DATA_FULL_PATH_BY_QNAME_INDEX cf nm i" "queue_dir cf nm \<noteq> GEN_RTAG_FULL_PATH_BY_QNAME_INDEX cf nm i"
      "queue_dir cf nm \<noteq> GEN_WTAG_FULL_PATH_BY_QNAME_INDEX cf nm i" for i
    using paths_not_dir [OF pk] by metis+
  have free: "lookup_path w (GEN_DATA_FULL_PATH_BY_QNAME_INDEX cf nm i) = None"
      "lookup_path w (GEN_WTAG_FULL_PATH_BY_QNAME_INDEX cf nm i) = None"
      "lookup_path w (GEN_RTAG_FULL_PATH_BY_QNAME_INDEX cf nm i) = None" for i
    using fr pk by (simp_all add: fresh_dir_def)
  have "data_rep cf nm (queue_made cf nm w) 1 1 DB_FILE_HEAD_LEN DB_FILE_HEAD_LEN (\<lambda>_. w_next_ino w + 2) (\<lambda>_. [])"
    using seg_ok_fresh [OF cf] by (simp add: data_rep_def V(1,2)) (simp add: fresh_db_def)
  moreover have "free_names cf nm (queue_made cf nm w) 1 1"
    using pk nd [THEN not_sym] by (simp add: free_names_def V(1) one free)
  moreover have "has_dir (queue_made cf nm w) (queue_dir cf nm)" using nd by (simp add: has_dir_def V(1))
  moreover have "handles_ok cf (made_queue cf nm w) (queue_made cf nm w) 1 1 (\<lambda>_. w_next_ino w + 2)"
    using pk by (simp add: handles_ok_def tag_fd_def maps_db_def map_file_def V empty_file_def) (simp add: fresh_db_def)
  moreover have "DB_FILE_HEAD_LEN \<le> max_db cf" using max_db_lower [OF cf] by (simp add: DB_FILE_HEAD_LEN_def)
  ultimately show ?thesis using cf pk V(8,11) wf by (simp add: rep_at_def)
qed

text \<open>The two lines that are written before the queue has an index and a position.\<close>

definition first_queue :: "ucmq_conf \<Rightarrow> string \<Rightarrow> world \<Rightarrow> mq_queue" where
  "first_queue cf nm w =
     zero_queue\<lparr>q_name := nm, rtag_fd := int (w_next_fd w), wtag_fd := int (w_next_fd w + 1),
       cur_wdb := zero_db_map\<lparr>d_map_mem := Some (w_next_map w), d_fd := int (w_next_fd w + 2)\<rparr>,
       maxque := def_max_queue cf\<rparr>"

definition queue_ready :: "ucmq_conf \<Rightarrow> string \<Rightarrow> world \<Rightarrow> world" where
  "queue_ready cf nm w =
     tag_put (int (w_next_fd w + 1)) (wtag_line (first_queue cf nm w))
       (tag_put (int (w_next_fd w)) (rtag_line (first_queue cf nm w)) (queue_made cf nm w))"

lemma queue_ready_rep:
  assumes "conf_ok cf" "path_ok cf nm" "wf_world w" "w_faults w = []" "fresh_dir cf nm w"
  shows "rep_at cf (made_queue cf nm w) (queue_ready cf nm w) (\<lambda>_. w_next_ino w + 2) (\<lambda>_. [])"
  unfolding queue_ready_def by (intro tag_put_rep queue_made_rep assms) simp_all

lemma queue_dir_parent:
  assumes "CHR ''/'' \<notin> set nm" and "has_dir w (data_file_path cf)"
  shows "parent_ok w (queue_dir cf nm)"
  using assms by (simp add: parent_ok_def queue_dir_def parent_of_name)

lemma creat_db_eval:
  assumes cf: "conf_ok cf" and pk: "path_ok cf nm" and wf: "wf_world w" "w_faults w = []" and fr: "fresh_dir cf nm w"
    and nm: "CHR ''/'' \<notin> set nm" and dp: "has_dir w (data_file_path cf)" and sp: "\<not> storage_short cf w"
  shows "\<exists>q. mq_sm_creat_db cf (zero_queue\<lparr>q_name := nm\<rparr>) w = Some (True, q, queue_ready cf nm w)
      \<and> init_queue cf q = made_queue cf nm w"
proof -
  let ?r = "GEN_RTAG_FULL_PATH_BY_QNAME_INDEX cf nm 1" and ?t = "GEN_WTAG_FULL_PATH_BY_QNAME_INDEX cf nm 1"
    and ?d = "GEN_DATA_FULL_PATH_BY_QNAME_INDEX cf nm 1"
  define w1 where "w1 = dir_made (queue_dir cf nm) w"
  define w2 where "w2 = open_new ?r False w1"
  define w3 where "w3 = open_new ?t False w2"
  have own: "own_path cf nm (queue_dir cf nm)" by (simp add: own_path_def)
  have free: "lookup_path w (queue_dir cf nm) = None" "lookup_path w ?d = None" "lookup_path w ?t = None" "lookup_path w ?r = None"
    using fr pk own by (simp_all add: fresh_dir_def)
  note nd = paths_not_dir [OF pk] paths_not_dir [OF pk, THEN not_sym]
  have dirs: "has_dir w1 (queue_dir cf nm)" "has_dir w2 (queue_dir cf nm)" "has_dir w3 (queue_dir cf nm)"
    using free nd pk by (simp_all add: has_dir_def w1_def w2_def w3_def)
  have ac: "sys_access (queue_dir cf nm) w = (-1, w\<lparr>w_errno := ENOENT\<rparr>)"
    using wf free by (simp add: sys_access_def)
  have mk: "sys_mkdir (queue_dir cf nm) (w\<lparr>w_errno := ENOENT\<rparr>) = (0, w1)"
    using wf free queue_dir_parent [OF nm dp]
    by (simp add: sys_mkdir_def w1_def dir_made_def lookup_path_def parent_ok_def has_dir_def split: option.splits)
  have o1: "sys_open ?r True False w1 = (int (w_next_fd w), w2)"
    using sys_open_new [of w1 ?r False] wf free nd queue_parent_ok(2) [OF pk dirs(1)] by (simp add: w2_def w1_def)
  have f2: "lookup_path w2 ?t = None" using free nd pk by (simp add: w2_def w1_def)
  have o2: "sys_open ?t True False w2 = (int (w_next_fd w + 1), w3)"
    using sys_open_new [OF _ f2 queue_parent_ok(3) [OF pk dirs(2)], of False] wf by (simp add: w3_def) (simp add: w2_def w1_def)
  have f3: "lookup_path w3 ?d = None" using free nd pk by (simp add: w3_def w2_def w1_def)
  have o3: "mq_sm_open_db_file cf ?d FOPEN_FLAG_CREATE w3
      = (Some (w_next_map w), int (w_next_fd w + 2), queue_made cf nm w)"
    using open_db_file_create [OF cf _ f3 queue_parent_ok(1) [OF pk dirs(3)]] wf
    by (simp add: queue_made_def w1_def w2_def w3_def eval_nat_numeral)
  note rep = queue_made_rep [OF cf pk wf fr]
  have t1: "mq_sm_rtag_write_item (first_queue cf nm w) (queue_made cf nm w)
      = (True, tag_put (int (w_next_fd w)) (rtag_line (first_queue cf nm w)) (queue_made cf nm w))"
    using tag_write_items(1) [of "queue_made cf nm w" "first_queue cf nm w"] rep_atD(4) [OF rep] handlesD(4) [OF rep]
    by (simp add: first_queue_def)
  have rep': "rep_at cf (made_queue cf nm w) (tag_put (int (w_next_fd w)) (rtag_line (first_queue cf nm w)) (queue_made cf nm w))
      (\<lambda>_. w_next_ino w + 2) (\<lambda>_. [])"
    by (rule tag_put_rep [OF rep]) simp
  have t2: "mq_sm_wtag_write_item (first_queue cf nm w)
        (tag_put (int (w_next_fd w)) (rtag_line (first_queue cf nm w)) (queue_made cf nm w)) = (True, queue_ready cf nm w)"
    using tag_write_items(2) [of _ "first_queue cf nm w"] rep_atD(4) [OF rep'] handlesD(5) [OF rep']
    by (simp add: first_queue_def queue_ready_def)
  show ?thesis
    using sp ac mk o1 o2 o3 t1 t2 full_paths(4) [OF pk]
    by (simp add: mq_sm_creat_db_def first_queue_def init_queue_def made_queue_def zero_queue_def zero_db_map_def
        DB_FILE_HEAD_LEN_def Let_def)
qed

lemma queue_ready_files:
  assumes pk: "path_ok cf nm" and fr: "fresh_dir cf nm w"
  shows "i < w_next_ino w \<Longrightarrow> w_files (queue_ready cf nm w) i = w_files w i"
    and "fd < int (w_next_fd w) \<Longrightarrow> w_fds (queue_ready cf nm w) fd = w_fds w fd"
    and "m < w_next_map w \<Longrightarrow> w_maps (queue_ready cf nm w) m = w_maps w m"
  using queue_made_views [OF pk fr] by (simp_all add: queue_ready_def tag_put_simps)

lemma add_queue_new:
  assumes cf: "conf_ok cf" and pk: "path_ok cf nm" and wf: "wf_world w" "w_faults w = []" and fr: "fresh_dir cf nm w"
    and nm: "CHR ''/'' \<notin> set nm" "length nm \<le> MAX_QUEUE_NAME_LEN" and dp: "has_dir w (data_file_path cf)"
    and sp: "\<not> storage_short cf w" and lim: "int (length l) < max_qlist_itmes cf"
  shows "mq_qm_add_queue cf nm l w = Some (Some (length l), l @ [(nm, made_queue cf nm w)], queue_ready cf nm w)"
    and "queue_rep cf (made_queue cf nm w) (queue_ready cf nm w) []"
proof -
  note rep = queue_ready_rep [OF cf pk wf fr]
  have "sys_malloc (queue_ready cf nm w) = (True, queue_ready cf nm w)"
    using rep_atD(4) [OF rep] by (simp add: sys_malloc_def)
  moreover have "length l < 2 ^ 31" using lim cf by (simp add: conf_ok_def)
  ultimately show "mq_qm_add_queue cf nm l w = Some (Some (length l), l @ [(nm, made_queue cf nm w)], queue_ready cf nm w)"
    using creat_db_eval [OF cf pk wf fr nm(1) dp sp] nm(2) lim
    by (auto simp: mq_qm_add_queue_def queue_num_small hash_add_queue_kv_def)
  show "queue_rep cf (made_queue cf nm w) (queue_ready cf nm w) []"
    by (rule queue_repI [OF rep]) simp_all
qed

section \<open>Other queues\<close>

text \<open>What a queue shares with no other: its tag descriptors are not handles of the other, and the
  mappings are different.\<close>

definition apart :: "mq_queue \<Rightarrow> mq_queue \<Rightarrow> bool" where
  "apart q r \<longleftrightarrow>
     q_name q \<noteq> q_name r \<and> CHR ''/'' \<notin> set (q_name q) \<and> CHR ''/'' \<notin> set (q_name r)
     \<and> own_fds q \<inter> own_fds r = {} \<and> own_maps q \<inter> own_maps r = {}"

lemma apart_sym: "apart q r \<longleftrightarrow> apart r q"
  by (auto simp: apart_def)

lemma own_handles_old:
  assumes "rep_at cf q w ino seg"
  shows "fd \<in> own_fds q \<Longrightarrow> fd < int (w_next_fd w)" and "k \<in> own_maps q \<Longrightarrow> \<exists>m. k = Some m \<and> m < w_next_map w"
  using handlesD [OF assms] by (auto simp: own_fds_def own_maps_def)

lemma apart_evolves:
  assumes "apart q r" and "rep_at cf r w ino seg" and "evolves cf q w q' w'"
  shows "apart q' r"
proof -
  note E = evolvesD [OF assms(3)] and O = own_handles_old [OF assms(2)]
  have "own_fds q' \<inter> own_fds r = {}" using E(13) O(1) assms(1) unfolding apart_def by fastforce
  moreover have "own_maps q' \<inter> own_maps r = {}" using E(15) O(2) assms(1) unfolding apart_def by fastforce
  ultimately show ?thesis using assms(1) E(1) by (simp add: apart_def)
qed

text \<open>The representation of a queue only depends on what an operation on another queue keeps.\<close>

lemma rep_frame:
  assumes rep: "rep_at cf r w ino seg" and wf: "wf_world w'" "w_faults w' = []"
    and lk: "\<And>p. own_path cf (q_name r) p \<Longrightarrow> lookup_path w' p = lookup_path w p"
    and fl: "\<And>i. own_ino cf (q_name r) w i \<Longrightarrow> w_files w' i = w_files w i"
    and fd: "\<And>fd. fd \<in> own_fds r \<Longrightarrow> w_fds w' fd = w_fds w fd"
    and mp: "\<And>m. Some m \<in> own_maps r \<Longrightarrow> w_maps w' m = w_maps w m" and nx: "w_next_fd w \<le> w_next_fd w'"
  shows "rep_at cf r w' ino seg"
proof -
  note D = rep_atD [OF rep] and H = handlesD [OF rep]
  have own: "own_path cf (q_name r) (queue_dir cf (q_name r))" by (simp add: own_path_def)
  have fi: "w_files w' (ino n) = w_files w (ino n)" if "n \<in> {ri_of r..wi_of r}" for n
    using data_rep_lookup [OF D(9) that] own_ino_lookup [OF own_paths(1) [OF D(2)]] fl by blast
  have "data_rep cf (q_name r) w' (ri_of r) (wi_of r) (rpos_of r) (wpos_of r) ino seg"
    using D(9) fi lk D(2) unfolding data_rep_def by simp
  moreover have "free_names cf (q_name r) w' (ri_of r) (wi_of r)" "has_dir w' (queue_dir cf (q_name r))"
    using D(2,5,8) lk own by (simp_all add: free_names_def has_dir_def)
  moreover have "maps_db cf w' (d_map_mem (cur_rdb r)) (ino (ri_of r))" "maps_db cf w' (d_map_mem (cur_wdb r)) (ino (wi_of r))"
    using H(15,16) D(6) fi mp by (auto intro!: maps_db_cong [OF H(1)] maps_db_cong [OF H(2)] simp: own_maps_def)
  moreover have "tag_fd w' (rtag_fd r) (rtag_path cf (q_name r) (ri_of r))" "tag_fd w' (wtag_fd r) (wtag_path cf (q_name r) (wi_of r))"
    using D(2) lk fd
    by (auto intro!: tag_fd_cong [OF H(4)] tag_fd_cong [OF H(5)] fl intro: own_ino_lookup [OF own_paths(2)]
        own_ino_lookup [OF own_paths(3)] simp: own_fds_def)
  ultimately show ?thesis
    using D(1,2,6,7) H(3,6-12) wf nx unfolding rep_at_def handles_ok_def by simp
qed

lemma evolves_frame:
  assumes rep: "rep_at cf r w ino seg" and ev: "evolves cf q w q' w'" and ap: "apart q r"
    and wf: "wf_world w" "wf_world w'" "w_faults w' = []"
  shows "rep_at cf r w' ino seg"
proof (rule rep_frame [OF rep wf(2,3)])
  note E = evolvesD [OF ev] and O = own_handles_old [OF rep]
  have other: "\<not> own_path cf (q_name q) p" if "own_path cf (q_name r) p" for p
    using own_path_disjoint that ap unfolding apart_def by blast
  show "lookup_path w' p = lookup_path w p" if "own_path cf (q_name r) p" for p
    using E(9) other that by blast
  show "w_files w' i = w_files w i" if i: "own_ino cf (q_name r) w i" for i
  proof -
    obtain p where p: "own_path cf (q_name r) p" "lookup_path w p = Some (RegN i)" using i by (auto simp: own_ino_def)
    have "\<not> own_ino cf (q_name q) w i"
    proof
      assume "own_ino cf (q_name q) w i"
      then obtain p' where "own_path cf (q_name q) p'" "lookup_path w p' = Some (RegN i)" by (auto simp: own_ino_def)
      then show False using wf_world_inj [OF wf(1) p(2)] other p(1) by blast
    qed
    then show ?thesis using E(10) wf_world_lookup [OF wf(1) p(2)] by blast
  qed
  show "w_fds w' fd = w_fds w fd" if "fd \<in> own_fds r" for fd
    using E(12) O(1) that ap unfolding apart_def by blast
  show "w_maps w' m = w_maps w m" if "Some m \<in> own_maps r" for m
    using E(14) O(2) [OF that] that ap unfolding apart_def by blast
qed (use evolvesD(7) [OF ev] in simp)

end
