(* ===== verification/Api_Fifo.thy ===== *)
theory Api_Fifo
  imports Mq_Api Fifo_Create
begin

text \<open>
  The calls of the library on the whole store. The abstract state is a finite map from the names
  of the queues to their messages; the concrete one is the table of queues, the counters and the
  world. A call on one queue changes that queue as a FIFO and leaves the others alone.
\<close>

section \<open>Names\<close>

lemma qname_check_loop_iff:
  "qname_check_loop i s \<longleftrightarrow>
     (\<forall>c \<in> set s. name_char c \<or> c = CHR ''_'') \<and> (s \<noteq> [] \<longrightarrow> (i = 0 \<longrightarrow> hd s \<noteq> CHR ''_'') \<and> last s \<noteq> CHR ''_'')"
proof (induction i s rule: qname_check_loop.induct)
  case (2 i c cs)
  have "\<not> name_char (CHR ''_'')" by (simp add: name_char_def)
  with 2 show ?case by (cases cs) auto
qed simp

lemma qname_check_cases: "qname_check n = 0 \<or> qname_check n = 1"
  by (simp add: qname_check_def split: option.splits)

lemma qname_check_iff:
  "qname_check (Some s) = 1 \<longleftrightarrow>
     0 < length s \<and> length s \<le> MAX_QUEUE_NAME_LEN \<and> (\<forall>c \<in> set s. name_char c \<or> c = CHR ''_'')
     \<and> hd s \<noteq> CHR ''_'' \<and> last s \<noteq> CHR ''_''"
  by (auto simp: qname_check_def qname_check_loop_iff)

lemma qname_no_slash: "qname_check (Some s) = 1 \<Longrightarrow> CHR ''/'' \<notin> set s"
  by (auto simp: qname_check_iff name_char_def)

section \<open>The table\<close>

lemma hash_find_Some:
  "hash_find k l = Some i \<Longrightarrow> i < length l \<and> fst (l ! i) = k"
  by (induction l arbitrary: i) (auto split: option.splits if_splits)

lemma hash_find_None: "hash_find k l = None \<longleftrightarrow> k \<notin> fst ` set l"
  by (induction l) (auto split: option.splits)

lemma hash_find_snoc: "hash_find k (l @ [(k, x)]) = Some (length l)"
  by (induction l) auto

section \<open>The representation of a store\<close>

text \<open>
  The path of the data directory leaves room for every legal queue name, and the names that are
  not in use have no directory.
\<close>

definition queues_rep :: "ucmq_conf \<Rightarrow> mq_queue_list \<Rightarrow> world \<Rightarrow> (string \<rightharpoonup> message list) \<Rightarrow> bool" where
  "queues_rep cf l w M \<longleftrightarrow>
     distinct (map fst l) \<and> dom M = fst ` set l
     \<and> (\<forall>nm q. (nm, q) \<in> set l \<longrightarrow> q_name q = nm \<and> qname_check (Some nm) = 1
          \<and> queue_rep cf q w (the (M nm)))
     \<and> (\<forall>nm q nm' q'. (nm, q) \<in> set l \<longrightarrow> (nm', q') \<in> set l \<longrightarrow> nm \<noteq> nm' \<longrightarrow> apart q q')
     \<and> (\<forall>nm. qname_check (Some nm) = 1 \<longrightarrow> M nm = None \<longrightarrow> fresh_dir cf nm w)"

definition api_rep :: "mq_state \<Rightarrow> (string \<rightharpoonup> message list) \<Rightarrow> bool" where
  "api_rep s M \<longleftrightarrow>
     conf_ok (st_conf s) \<and> length (data_file_path (st_conf s)) + 1 + MAX_QUEUE_NAME_LEN \<le> 127
     \<and> wf_world (st_world s) \<and> w_faults (st_world s) = []
     \<and> has_dir (st_world s) (data_file_path (st_conf s))
     \<and> queues_rep (st_conf s) (st_qlist s) (st_world s) M \<and> length (st_qlist s) < 2 ^ 31"

lemma queue_rep_frame:
  assumes "queue_rep cf r w ms" and "evolves cf q w q' w'" and "apart q r"
    and "wf_world w" "wf_world w'" "w_faults w' = []"
  shows "queue_rep cf r w' ms"
  using assms evolves_frame unfolding queue_rep_def store_rep_def by blast

lemma queue_rep_world:
  assumes "queue_rep cf q w ms"
  shows "wf_world w" "w_faults w = []" "has_dir w (queue_dir cf (q_name q))"
proof -
  obtain ino seg where r: "rep_at cf q w ino seg" by (rule queue_repD [OF assms])
  show "wf_world w" "w_faults w = []" "has_dir w (queue_dir cf (q_name q))" using rep_atD [OF r] by simp_all
qed

lemma data_dir_not_own: "\<not> own_path cf nm (data_file_path cf)"
  by (auto simp: own_path_def queue_dir_def)

lemma queues_repD:
  assumes "queues_rep cf l w M"
  shows "distinct (map fst l)" "dom M = fst ` set l"
    "(nm, q) \<in> set l \<Longrightarrow> q_name q = nm" "(nm, q) \<in> set l \<Longrightarrow> qname_check (Some nm) = 1"
    "(nm, q) \<in> set l \<Longrightarrow> queue_rep cf q w (the (M nm))"
    "(nm, q) \<in> set l \<Longrightarrow> (nm', q') \<in> set l \<Longrightarrow> nm \<noteq> nm' \<Longrightarrow> apart q q'"
    "qname_check (Some nm) = 1 \<Longrightarrow> M nm = None \<Longrightarrow> fresh_dir cf nm w"
  using assms unfolding queues_rep_def by blast+

text \<open>The entries of a table with distinct keys after one of them was replaced.\<close>

lemma set_update_entry:
  assumes d: "distinct (map fst l)" and i: "i < length l" "fst (l ! i) = nm"
  shows "(a, r) \<in> set (l[i := (nm, q)]) \<longleftrightarrow> (a = nm \<and> r = q) \<or> (a \<noteq> nm \<and> (a, r) \<in> set l)"
proof -
  have ne: "fst (l ! j) \<noteq> nm" if "j < length l" "j \<noteq> i" for j
    using nth_eq_iff_index_eq [OF d, of j i] that i by simp
  have "(a, r) \<in> set (l[i := (nm, q)]) \<longleftrightarrow> (\<exists>j < length l. (if j = i then (nm, q) else l ! j) = (a, r))"
    by (auto simp: in_set_conv_nth nth_list_update)
  also have "\<dots> \<longleftrightarrow> (a = nm \<and> r = q) \<or> (a \<noteq> nm \<and> (a, r) \<in> set l)"
    using i ne by (auto simp: in_set_conv_nth split: if_splits) (metis fst_conv)+
  finally show ?thesis .
qed

lemma keys_update: "i < length l \<Longrightarrow> fst (l ! i) = nm \<Longrightarrow> map fst (l[i := (nm, q)]) = map fst l"
  by (simp add: map_update list_update_same_conv)

text \<open>The other queues of the table keep their messages.\<close>

lemma other_queue:
  assumes rep: "queues_rep cf l w M" and q: "(nm, q) \<in> set l" and r: "(a, r) \<in> set l" "a \<noteq> nm"
    and ev: "evolves cf q w q' w'" and wf: "wf_world w'" "w_faults w' = []"
  shows "queue_rep cf r w' (the (M a))" and "apart q' r"
proof -
  note R = queues_repD [OF rep]
  have ap: "apart q r" using R(6) [OF q r(1)] r(2) by simp
  have old: "queue_rep cf r w (the (M a))" by (rule R(5) [OF r(1)])
  show "queue_rep cf r w' (the (M a))"
    by (rule queue_rep_frame [OF old ev ap queue_rep_world(1) [OF old] wf])
  obtain ino seg where "rep_at cf r w ino seg" by (rule queue_repD [OF old])
  then show "apart q' r" by (rule apart_evolves [OF ap _ ev])
qed

lemma fresh_dir_evolves:
  assumes "fresh_dir cf a w" and "evolves cf q w q' w'" and "a \<noteq> q_name q"
    and "CHR ''/'' \<notin> set a" "CHR ''/'' \<notin> set (q_name q)"
  shows "fresh_dir cf a w'"
  unfolding fresh_dir_def
proof (intro allI impI)
  fix p
  assume p: "own_path cf a p"
  then have "\<not> own_path cf (q_name q) p" using own_path_disjoint [OF p] assms(3-5) by blast
  then show "lookup_path w' p = None"
    using evolvesD(9) [OF assms(2), of p] assms(1) p by (simp add: fresh_dir_def)
qed

text \<open>One queue of the table has moved on.\<close>

lemma queues_rep_step:
  assumes rep: "queues_rep cf l w M" and i: "i < length l" "l ! i = (nm, q)"
    and ev: "evolves cf q w q' w'" and new: "queue_rep cf q' w' ms"
  shows "queues_rep cf (l[i := (nm, q')]) w' (M(nm \<mapsto> ms))"
proof -
  note R = queues_repD [OF rep] and W = queue_rep_world(1,2) [OF new] and E = evolvesD [OF ev]
  have mem: "(nm, q) \<in> set l" using i by (metis nth_mem)
  have fi: "fst (l ! i) = nm" using i(2) by simp
  note S = set_update_entry [OF R(1) i(1) fi] and K = keys_update [OF i(1) fi, of q']
  note other = other_queue [OF rep mem _ _ ev W]
  have nm: "q_name q = nm" "qname_check (Some nm) = 1" using R(3,4) mem by blast+
  have "dom (M(nm \<mapsto> ms)) = fst ` set (l[i := (nm, q')])"
  proof -
    have "fst ` set (l[i := (nm, q')]) = fst ` set l" using K by (metis list.set_map)
    moreover have "nm \<in> fst ` set l" using mem by force
    ultimately show ?thesis using R(2) by auto
  qed
  moreover have "q_name r = a \<and> qname_check (Some a) = 1 \<and> queue_rep cf r w' (the ((M(nm \<mapsto> ms)) a))"
    if "(a, r) \<in> set (l[i := (nm, q')])" for a r
  proof (cases "a = nm")
    case True
    then show ?thesis using that S nm E(1) new by simp
  next
    case False
    then have "(a, r) \<in> set l" using that S by simp
    then show ?thesis using R(3,4) other(1) False by simp
  qed
  moreover have "apart r r'" if e: "(a, r) \<in> set (l[i := (nm, q')])" "(b, r') \<in> set (l[i := (nm, q')])" "a \<noteq> b" for a r b r'
  proof (cases "a = nm")
    case True
    then show ?thesis using e S other(2) by simp
  next
    case False
    then have r: "(a, r) \<in> set l" using e(1) S by simp
    show ?thesis
    proof (cases "b = nm")
      case True
      then show ?thesis using e(2) S other(2) [OF r False] apart_sym by simp
    next
      case False
      then have "(b, r') \<in> set l" using e(2) S by simp
      then show ?thesis using R(6) [OF r] e(3) by blast
    qed
  qed
  moreover have "fresh_dir cf a w'" if a: "qname_check (Some a) = 1" "(M(nm \<mapsto> ms)) a = None" for a
  proof -
    have "a \<noteq> nm" "M a = None" using a(2) by (auto split: if_splits)
    then show ?thesis
      using fresh_dir_evolves [OF R(7) [OF a(1)] ev] qname_no_slash [OF a(1)] qname_no_slash [OF nm(2)] nm(1) by simp
  qed
  moreover have "distinct (map fst (l[i := (nm, q')]))" using R(1) K by simp
  ultimately show ?thesis unfolding queues_rep_def by blast
qed

text \<open>A new queue at the end of the table.\<close>

lemma queue_ready_evolves:
  assumes cf: "conf_ok cf" and pk: "path_ok cf nm" and wf: "wf_world w" "w_faults w = []" and fr: "fresh_dir cf nm w"
    and q: "q_name q = nm" "maxque q = def_max_queue cf" "\<not> q_mutex q"
  shows "evolves cf q w (made_queue cf nm w) (queue_ready cf nm w)"
proof -
  note V = queue_made_views [OF pk fr] and F = queue_ready_files [OF pk fr]
  have own: "own_path cf nm (queue_dir cf nm)" by (simp add: own_path_def)
  show ?thesis
  proof (rule evolvesI)
    show "own_path cf (q_name q) p \<or> lookup_path (queue_ready cf nm w) p = lookup_path w p" for p
      using own pk by (auto simp: queue_ready_def V(1) q(1))
    show "own_ino cf (q_name q) w i \<or> w_next_ino w \<le> i" if "own_ino cf (q_name q) (queue_ready cf nm w) i" for i
      using that by (auto simp: own_ino_def queue_ready_def V(1) q(1) split: if_splits)
  qed (use F q V(5-10) in \<open>auto simp: queue_ready_def own_fds_def own_maps_def\<close>)
qed

lemma queues_rep_new:
  assumes rep: "queues_rep cf l w M" and cf: "conf_ok cf" and pk: "path_ok cf nm" and wf: "wf_world w" "w_faults w = []"
    and nm: "qname_check (Some nm) = 1" "M nm = None"
  shows "queues_rep cf (l @ [(nm, made_queue cf nm w)]) (queue_ready cf nm w) (M(nm \<mapsto> []))"
proof -
  note R = queues_repD [OF rep]
  have fr: "fresh_dir cf nm w" by (rule R(7) [OF nm])
  let ?q = "made_queue cf nm w" and ?w = "queue_ready cf nm w"
  define q0 where "q0 = zero_queue\<lparr>q_name := nm, maxque := def_max_queue cf, rtag_fd := int (w_next_fd w), wtag_fd := int (w_next_fd w),
     cur_rdb := zero_db_map\<lparr>d_fd := int (w_next_fd w), d_map_mem := Some (w_next_map w)\<rparr>,
     cur_wdb := zero_db_map\<lparr>d_fd := int (w_next_fd w), d_map_mem := Some (w_next_map w)\<rparr>\<rparr>"
  have q0: "q_name q0 = nm" "maxque q0 = def_max_queue cf" "\<not> q_mutex q0" "own_fds q0 = {int (w_next_fd w)}"
      "own_maps q0 = {Some (w_next_map w)}"
    by (auto simp: q0_def zero_queue_def own_fds_def own_maps_def)
  have ev: "evolves cf q0 w ?q ?w" by (rule queue_ready_evolves [OF cf pk wf fr q0(1-3)])
  have new: "queue_rep cf ?q ?w []" by (rule queue_repI [OF queue_ready_rep [OF cf pk wf fr]]) simp_all
  note W = queue_rep_world(1,2) [OF new]
  have nin: "nm \<notin> fst ` set l" using R(2) nm(2) by (metis domIff)
  have other: "queue_rep cf r ?w (the (M a)) \<and> apart ?q r" if r: "(a, r) \<in> set l" for a r
  proof -
    have old: "queue_rep cf r w (the (M a))" by (rule R(5) [OF r])
    obtain ino seg where ra: "rep_at cf r w ino seg" by (rule queue_repD [OF old])
    note O = own_handles_old [OF ra]
    have "a \<noteq> nm" using nin r by force
    then have ap: "apart q0 r"
      using O R(3,4) [OF r] qname_no_slash nm(1) unfolding apart_def q0 by fastforce
    show ?thesis using queue_rep_frame [OF old ev ap wf(1) W] apart_evolves [OF ap ra ev] by blast
  qed
  have "distinct (map fst (l @ [(nm, ?q)]))" using R(1) nin by simp
  moreover have "dom (M(nm \<mapsto> [])) = fst ` set (l @ [(nm, ?q)])" using R(2) by auto
  moreover have "q_name r = a \<and> qname_check (Some a) = 1 \<and> queue_rep cf r ?w (the ((M(nm \<mapsto> [])) a))"
    if "(a, r) \<in> set (l @ [(nm, ?q)])" for a r
  proof (cases "(a, r) \<in> set l")
    case True
    then have "a \<noteq> nm" using nin by force
    then show ?thesis using R(3,4) [OF True] other [OF True] by simp
  next
    case False
    then show ?thesis using that nm(1) new by simp
  qed
  moreover have "apart r r'" if "(a, r) \<in> set (l @ [(nm, ?q)])" "(b, r') \<in> set (l @ [(nm, ?q)])" "a \<noteq> b" for a r b r'
    using that other R(6) apart_sym by auto
  moreover have "fresh_dir cf a ?w" if a: "qname_check (Some a) = 1" "(M(nm \<mapsto> [])) a = None" for a
  proof -
    have "a \<noteq> nm" "M a = None" using a(2) by (auto split: if_splits)
    then show ?thesis
      using fresh_dir_evolves [OF R(7) [OF a(1)] ev] qname_no_slash [OF a(1)] qname_no_slash [OF nm(1)] q0(1) by simp
  qed
  ultimately show ?thesis unfolding queues_rep_def by blast
qed

section \<open>The calls\<close>

text \<open>The queue of a name, its limit, and whether the store can take one more message for it.\<close>

definition queue_of :: "mq_state \<Rightarrow> string \<Rightarrow> mq_queue option" where
  "queue_of s nm = map_of (st_qlist s) nm"

definition limit_of :: "mq_state \<Rightarrow> string \<Rightarrow> u32" where
  "limit_of s nm = (case queue_of s nm of Some q \<Rightarrow> maxque q | None \<Rightarrow> def_max_queue (st_conf s))"

definition can_grow :: "mq_state \<Rightarrow> string \<Rightarrow> bool" where
  "can_grow s nm \<longleftrightarrow>
     \<not> storage_short (st_conf s) (st_world s)
     \<and> (case queue_of s nm of
          Some q \<Rightarrow> Suc (wi_of q) < 2 ^ 64
        | None \<Rightarrow> int (length (st_qlist s)) < max_qlist_itmes (st_conf s))"

lemma find_queue:
  assumes rep: "queues_rep cf l w M"
  shows "M nm = Some ms \<Longrightarrow> \<exists>i q. mq_qm_find_queue nm l = Some i \<and> i < length l \<and> l ! i = (nm, q)
       \<and> map_of l nm = Some q \<and> queue_rep cf q w ms"
    and "M nm = None \<Longrightarrow> mq_qm_find_queue nm l = None \<and> map_of l nm = None"
proof -
  note R = queues_repD [OF rep]
  assume m: "M nm = Some ms"
  then have "nm \<in> fst ` set l" using R(2) by (metis domI)
  then obtain i where h: "hash_find nm l = Some i" using hash_find_None [of nm l] by auto
  then obtain q where q: "i < length l" "l ! i = (nm, q)" using hash_find_Some [OF h] by (metis prod.collapse)
  then have mem: "(nm, q) \<in> set l" by (metis nth_mem)
  then show "\<exists>i q. mq_qm_find_queue nm l = Some i \<and> i < length l \<and> l ! i = (nm, q)
       \<and> map_of l nm = Some q \<and> queue_rep cf q w ms"
    using h q R(1) R(5) [OF mem] m by (auto simp: mq_qm_find_queue_def hash_find_queue_by_key_def)
next
  assume "M nm = None"
  then have "nm \<notin> fst ` set l" using queues_repD(2) [OF rep] by (metis domIff)
  then show "mq_qm_find_queue nm l = None \<and> map_of l nm = None"
    by (simp add: mq_qm_find_queue_def hash_find_queue_by_key_def hash_find_None map_of_eq_None_iff)
qed

lemma api_repD:
  assumes "api_rep s M"
  shows "conf_ok (st_conf s)" "wf_world (st_world s)" "w_faults (st_world s) = []"
    "has_dir (st_world s) (data_file_path (st_conf s))" "queues_rep (st_conf s) (st_qlist s) (st_world s) M"
    "qname_check (Some nm) = 1 \<Longrightarrow> path_ok (st_conf s) nm" "length (st_qlist s) < 2 ^ 31"
  using assms by (simp_all add: api_rep_def path_ok_def qname_check_iff)

text \<open>An operation on one queue, at the level of the store.\<close>

lemma api_rep_step:
  assumes rep: "api_rep s M" and i: "i < length (st_qlist s)" "st_qlist s ! i = (nm, q)"
    and ev: "evolves (st_conf s) q (st_world s) q' w'" and new: "queue_rep (st_conf s) q' w' ms"
  shows "api_rep (s\<lparr>st_qlist := (st_qlist s)[i := (nm, q')], st_world := w', st_info := x\<rparr>) (M(nm \<mapsto> ms))"
proof -
  note A = api_repD [OF rep]
  have "has_dir w' (data_file_path (st_conf s))"
    using A(4) evolvesD(9) [OF ev] data_dir_not_own by (metis has_dir_def)
  then show ?thesis
    using rep queue_rep_world(1,2) [OF new] queues_rep_step [OF A(5) i ev new] by (simp add: api_rep_def)
qed

lemma api_rep_new:
  assumes rep: "api_rep s M" and nm: "qname_check (Some nm) = 1" "M nm = None"
    and lim: "int (length (st_qlist s)) < max_qlist_itmes (st_conf s)"
  shows "api_rep (s\<lparr>st_qlist := st_qlist s @ [(nm, made_queue (st_conf s) nm (st_world s))],
     st_world := queue_ready (st_conf s) nm (st_world s)\<rparr>) (M(nm \<mapsto> []))"
proof -
  note A = api_repD [OF rep]
  let ?cf = "st_conf s" and ?w = "st_world s"
  have pk: "path_ok ?cf nm" by (rule A(6) [OF nm(1)])
  have fr: "fresh_dir ?cf nm ?w" by (rule queues_repD(7) [OF A(5) nm])
  note r = queue_ready_rep [OF A(1) pk A(2,3) fr]
  have "has_dir (queue_ready ?cf nm ?w) (data_file_path ?cf)"
  proof -
    have "\<not> own_path ?cf nm (data_file_path ?cf)" by (rule data_dir_not_own)
    then show ?thesis
      using A(4) evolvesD(9) [OF queue_ready_evolves [OF A(1) pk A(2,3) fr, of "made_queue ?cf nm ?w"], of "data_file_path ?cf"]
      by (simp add: has_dir_def)
  qed
  moreover have "Suc (length (st_qlist s)) < 2 ^ 31" using lim A(1) by (simp add: conf_ok_def)
  ultimately show ?thesis
    using rep rep_atD(3,4) [OF r] queues_rep_new [OF A(5,1) pk A(2,3) nm] by (simp add: api_rep_def)
qed

text \<open>What a call keeps of the store besides its messages: configuration, storage and limits; the
  index of a writer grows by at most one.\<close>

definition grows :: "mq_state \<Rightarrow> mq_state \<Rightarrow> bool" where
  "grows s s' \<longleftrightarrow>
     st_conf s' = st_conf s \<and> w_bavail (st_world s') = w_bavail (st_world s) \<and> w_bsize (st_world s') = w_bsize (st_world s)
     \<and> (\<forall>k. limit_of s' k = limit_of s k)
     \<and> (\<forall>k q'. (k, q') \<in> set (st_qlist s') \<longrightarrow>
          wi_of q' \<le> 2 \<or> (\<exists>q. (k, q) \<in> set (st_qlist s) \<and> wi_of q' \<le> Suc (wi_of q)))"

lemma map_of_update_entry:
  assumes d: "distinct (map fst l)" and i: "i < length l" "fst (l ! i) = nm"
  shows "map_of (l[i := (nm, q)]) k = (if k = nm then Some q else map_of l k)"
proof (cases "map_of (l[i := (nm, q)]) k")
  case None
  then have "k \<notin> fst ` set (l[i := (nm, q)])" by (simp add: map_of_eq_None_iff)
  then have "k \<notin> fst ` set l" using keys_update [OF i, of q] by (metis list.set_map)
  moreover have "nm \<in> fst ` set l" using i by (metis image_eqI nth_mem)
  ultimately have "k \<noteq> nm" "map_of l k = None" by (auto simp: map_of_eq_None_iff)
  then show ?thesis using None by simp
next
  case (Some r)
  then have m: "(k, r) \<in> set (l[i := (nm, q)])" by (rule map_of_SomeD)
  then have "k = nm \<and> r = q \<or> k \<noteq> nm \<and> (k, r) \<in> set l" using set_update_entry [OF d i] by simp
  then show ?thesis using Some d by auto
qed

lemma grows_step:
  assumes rep: "api_rep s M" and i: "i < length (st_qlist s)" "st_qlist s ! i = (nm, q)"
    and ev: "evolves (st_conf s) q (st_world s) q' w'" and wi: "wi_of q' \<le> Suc (wi_of q)"
  shows "grows s (s\<lparr>st_qlist := (st_qlist s)[i := (nm, q')], st_world := w', st_info := x\<rparr>)"
proof -
  note R = queues_repD [OF api_repD(5) [OF rep]] and E = evolvesD [OF ev]
  have fi: "fst (st_qlist s ! i) = nm" and mem: "(nm, q) \<in> set (st_qlist s)" using i by (simp, metis nth_mem)
  have mo: "map_of (st_qlist s) nm = Some q" using mem R(1) by simp
  show ?thesis
    using E(2,4,5) wi mem mo
    by (auto simp: grows_def limit_of_def queue_of_def map_of_update_entry [OF R(1) i(1) fi]
        set_update_entry [OF R(1) i(1) fi] split: option.splits)
qed

lemma size_test:
  assumes "conf_ok cf" and "0 < n" "n \<le> int (length m)" and "body_ok cf (take (nat n) m)"
  shows "\<not> (word_of_int n :: u32) > MAX_DB_FILE_SIZE cf - of_nat DB_FILE_HEAD_LEN - of_nat MSG_HEAD_LEN"
    and "unat (word_of_int n :: u32) = nat n"
proof -
  have "140 + nat n \<le> max_db cf" using assms(2-4) by (simp add: body_ok_def store_consts)
  then have b: "n + 140 \<le> int (max_db cf)" by linarith
  have "int (max_db cf) \<le> int 67108864" using max_db_upper [OF assms(1)] by (simp only: of_nat_le_iff)
  then have lt: "n < 4294967296" using b by simp
  then have "uint (word_of_int n :: u32) = n"
    using assms(2) by (simp only: uint_word_of_int_eq take_bit_int_eq_self_iff) simp
  then show u: "unat (word_of_int n :: u32) = nat n" by (simp only: unat_eq_nat_uint)
  have "(140 :: u32) \<le> MAX_DB_FILE_SIZE cf" using max_db_lower [OF assms(1)] by (simp add: word_le_nat_alt)
  then have s: "unat (MAX_DB_FILE_SIZE cf - 140) = max_db cf - 140" by (simp add: unat_sub)
  have e: "MAX_DB_FILE_SIZE cf - of_nat DB_FILE_HEAD_LEN - of_nat MSG_HEAD_LEN = MAX_DB_FILE_SIZE cf - 140"
    by (simp add: store_consts)
  show "\<not> (word_of_int n :: u32) > MAX_DB_FILE_SIZE cf - of_nat DB_FILE_HEAD_LEN - of_nat MSG_HEAD_LEN"
    unfolding e word_less_nat_alt u s using b by linarith
qed

text \<open>The part of \<^verbatim>\<open>mq_store_put\<close> after the queue was found or created.\<close>

lemma put_found:
  assumes rep: "api_rep s M" and nm: "qname_check (Some nm) = 1" and m: "M nm = Some ms"
    and len: "0 < n" "n \<le> int (length buf)" "body_ok (st_conf s) (take (nat n) buf)"
    and room: "limit_of s nm = 0 \<or> length ms < unat (limit_of s nm)" "Suc (length ms) < 2 ^ 63" and grow: "can_grow s nm"
  shows "\<exists>s'. mq_store_put d (Some nm) buf n s = Some (True, s') \<and> grows s s'
     \<and> api_rep s' (M(nm \<mapsto> ms @ [(d, take (nat n) buf)]))"
proof -
  note A = api_repD [OF rep] and T = size_test [OF api_repD(1) [OF rep] len]
  let ?cf = "st_conf s" and ?b = "take (nat n) buf"
  obtain i q where f: "mq_qm_find_queue nm (st_qlist s) = Some i" "i < length (st_qlist s)" "st_qlist s ! i = (nm, q)"
      "map_of (st_qlist s) nm = Some q" "queue_rep ?cf q (st_world s) ms"
    using find_queue(1) [OF A(5) m] by blast
  let ?it = "\<lparr>magic_num1 = 0, magic_num2 = 0, delay = d, crc16 = 0, len = word_of_int n, msg = Caller buf\<rparr>"
  have "nat n \<le> length buf" using len(2) by simp
  then have it: "put_item ?it d ?b" using T(2) by (simp add: put_item_def min_absorb2)
  have lim: "maxque q = 0 \<or> length ms < unat (maxque q)" "Suc (wi_of q) < 2 ^ 64" "\<not> storage_short ?cf (st_world s)"
    using room(1) grow f(4) by (simp_all add: limit_of_def can_grow_def queue_of_def)
  obtain q' w' where p: "mq_qm_push_item ?cf q ?it (st_world s) = Some (QUEUE_PUT_OK, q', w')"
      "queue_rep ?cf q' w' (ms @ [(d, ?b)])" "wi_of q' \<le> Suc (wi_of q)" "evolves ?cf q (st_world s) q' w'"
    by (rule push_room [OF f(5) it len(3) lim(1) room(2) lim(2,3)])
  show ?thesis
    using nm len(1) T(1) f(1,3) p(1) api_rep_step [OF rep f(2,3) p(4,2)] grows_step [OF rep f(2,3) p(4,3)]
    by (simp add: mq_store_put_def Let_def)
qed

lemma put_new:
  assumes rep: "api_rep s M" and nm: "qname_check (Some nm) = 1" and m: "M nm = None"
    and len: "0 < n" "n \<le> int (length buf)" "body_ok (st_conf s) (take (nat n) buf)" and grow: "can_grow s nm"
  shows "\<exists>s'. mq_store_put d (Some nm) buf n s = Some (True, s') \<and> grows s s'
     \<and> api_rep s' (M(nm \<mapsto> [(d, take (nat n) buf)]))"
proof -
  note A = api_repD [OF rep] and T = size_test [OF api_repD(1) [OF rep] len]
  let ?cf = "st_conf s" and ?w = "st_world s" and ?l = "st_qlist s"
  let ?q = "made_queue ?cf nm ?w"
  define s1 where "s1 = s\<lparr>st_qlist := ?l @ [(nm, ?q)], st_world := queue_ready ?cf nm ?w\<rparr>"
  have nf: "mq_qm_find_queue nm ?l = None" "map_of ?l nm = None" using find_queue(2) [OF A(5) m] by auto
  have g: "\<not> storage_short ?cf ?w" "int (length ?l) < max_qlist_itmes ?cf"
    using grow nf(2) by (simp_all add: can_grow_def queue_of_def)
  have pk: "path_ok ?cf nm" by (rule A(6) [OF nm])
  have fr: "fresh_dir ?cf nm ?w" by (rule queues_repD(7) [OF A(5) nm m])
  have ad: "mq_qm_add_queue ?cf nm ?l ?w = Some (Some (length ?l), ?l @ [(nm, ?q)], queue_ready ?cf nm ?w)"
    using nm by (intro add_queue_new(1) [OF A(1) pk A(2,3) fr qname_no_slash [OF nm] _ A(4) g]) (simp add: qname_check_iff)
  have rep1: "api_rep s1 (M(nm \<mapsto> []))" unfolding s1_def by (rule api_rep_new [OF rep nm m g(2)])
  have mo: "map_of (st_qlist s1) nm = Some ?q" using nf(2) by (simp add: s1_def map_add_def)
  have gr1: "can_grow s1 nm"
    using g(1) mo queue_made_views(9,10) [OF pk fr] storage_short_cong [of "queue_ready ?cf nm ?w" ?w]
    by (simp add: can_grow_def queue_of_def s1_def queue_ready_def)
  have l1: "limit_of s1 nm = 0 \<or> length ([] :: message list) < unat (limit_of s1 nm)"
    by (simp add: unat_gt_0)
  have "mq_store_put d (Some nm) buf n s1 = mq_store_put d (Some nm) buf n s"
  proof -
    have "mq_qm_find_queue nm (st_qlist s1) = Some (length ?l)"
      by (simp add: s1_def mq_qm_find_queue_def hash_find_queue_by_key_def hash_find_snoc)
    then show ?thesis using nm len(1) T(1) nf(1) ad by (simp add: mq_store_put_def Let_def s1_def)
  qed
  then obtain s' where p: "mq_store_put d (Some nm) buf n s = Some (True, s')" "grows s1 s'"
      "api_rep s' (M(nm \<mapsto> [(d, take (nat n) buf)]))"
    using put_found [OF rep1 nm _ len(1,2) _ l1 _ gr1, of d] len(3) by (auto simp: s1_def)
  have sp: "w_bavail (st_world s1) = w_bavail ?w" "w_bsize (st_world s1) = w_bsize ?w"
    using queue_made_views(9,10) [OF pk fr] by (simp_all add: s1_def queue_ready_def)
  have "limit_of s1 k = limit_of s k" for k
    using nf(2) by (auto simp: limit_of_def queue_of_def s1_def map_add_def split: option.splits)
  moreover have "wi_of r \<le> 2 \<or> (\<exists>q. (k, q) \<in> set ?l \<and> wi_of r \<le> Suc (wi_of q))" if "(k, r) \<in> set (st_qlist s')" for k r
  proof -
    have "wi_of r \<le> 2 \<or> (\<exists>q. (k, q) \<in> set (st_qlist s1) \<and> wi_of r \<le> Suc (wi_of q))"
      using p(2) that unfolding grows_def by blast
    then show ?thesis by (auto simp: s1_def)
  qed
  ultimately have "grows s s'" using p(2) sp unfolding grows_def by (simp add: s1_def)
  then show ?thesis using p(1,3) by blast
qed

lemma put_full:
  assumes rep: "api_rep s M" and nm: "qname_check (Some nm) = 1" and m: "M nm = Some ms"
    and len: "0 < n" "n \<le> int (length buf)" "body_ok (st_conf s) (take (nat n) buf)"
    and full: "limit_of s nm \<noteq> 0" "unat (limit_of s nm) \<le> length ms"
  shows "mq_store_put d (Some nm) buf n s = Some (False, s)"
proof -
  note A = api_repD [OF rep] and T = size_test [OF api_repD(1) [OF rep] len]
  obtain i q where f: "mq_qm_find_queue nm (st_qlist s) = Some i" "i < length (st_qlist s)" "st_qlist s ! i = (nm, q)"
      "map_of (st_qlist s) nm = Some q" "queue_rep (st_conf s) q (st_world s) ms"
    using find_queue(1) [OF A(5) m] by blast
  have "mq_qm_push_item (st_conf s) q it (st_world s) = Some (QUEUE_FULL, q, st_world s)" for it
    using full f(4) by (intro push_full [OF f(5)]) (simp_all add: limit_of_def queue_of_def)
  moreover have "(st_qlist s)[i := (nm, q)] = st_qlist s" using f(3) by (metis list_update_id)
  ultimately show ?thesis
    using nm len(1) T(1) f(1,3) by (simp add: mq_store_put_def Let_def)
qed

lemma get_message:
  assumes rep: "api_rep s M" and nm: "qname_check (Some nm) = 1" and m: "M nm = Some ((d, b) # ms)" and n: "n = int (length b)"
  shows "\<exists>s'. mq_store_get junk (Some nm) n s = Some (True, b, s') \<and> grows s s' \<and> api_rep s' (M(nm \<mapsto> ms))"
proof -
  note A = api_repD [OF rep]
  obtain i q where f: "mq_qm_find_queue nm (st_qlist s) = Some i" "i < length (st_qlist s)" "st_qlist s ! i = (nm, q)"
      "map_of (st_qlist s) nm = Some q" "queue_rep (st_conf s) q (st_world s) ((d, b) # ms)"
    using find_queue(1) [OF A(5) m] by blast
  obtain it q' w' where p: "mq_qm_pop_item (st_conf s) q junk (st_world s) = Some (QUEUE_GET_OK, it, q', w')"
      "len it = of_nat (length b)" "delay it = d" "load_msg w' (msg it) (unat (len it)) = Some b"
      "queue_rep (st_conf s) q' w' ms" "wi_of q' = wi_of q" "evolves (st_conf s) q (st_world s) q' w'"
    by (rule pop_message [OF f(5)])
  have "word_of_int n = len it" using n p(2) by simp
  then show ?thesis
    using nm f(1,3) p(1,4,6) api_rep_step [OF rep f(2,3) p(7,5)] grows_step [OF rep f(2,3) p(7)]
    by (simp add: mq_store_get_defs Let_def)
qed

lemma get_empty:
  assumes rep: "api_rep s M" and m: "M nm = None \<or> M nm = Some []"
  shows "mq_store_get junk (Some nm) n s = Some (False, [], s)"
proof (cases "M nm")
  case None
  then show ?thesis using find_queue(2) [OF api_repD(5) [OF rep]] by (simp add: mq_store_get_defs)
next
  case (Some ms)
  then have m': "M nm = Some []" using m by simp
  obtain i q where f: "mq_qm_find_queue nm (st_qlist s) = Some i" "i < length (st_qlist s)" "st_qlist s ! i = (nm, q)"
      "map_of (st_qlist s) nm = Some q" "queue_rep (st_conf s) q (st_world s) []"
    using find_queue(1) [OF api_repD(5) [OF rep] m'] by blast
  obtain it where "mq_qm_pop_item (st_conf s) q junk (st_world s) = Some (QUEUE_GET_END, it, q, st_world s)"
    using pop_empty [OF f(5)] by blast
  moreover have "(st_qlist s)[i := (nm, q)] = st_qlist s" using f(3) by (metis list_update_id)
  ultimately show ?thesis using f(1,3) by (simp add: mq_store_get_defs Let_def)
qed

lemma put_rejected:
  assumes "qname_check nm \<noteq> 1 \<or> n \<le> 0
    \<or> (word_of_int n :: u32) > MAX_DB_FILE_SIZE (st_conf s) - of_nat DB_FILE_HEAD_LEN - of_nat MSG_HEAD_LEN"
  shows "mq_store_put d nm buf n s = Some (False, s)"
  using assms by (auto simp: mq_store_put_def Let_def split: option.splits)

lemma get_rejected: "qname_check nm \<noteq> 1 \<Longrightarrow> mq_store_get junk nm n s = Some (False, [], s)"
  by (auto simp: mq_store_get_defs split: option.splits)

end
