(* ===== verification/Fifo_Spec.thy ===== *)
theory Fifo_Spec
  imports Prelude
begin

text \<open>
  What the library promises, without files: a set of bounded FIFO queues. An operation is a put or
  a get on a key; a get names the length of the message it expects, and a program that
  expects another length than the message has is stopped (\<open>None\<close>). The locale states the
  contract step by step, and derives from it what holds of every sequence of calls.
\<close>

datatype ('k, 'm) fifo_op = Put 'k 'm | Get 'k int

datatype 'm reply = Accepted bool | Received "'m option"

type_synonym ('k, 'm) store_spec = "'k \<rightharpoonup> 'm list"

section \<open>The specification\<close>

text \<open>\<open>keyok\<close> and \<open>msgok\<close> say which keys and messages are legal, \<open>lim\<close> is the limit of a queue (none when
  it is 0), and \<open>maxk\<close> bounds the number of queues.\<close>

definition spec_put ::
    "('k \<Rightarrow> bool) \<Rightarrow> ('m \<Rightarrow> bool) \<Rightarrow> ('k \<Rightarrow> nat) \<Rightarrow> int \<Rightarrow> 'k \<Rightarrow> 'm \<Rightarrow> ('k, 'm) store_spec \<Rightarrow> bool \<times> ('k, 'm) store_spec" where
  "spec_put keyok msgok lim maxk k m M =
     (if \<not> keyok k \<or> \<not> msgok m then (False, M)
      else case M k of
          None \<Rightarrow> if maxk \<le> int (card (dom M)) then (False, M) else (True, M(k \<mapsto> [m]))
        | Some ms \<Rightarrow> if lim k \<noteq> 0 \<and> lim k \<le> length ms then (False, M) else (True, M(k \<mapsto> ms @ [m])))"

definition spec_get ::
    "('k \<Rightarrow> bool) \<Rightarrow> ('m \<Rightarrow> nat) \<Rightarrow> 'k \<Rightarrow> int \<Rightarrow> ('k, 'm) store_spec \<Rightarrow> ('m option \<times> ('k, 'm) store_spec) option" where
  "spec_get keyok size_of k n M =
     (if \<not> keyok k then Some (None, M)
      else case M k of
          Some (m # ms) \<Rightarrow> if n = int (size_of m) then Some (Some m, M(k \<mapsto> ms)) else None
        | _ \<Rightarrow> Some (None, M))"

text \<open>A run of calls: the replies in order, \<open>None\<close> when a call stops the program.\<close>

fun run :: "('k \<Rightarrow> 'm \<Rightarrow> 's \<Rightarrow> (bool \<times> 's) option) \<Rightarrow> ('k \<Rightarrow> int \<Rightarrow> 's \<Rightarrow> ('m option \<times> 's) option) \<Rightarrow>
    ('k, 'm) fifo_op list \<Rightarrow> 's \<Rightarrow> ('m reply list \<times> 's) option" where
  "run put get [] s = Some ([], s)"
| "run put get (Put k m # ops) s =
     (case put k m s of None \<Rightarrow> None
      | Some (b, s) \<Rightarrow> map_option (\<lambda>(rs, s). (Accepted b # rs, s)) (run put get ops s))"
| "run put get (Get k l # ops) s =
     (case get k l s of None \<Rightarrow> None
      | Some (r, s) \<Rightarrow> map_option (\<lambda>(rs, s). (Received r # rs, s)) (run put get ops s))"

section \<open>The contract\<close>

locale fifo_store =
  fixes keyok :: "'k \<Rightarrow> bool" and msgok :: "'m \<Rightarrow> bool" and lim :: "'k \<Rightarrow> nat" and maxk :: int
    and size_of :: "'m \<Rightarrow> nat" and fits :: "('k, 'm) fifo_op \<Rightarrow> bool"
    and rep :: "nat \<Rightarrow> 's \<Rightarrow> ('k, 'm) store_spec \<Rightarrow> bool"
    and put :: "'k \<Rightarrow> 'm \<Rightarrow> 's \<Rightarrow> (bool \<times> 's) option"
    and get :: "'k \<Rightarrow> int \<Rightarrow> 's \<Rightarrow> ('m option \<times> 's) option"
  assumes put_law: "rep (Suc n) s M \<Longrightarrow> fits (Put k m) \<Longrightarrow>
       \<exists>s'. put k m s = Some (fst (spec_put keyok msgok lim maxk k m M), s')
          \<and> rep n s' (snd (spec_put keyok msgok lim maxk k m M))"
    and get_law: "rep (Suc n) s M \<Longrightarrow> fits (Get k l) \<Longrightarrow>
       (case spec_get keyok size_of k l M of
          None \<Rightarrow> get k l s = None
        | Some (r, M') \<Rightarrow> \<exists>s'. get k l s = Some (r, s') \<and> rep n s' M')"
fun spec_run ::
    "('k \<Rightarrow> bool) \<Rightarrow> ('m \<Rightarrow> bool) \<Rightarrow> ('k \<Rightarrow> nat) \<Rightarrow> int \<Rightarrow> ('m \<Rightarrow> nat) \<Rightarrow> ('k, 'm) fifo_op list \<Rightarrow> ('k, 'm) store_spec \<Rightarrow>
     ('m reply list \<times> ('k, 'm) store_spec) option" where
  "spec_run keyok msgok lim maxk size_of [] M = Some ([], M)"
| "spec_run keyok msgok lim maxk size_of (Put k m # ops) M =
     (case spec_put keyok msgok lim maxk k m M of
        (b, M) \<Rightarrow> map_option (\<lambda>(rs, M). (Accepted b # rs, M)) (spec_run keyok msgok lim maxk size_of ops M))"
| "spec_run keyok msgok lim maxk size_of (Get k l # ops) M =
     (case spec_get keyok size_of k l M of None \<Rightarrow> None
      | Some (r, M) \<Rightarrow> map_option (\<lambda>(rs, M). (Received r # rs, M)) (spec_run keyok msgok lim maxk size_of ops M))"

text \<open>The messages of a key that a run accepted and delivered.\<close>

fun accepted :: "'k \<Rightarrow> ('k, 'm) fifo_op list \<Rightarrow> 'm reply list \<Rightarrow> 'm list" where
  "accepted k (Put k' m # ops) (Accepted b # rs) = (if b \<and> k' = k then [m] else []) @ accepted k ops rs"
| "accepted k (_ # ops) (_ # rs) = accepted k ops rs"
| "accepted k _ _ = []"

fun delivered :: "'k \<Rightarrow> ('k, 'm) fifo_op list \<Rightarrow> 'm reply list \<Rightarrow> 'm list" where
  "delivered k (Get k' l # ops) (Received r # rs) =
     (if k' = k then case r of Some m \<Rightarrow> [m] | None \<Rightarrow> [] else []) @ delivered k ops rs"
| "delivered k (_ # ops) (_ # rs) = delivered k ops rs"
| "delivered k _ _ = []"

abbreviation content :: "('k, 'm) store_spec \<Rightarrow> 'k \<Rightarrow> 'm list" where
  "content M k \<equiv> (case M k of None \<Rightarrow> [] | Some ms \<Rightarrow> ms)"

text \<open>Nothing is lost, repeated or reordered, and no queue sees the messages of another.\<close>

lemma spec_run_fifo:
  "spec_run keyok msgok lim maxk size_of ops M = Some (rs, M') \<Longrightarrow>
   content M k @ accepted k ops rs = delivered k ops rs @ content M' k"
proof (induction ops arbitrary: M rs)
  case Nil
  then show ?case by simp
next
  case (Cons x ops)
  show ?case
  proof (cases x)
    case (Put k' m)
    obtain b M1 where p: "spec_put keyok msgok lim maxk k' m M = (b, M1)" by fastforce
    then obtain rs1 where r: "rs = Accepted b # rs1" "spec_run keyok msgok lim maxk size_of ops M1 = Some (rs1, M')"
      using Cons.prems Put by auto
    have "content M1 k = content M k @ (if b \<and> k' = k then [m] else [])"
      using p by (auto simp: spec_put_def split: if_splits option.splits)
    then show ?thesis using Cons.IH [OF r(2)] r(1) Put by simp
  next
    case (Get k' l)
    then obtain r M1 rs1 where p: "spec_get keyok size_of k' l M = Some (r, M1)" "rs = Received r # rs1"
        "spec_run keyok msgok lim maxk size_of ops M1 = Some (rs1, M')"
      using Cons.prems by (auto split: option.splits)
    have "content M k = (if k' = k then case r of Some m \<Rightarrow> [m] | None \<Rightarrow> [] else []) @ content M1 k"
      using p(1) by (auto simp: spec_get_def split: if_splits option.splits list.splits)
    then show ?thesis using Cons.IH [OF p(3)] p(2) Get by simp
  qed
qed

context fifo_store
begin

text \<open>A run of the implementation and the run of the specification stop together and answer alike.\<close>

lemma run_refines:
  "rep (length ops) s M \<Longrightarrow> \<forall>x \<in> set ops. fits x \<Longrightarrow>
   (case spec_run keyok msgok lim maxk size_of ops M of
      None \<Rightarrow> run put get ops s = None
    | Some (rs, M') \<Rightarrow> \<exists>s'. run put get ops s = Some (rs, s') \<and> rep 0 s' M')"
proof (induction ops arbitrary: s M)
  case Nil
  then show ?case by simp
next
  case (Cons x ops)
  have f: "fits x" "\<forall>x \<in> set ops. fits x" using Cons.prems(2) by simp_all
  have r: "rep (Suc (length ops)) s M" using Cons.prems(1) by simp
  show ?case
  proof (cases x)
    case (Put k m)
    obtain s1 where s1: "put k m s = Some (fst (spec_put keyok msgok lim maxk k m M), s1)"
        "rep (length ops) s1 (snd (spec_put keyok msgok lim maxk k m M))"
      using put_law [OF r] f(1) Put by blast
    then show ?thesis using Cons.IH [OF s1(2) f(2)] Put by (auto split: option.splits prod.splits)
  next
    case (Get k l)
    show ?thesis
    proof (cases "spec_get keyok size_of k l M")
      case None
      then show ?thesis using get_law [OF r, of k l] f(1) Get by simp
    next
      case (Some p)
      obtain a M1 where p: "p = (a, M1)" by fastforce
      then obtain s1 where s1: "get k l s = Some (a, s1)" "rep (length ops) s1 M1"
        using get_law [OF r, of k l] f(1) Get Some by auto
      then show ?thesis using Cons.IH [OF s1(2) f(2)] Get Some p by (auto split: option.splits prod.splits)
    qed
  qed
qed

lemma run_fifo_all:
  assumes "rep (length ops) s M" and "\<forall>x \<in> set ops. fits x" and "run put get ops s = Some (rs, s')"
  shows "\<exists>M'. rep 0 s' M' \<and> (\<forall>k. content M k @ accepted k ops rs = delivered k ops rs @ content M' k)"
proof (cases "spec_run keyok msgok lim maxk size_of ops M")
  case None
  then show ?thesis using run_refines [OF assms(1,2)] assms(3) by simp
next
  case (Some p)
  obtain rs1 M1 where p: "p = (rs1, M1)" by fastforce
  then show ?thesis
    using run_refines [OF assms(1,2)] assms(3) Some spec_run_fifo [of keyok msgok lim maxk size_of ops M rs1 M1] by auto
qed

end

end
