(* ===== verification/Api_Refine.thy ===== *)
theory Api_Refine
  imports Api_Fifo Fifo_Spec
begin

text \<open>
  The calls \<^verbatim>\<open>mq_store_put\<close> and \<^verbatim>\<open>mq_store_get\<close> implement the specification of \<open>Fifo_Spec\<close>.
\<close>

section \<open>Sizes\<close>

lemma msgs_at_bound: "msgs_at f p ms e \<Longrightarrow> m \<in> set ms \<Longrightarrow> length (snd m) \<le> e"
proof (induction f p ms e rule: msgs_at.induct)
  case (2 f p d b ms e)
  then show ?case using msgs_at_le [of f "p + MSG_HEAD_LEN + length b" ms e] by auto
qed simp

lemma messages_bound:
  assumes rep: "queue_rep cf q w ms" and m: "m \<in> set ms"
  shows "length (snd m) \<le> max_db cf" and "conf_ok cf"
proof -
  obtain ino seg where r: "rep_at cf q w ino seg" "ms = messages q seg" by (rule queue_repD [OF rep])
  note D = rep_atD [OF r(1)]
  obtain n where n: "n \<in> {ri_of q..wi_of q}" "m \<in> set (seg n)" using m r(2) by (auto split: if_splits intro: less_imp_le)
  obtain st e where "seg_ok cf (f_data (w_files w (ino n))) st (seg n) e"
    using bspec [OF D(9) [unfolded data_rep_def] n(1)] by blast
  then show "length (snd m) \<le> max_db cf"
    using msgs_at_bound n(2) unfolding seg_ok_def by (meson le_trans)
  show "conf_ok cf" by (rule D(1))
qed

lemma too_large:
  assumes "conf_ok cf" and "0 < n" "n < 2 ^ 31" and "int (max_db cf) < n + int (DB_FILE_HEAD_LEN + MSG_HEAD_LEN)"
  shows "(word_of_int n :: u32) > MAX_DB_FILE_SIZE cf - of_nat DB_FILE_HEAD_LEN - of_nat MSG_HEAD_LEN"
proof -
  have "uint (word_of_int n :: u32) = n"
    using assms(2,3) by (simp only: uint_word_of_int_eq take_bit_int_eq_self_iff) simp
  then have u: "unat (word_of_int n :: u32) = nat n" by (simp only: unat_eq_nat_uint)
  have "(140 :: u32) \<le> MAX_DB_FILE_SIZE cf" using max_db_lower [OF assms(1)] by (simp add: word_le_nat_alt)
  then have s: "unat (MAX_DB_FILE_SIZE cf - 140) = max_db cf - 140" by (simp add: unat_sub)
  have e: "MAX_DB_FILE_SIZE cf - of_nat DB_FILE_HEAD_LEN - of_nat MSG_HEAD_LEN = MAX_DB_FILE_SIZE cf - 140"
    by (simp add: store_consts)
  have "int (max_db cf) < int (nat n + 140)" using assms(2,4) by (simp add: store_consts)
  then have "max_db cf < nat n + 140" by (simp only: of_nat_less_iff)
  then show ?thesis
    unfolding e word_less_nat_alt u s using max_db_lower [OF assms(1)] by linarith
qed

lemma too_long:
  assumes "conf_ok cf" and "length m < 2 ^ 31" and "0 < length m" and "\<not> body_ok cf m"
  shows "(word_of_int (int (length m)) :: u32) > MAX_DB_FILE_SIZE cf - of_nat DB_FILE_HEAD_LEN - of_nat MSG_HEAD_LEN"
proof (rule too_large [OF assms(1)])
  have "max_db cf < length m + (DB_FILE_HEAD_LEN + MSG_HEAD_LEN)" using assms(3,4) by (simp add: body_ok_def)
  then have "int (max_db cf) < int (length m + (DB_FILE_HEAD_LEN + MSG_HEAD_LEN))" by (simp only: of_nat_less_iff)
  then show "int (max_db cf) < int (length m) + int (DB_FILE_HEAD_LEN + MSG_HEAD_LEN)" by simp
qed (use assms in simp_all)

text \<open>A get that expects another length stops the program.\<close>

lemma get_wrong_length:
  assumes rep: "api_rep s M" and nm: "qname_check (Some nm) = 1" and m: "M nm = Some ((d, b) # ms)"
    and n: "n \<noteq> int (length b)" "- (2 ^ 31) \<le> n" "n < 2 ^ 31"
  obtains s' q q' where "mq_store_get_call junk (Some nm) n s = Some (Aborts s')" "api_rep s' (M(nm \<mapsto> ms))"
    and "map_of (st_qlist s) nm = Some q" "map_of (st_qlist s') nm = Some q'" "st_conf s' = st_conf s"
    and "\<exists>it. mq_qm_pop_item (st_conf s) q junk (st_world s) = Some (QUEUE_GET_OK, it, q', st_world s')"
proof -
  obtain i q where f: "mq_qm_find_queue nm (st_qlist s) = Some i" "i < length (st_qlist s)" "st_qlist s ! i = (nm, q)"
      "map_of (st_qlist s) nm = Some q" "queue_rep (st_conf s) q (st_world s) ((d, b) # ms)"
    using find_queue(1) [OF api_repD(5) [OF rep] m] by blast
  obtain it q' w' where p: "mq_qm_pop_item (st_conf s) q junk (st_world s) = Some (QUEUE_GET_OK, it, q', w')"
      "len it = of_nat (length b)" "delay it = d" "load_msg w' (msg it) (unat (len it)) = Some b"
      "queue_rep (st_conf s) q' w' ms" "wi_of q' = wi_of q" "evolves (st_conf s) q (st_world s) q' w'"
    by (rule pop_message [OF f(5)])
  have b: "length b < 2 ^ 31"
    using messages_bound [OF f(5), of "(d, b)"] max_db_upper [OF messages_bound(2) [OF f(5), of "(d, b)"]] by simp
  have "sint (word_of_int n :: u32) = n" "sint (word_of_int (int (length b)) :: u32) = int (length b)"
    using n b by (simp_all only: sint_sbintrunc') (simp_all add: signed_take_bit_int_eq_self)
  moreover have "len it = word_of_int (int (length b))" using p(2) by simp
  ultimately have "word_of_int n \<noteq> len it" using n(1) by metis
  define s' where "s' = s\<lparr>st_qlist := (st_qlist s)[i := (nm, q')], st_world := w',
    st_info := (st_info s)\<lparr>i_get := i_get (st_info s) + 1, i_count := i_count (st_info s) - 1\<rparr>\<rparr>"
  have "mq_store_get_call junk (Some nm) n s = Some (Aborts s')"
    using nm f(1,3) p(1) \<open>word_of_int n \<noteq> len it\<close> by (simp add: mq_store_get_call_def Let_def s'_def)
  moreover have "api_rep s' (M(nm \<mapsto> ms))" unfolding s'_def by (rule api_rep_step [OF rep f(2,3) p(7,5)])
  moreover have "map_of (st_qlist s') nm = Some q'"
    using map_of_update_entry [OF queues_repD(1) [OF api_repD(5) [OF rep]] f(2), of nm q' nm] f(3) by (simp add: s'_def)
  ultimately show ?thesis using that f(4) p(1) by (simp add: s'_def)
qed

text \<open>A put for a new queue when the table is full.\<close>

lemma put_no_slot:
  assumes rep: "api_rep s M" and nm: "qname_check (Some nm) = 1" and m: "M nm = None"
    and len: "0 < n" "n \<le> int (length buf)" "body_ok (st_conf s) (take (nat n) buf)"
    and full: "max_qlist_itmes (st_conf s) \<le> int (length (st_qlist s))"
  shows "mq_store_put d (Some nm) buf n s = Some (False, s)"
  using nm len(1) size_test(1) [OF api_repD(1) [OF rep] len] find_queue(2) [OF api_repD(5) [OF rep] m] full
    queue_num_small [OF api_repD(7) [OF rep]]
  by (simp add: mq_store_put_def Let_def mq_qm_add_queue_def)

section \<open>The interpretation\<close>

text \<open>
  \<open>rep_for cf L n s B\<close>: the state represents the bodies \<open>B\<close>, with the configuration \<open>cf\<close> and the limits
  \<open>L\<close>, there is storage, and the indices and counters have room for \<open>n\<close> more calls.
\<close>

definition bodies :: "(string \<rightharpoonup> message list) \<Rightarrow> (string \<rightharpoonup> byte list list)" where
  "bodies M k = map_option (map snd) (M k)"

definition rep_for :: "ucmq_conf \<Rightarrow> (string \<Rightarrow> nat) \<Rightarrow> nat \<Rightarrow> mq_state \<Rightarrow> (string \<rightharpoonup> byte list list) \<Rightarrow> bool" where
  "rep_for cf L n s B \<longleftrightarrow>
     (\<exists>M. api_rep s M \<and> B = bodies M \<and> (\<forall>k ms. M k = Some ms \<longrightarrow> length ms + n < 2 ^ 63))
     \<and> st_conf s = cf \<and> (\<forall>k. unat (limit_of s k) = L k) \<and> \<not> storage_short cf (st_world s)
     \<and> (\<forall>(k, q) \<in> set (st_qlist s). wi_of q + n < 2 ^ 64) \<and> n + 2 < 2 ^ 63"

definition api_put :: "u32 \<Rightarrow> string \<Rightarrow> byte list \<Rightarrow> mq_state \<Rightarrow> (bool \<times> mq_state) option" where
  "api_put d k m s = mq_store_put d (Some k) m (int (length m)) s"

definition api_get :: "msg_item \<Rightarrow> string \<Rightarrow> int \<Rightarrow> mq_state \<Rightarrow> (byte list option \<times> mq_state) option" where
  "api_get junk k n s =
     map_option (\<lambda>(ok, b, s). (if ok then Some b else None, s)) (mq_store_get junk (Some k) n s)"

fun int_args :: "(string, byte list) fifo_op \<Rightarrow> bool" where
  "int_args (Put k m) \<longleftrightarrow> length m < 2 ^ 31"
| "int_args (Get k n) \<longleftrightarrow> - (2 ^ 31) \<le> n \<and> n < 2 ^ 31"

lemma bodies_simps [simp]:
  "(bodies M k = None) = (M k = None)" "bodies (M(k \<mapsto> ms)) = (bodies M)(k \<mapsto> map snd ms)" "dom (bodies M) = dom M"
  by (auto simp: bodies_def fun_eq_iff dom_def)

lemma rep_for_mono: "rep_for cf L (Suc n) s B \<Longrightarrow> rep_for cf L n s B"
  unfolding rep_for_def by (fastforce simp: case_prod_unfold)

lemma rep_for_le: "rep_for cf L n s B \<Longrightarrow> m \<le> n \<Longrightarrow> rep_for cf L m s B"
  by (rule inc_induct [of m n "\<lambda>n. rep_for cf L n s B"]) (auto intro: rep_for_mono)

lemma rep_for_step:
  assumes old: "rep_for cf L (Suc n) s B" and g: "grows s s'" and new: "api_rep s' M'"
    and len: "\<And>k ms. M' k = Some ms \<Longrightarrow> length ms + n < 2 ^ 63"
  shows "rep_for cf L n s' (bodies M')"
proof -
  have o: "st_conf s = cf" "\<forall>k. unat (limit_of s k) = L k" "\<not> storage_short cf (st_world s)"
      "\<forall>(k, q) \<in> set (st_qlist s). wi_of q + Suc n < 2 ^ 64" "Suc n + 2 < 2 ^ 63"
    using old unfolding rep_for_def by blast+
  have g': "st_conf s' = st_conf s" "\<forall>k. limit_of s' k = limit_of s k"
      "\<not> storage_short cf (st_world s')"
    using g o(3) storage_short_cong unfolding grows_def by blast+
  have "wi_of q' + n < 2 ^ 64" if "(k, q') \<in> set (st_qlist s')" for k q'
  proof -
    have "wi_of q' \<le> 2 \<or> (\<exists>q. (k, q) \<in> set (st_qlist s) \<and> wi_of q' \<le> Suc (wi_of q))"
      using g that unfolding grows_def by blast
    then show ?thesis using o(4,5) by fastforce
  qed
  then show ?thesis using g' o new len unfolding rep_for_def by (auto simp: case_prod_unfold)
qed

abbreviation put_of :: "ucmq_conf \<Rightarrow> (string \<Rightarrow> nat) \<Rightarrow> string \<Rightarrow> byte list \<Rightarrow> (string \<rightharpoonup> byte list list)
    \<Rightarrow> bool \<times> (string \<rightharpoonup> byte list list)" where
  "put_of cf L \<equiv> spec_put (\<lambda>k. qname_check (Some k) = 1) (body_ok cf) L (max_qlist_itmes cf)"

lemma rep_forE:
  assumes "rep_for cf L n s B"
  obtains M where "api_rep s M" "B = bodies M" "\<forall>k ms. M k = Some ms \<longrightarrow> length ms + n < 2 ^ 63"
    "st_conf s = cf" "\<forall>k. unat (limit_of s k) = L k" "\<not> storage_short cf (st_world s)"
    "\<forall>(k, q) \<in> set (st_qlist s). wi_of q + n < 2 ^ 64" "n + 2 < 2 ^ 63"
  using assms unfolding rep_for_def by blast

lemma put_law_absent:
  assumes rep: "rep_for cf L (Suc n) s B" and ok: "qname_check (Some k) = 1" "body_ok cf m" and none: "B k = None"
  shows "\<exists>s'. api_put d k m s = Some (fst (put_of cf L k m B), s') \<and> rep_for cf L n s' (snd (put_of cf L k m B))"
proof -
  obtain M where M: "api_rep s M" "B = bodies M" "\<forall>k ms. M k = Some ms \<longrightarrow> length ms + Suc n < 2 ^ 63"
    and o: "st_conf s = cf" "\<forall>k. unat (limit_of s k) = L k" "\<not> storage_short cf (st_world s)"
      "\<forall>(k, q) \<in> set (st_qlist s). wi_of q + Suc n < 2 ^ 64" "Suc n + 2 < 2 ^ 63"
    by (rule rep_forE [OF rep])
  note A = api_repD [OF M(1)]
  have Mk: "M k = None" using none M(2) by simp
  have len: "0 < int (length m)" "int (length m) \<le> int (length m)" "body_ok (st_conf s) (take (nat (int (length m))) m)"
    using ok o(1) by (auto simp: body_ok_def)
  have card: "card (dom M) = length (st_qlist s)"
    using queues_repD(1,2) [OF A(5)] by (metis distinct_card length_map list.set_map)
  show ?thesis
  proof (cases "max_qlist_itmes cf \<le> int (length (st_qlist s))")
    case True
    then have "api_put d k m s = Some (False, s)"
      unfolding api_put_def using ok Mk len by (intro put_no_slot [OF M(1)]) (auto simp: o(1))
    then show ?thesis using rep_for_mono [OF rep] True none [unfolded M(2)] card M(2) ok by (simp add: spec_put_def del: bodies_simps(1))
  next
    case False
    have "can_grow s k" using False o(1,3) find_queue(2) [OF A(5) Mk] by (simp add: can_grow_def queue_of_def)
    then obtain s' where p: "api_put d k m s = Some (True, s')" "grows s s'" "api_rep s' (M(k \<mapsto> [(d, m)]))"
      using put_new [OF M(1) ok(1) Mk len, of d] unfolding api_put_def by auto
    have "rep_for cf L n s' (bodies (M(k \<mapsto> [(d, m)])))"
      using M(3) o(5) by (intro rep_for_step [OF rep p(2,3)]) (fastforce split: if_splits)
    then show ?thesis using p(1) False none [unfolded M(2)] card M(2) ok by (simp add: spec_put_def del: bodies_simps(1))
  qed
qed

lemma put_law_present:
  assumes rep: "rep_for cf L (Suc n) s B" and ok: "qname_check (Some k) = 1" "body_ok cf m" and some: "B k = Some bs"
  shows "\<exists>s'. api_put d k m s = Some (fst (put_of cf L k m B), s') \<and> rep_for cf L n s' (snd (put_of cf L k m B))"
proof -
  obtain M where M: "api_rep s M" "B = bodies M" "\<forall>k ms. M k = Some ms \<longrightarrow> length ms + Suc n < 2 ^ 63"
    and o: "st_conf s = cf" "\<forall>k. unat (limit_of s k) = L k" "\<not> storage_short cf (st_world s)"
      "\<forall>(k, q) \<in> set (st_qlist s). wi_of q + Suc n < 2 ^ 64" "Suc n + 2 < 2 ^ 63"
    by (rule rep_forE [OF rep])
  note A = api_repD [OF M(1)]
  obtain ms where ms: "M k = Some ms" "bs = map snd ms" using some M(2) by (auto simp: bodies_def)
  have len: "0 < int (length m)" "int (length m) \<le> int (length m)" "body_ok (st_conf s) (take (nat (int (length m))) m)"
    using ok o(1) by (auto simp: body_ok_def)
  obtain q where q: "map_of (st_qlist s) k = Some q" using queues_repD(1,2) [OF A(5)] ms(1)
    by (metis domI map_of_eq_None_iff not_None_eq list.set_map)
  then have "wi_of q + Suc n < 2 ^ 64" using o(4) map_of_SomeD by fastforce
  then have gr: "can_grow s k" using o(1,3) q by (simp add: can_grow_def queue_of_def)
  have L: "unat (limit_of s k) = L k" using o(2) by blast
  show ?thesis
  proof (cases "L k \<noteq> 0 \<and> L k \<le> length ms")
    case True
    then have "limit_of s k \<noteq> 0" "unat (limit_of s k) \<le> length ms" using L by auto
    then have "api_put d k m s = Some (False, s)"
      unfolding api_put_def using ok len by (intro put_full [OF M(1) _ ms(1)]) auto
    then show ?thesis using rep_for_mono [OF rep] True some ms(2) ok by (simp add: spec_put_def)
  next
    case False
    have "length ms + Suc n < 2 ^ 63" using M(3) ms(1) by blast
    moreover have "limit_of s k = 0 \<or> length ms < unat (limit_of s k)" using False L by (metis unat_0_iff not_le)
    ultimately obtain s' where p: "api_put d k m s = Some (True, s')" "grows s s'" "api_rep s' (M(k \<mapsto> ms @ [(d, m)]))"
      using put_found [OF M(1) ok(1) ms(1) len _ _ gr, of d] unfolding api_put_def by auto
    have "rep_for cf L n s' (bodies (M(k \<mapsto> ms @ [(d, m)])))"
      using M(3) ms(1) by (intro rep_for_step [OF rep p(2,3)]) (fastforce split: if_splits)
    then show ?thesis using p(1) False some ms(2) M(2) ok by (simp add: spec_put_def)
  qed
qed

lemma api_put_law:
  assumes rep: "rep_for cf L (Suc n) s B" and fit: "length m < 2 ^ 31"
  shows "\<exists>s'. api_put d k m s = Some (fst (put_of cf L k m B), s') \<and> rep_for cf L n s' (snd (put_of cf L k m B))"
proof (cases "qname_check (Some k) = 1 \<and> body_ok cf m")
  case True
  then show ?thesis using put_law_absent [OF rep] put_law_present [OF rep] by (cases "B k") auto
next
  case False
  obtain M where M: "api_rep s M" and cf: "st_conf s = cf" by (rule rep_forE [OF rep])
  have "qname_check (Some k) \<noteq> 1 \<or> int (length m) \<le> 0
      \<or> (word_of_int (int (length m)) :: u32) > MAX_DB_FILE_SIZE cf - of_nat DB_FILE_HEAD_LEN - of_nat MSG_HEAD_LEN"
    using False too_long [OF api_repD(1) [OF M, unfolded cf], of m] fit by fastforce
  then have "api_put d k m s = Some (False, s)" unfolding api_put_def by (intro put_rejected) (simp add: cf)
  then show ?thesis using False rep_for_mono [OF rep] by (auto simp: spec_put_def)
qed

lemma api_get_law:
  assumes rep: "rep_for cf L (Suc n) s B" and fit: "- (2 ^ 31) \<le> l" "l < 2 ^ 31"
  shows "case spec_get (\<lambda>k. qname_check (Some k) = 1) length k l B of
      None \<Rightarrow> api_get junk k l s = None
    | Some (r, B') \<Rightarrow> \<exists>s'. api_get junk k l s = Some (r, s') \<and> rep_for cf L n s' B'"
proof -
  obtain M where M: "api_rep s M" "B = bodies M" "\<forall>k ms. M k = Some ms \<longrightarrow> length ms + Suc n < 2 ^ 63"
    by (rule rep_forE [OF rep])
  note keep = rep_for_mono [OF rep]
  consider (bad) "qname_check (Some k) \<noteq> 1" | (none) "M k = None \<or> M k = Some []"
    | (hit) d b ms where "qname_check (Some k) = 1" "M k = Some ((d, b) # ms)"
    by (metis list.exhaust not_None_eq surj_pair)
  then show ?thesis
  proof cases
    case bad
    then show ?thesis using keep by (simp add: spec_get_def api_get_def get_rejected)
  next
    case none
    then have "content B k = []" using M(2) by (auto simp: bodies_def)
    then show ?thesis
      using keep get_empty [OF M(1) none] by (auto simp: spec_get_def api_get_def split: option.splits)
  next
    case hit
    have Bk: "B k = Some (b # map snd ms)" using hit(2) M(2) by (simp add: bodies_def)
    show ?thesis
    proof (cases "l = int (length b)")
      case True
      obtain s' where g: "mq_store_get junk (Some k) l s = Some (True, b, s')" "grows s s'" "api_rep s' (M(k \<mapsto> ms))"
        using get_message [OF M(1) hit True] by blast
      have "rep_for cf L n s' (bodies (M(k \<mapsto> ms)))"
        using M(3) hit(2) by (intro rep_for_step [OF rep g(2,3)]) (fastforce split: if_splits)
      then show ?thesis using g(1) True hit(1) Bk M(2) by (simp add: spec_get_def api_get_def)
    next
      case False
      obtain s' where "mq_store_get_call junk (Some k) l s = Some (Aborts s')" by (rule get_wrong_length [OF M(1) hit False fit])
      then show ?thesis using False hit(1) Bk by (simp add: spec_get_def api_get_def mq_store_get_def)
    qed
  qed
qed

interpretation api: fifo_store "\<lambda>k. qname_check (Some k) = 1" "body_ok cf" L "max_qlist_itmes cf" length int_args
    "rep_for cf L" "api_put d" "api_get junk" for cf L d junk
proof unfold_locales
  show "\<exists>s'. api_put d k m s = Some (fst (put_of cf L k m M), s') \<and> rep_for cf L n s' (snd (put_of cf L k m M))"
    if "rep_for cf L (Suc n) s M" "int_args (Put k m)" for n s M k m
    using api_put_law [OF that(1)] that(2) by simp
  show "case spec_get (\<lambda>k. qname_check (Some k) = 1) length k l M of
      None \<Rightarrow> api_get junk k l s = None
    | Some (r, B') \<Rightarrow> \<exists>s'. api_get junk k l s = Some (r, s') \<and> rep_for cf L n s' B'"
    if "rep_for cf L (Suc n) s M" "int_args (Get k l)" for n s M k l
    using api_get_law [OF that(1)] that(2) by simp
qed

end
