(* ===== verification/Reader_Total.thy ===== *)
theory Reader_Total
  imports Store_Manage
begin

text \<open>
  The reader \<^verbatim>\<open>mq_sm_get_data\<close> on arbitrary file contents and arbitrary failures of the environment:
  it never leaves a live mapping and it ends. The mappings of a queue stay usable because no call
  of the reader shrinks a file or removes a mapping other than that of the file it leaves.
\<close>

section \<open>Calls that keep files and mappings\<close>

definition fs_ok :: "world \<Rightarrow> bool" where
  "fs_ok w \<longleftrightarrow> (\<forall>p i. (p, RegN i) \<in> set (w_fs w) \<longrightarrow> i < w_next_ino w)"

definition keeps :: "world \<Rightarrow> world \<Rightarrow> bool" where
  "keeps w w' \<longleftrightarrow>
     w_next_ino w \<le> w_next_ino w' \<and> w_next_map w \<le> w_next_map w'
     \<and> (\<forall>k < w_next_map w. w_maps w' k = w_maps w k)
     \<and> (\<forall>i < w_next_ino w. f_size (w_files w i) \<le> f_size (w_files w' i)) \<and> (fs_ok w \<longrightarrow> fs_ok w')"

named_theorems keeps_rules "calls that keep files and mappings"

lemma keeps_refl [simp]: "keeps w w"
  by (simp add: keeps_def)

lemma keeps_trans: "keeps w w1 \<Longrightarrow> keeps w1 w2 \<Longrightarrow> keeps w w2"
  by (simp add: keeps_def) (metis le_trans less_le_trans)

lemma keeps_frame [simp]:
  "keeps w (w'\<lparr>w_errno := e\<rparr>) = keeps w w'" "keeps w (w'\<lparr>w_fds := m\<rparr>) = keeps w w'"
  "keeps w (w'\<lparr>w_faults := l\<rparr>) = keeps w w'" "keeps w (w'\<lparr>w_next_fd := n\<rparr>) = keeps w w'"
  "keeps w (snd (set_errno e w')) = keeps w w'"
  by (simp_all add: keeps_def fs_ok_def set_errno_def Let_def)

lemma keeps_outcome: "next_outcome w = (out, w') \<Longrightarrow> keeps w w'"
  by (auto simp: next_outcome_def split: list.splits)

lemma keeps_time [keeps_rules]: "get_rel_time a w = (t, w') \<Longrightarrow> keeps w w'" "get_abs_time d w = (ts, w') \<Longrightarrow> keeps w w'"
  by (auto simp: get_rel_time_def get_abs_time_def get_time_tick_def sys_clock_def keeps_def fs_ok_def split: list.splits prod.splits)

lemma keeps_poll [keeps_rules]: "sys_poll fd ev w = (r, rv, w') \<Longrightarrow> keeps w w'"
  by (auto simp: sys_poll_def split: prod.splits outcome.splits if_splits dest: keeps_outcome)

lemma keeps_getfl [keeps_rules]: "sys_getfl_nonblock fd w = (r, w') \<Longrightarrow> keeps w w'"
  by (auto simp: sys_getfl_nonblock_def split: prod.splits outcome.splits option.splits dest: keeps_outcome)

lemma keeps_put: "keeps w (w\<lparr>w_files := (w_files w)(i := file_write (w_files w i) p bs)\<rparr>)"
  by (simp add: keeps_def fs_ok_def file_write_def)

lemma keeps_write [keeps_rules]:
  assumes "sys_write fd bs w = (r, w')"
  shows "keeps w w'"
proof -
  obtain out w1 where o: "next_outcome w = (out, w1)" by fastforce
  have "keeps w1 w'"
    using assms o keeps_put by (auto simp: sys_write_def Let_def split: outcome.splits option.splits if_splits)
  then show ?thesis using keeps_outcome [OF o] keeps_trans by blast
qed

lemma keeps_new_inode: "keeps w (snd (new_inode p w))"
  by (auto simp: new_inode_def keeps_def fs_ok_def less_Suc_eq)

lemma keeps_alloc: "keeps w (snd (alloc_fd d w'))= keeps w w'"
  by (simp add: alloc_fd_def)

lemma keeps_open [keeps_rules]:
  assumes "sys_open p c a w = (r, w')"
  shows "keeps w w'"
proof -
  obtain out w1 where o: "next_outcome w = (out, w1)" by fastforce
  have "keeps w1 w'"
    using assms o keeps_new_inode [of w1 p] keeps_alloc
    by (auto simp: sys_open_def split: outcome.splits option.splits node.splits if_splits prod.splits; metis snd_conv keeps_refl)
  then show ?thesis using keeps_outcome [OF o] keeps_trans by blast
qed

lemma keeps_close [simp]: "keeps w (sys_close fd w') = keeps w w'"
  by (simp add: sys_close_def)

lemma keeps_filter: "keeps w w' \<Longrightarrow> keeps w (w'\<lparr>w_fs := filter P (w_fs w')\<rparr>)"
  by (auto simp: keeps_def fs_ok_def)

lemma keeps_unlink [keeps_rules]: "keeps w (sys_unlink p w)"
proof -
  obtain out w1 where o: "next_outcome w = (out, w1)" by fastforce
  show ?thesis
    using keeps_outcome [OF o] o by (simp add: sys_unlink_def keeps_filter split: outcome.splits option.splits node.splits)
qed

lemma keeps_mmap [keeps_rules]:
  assumes "sys_mmap n fd w = (m, w')"
  shows "keeps w w'"
proof -
  obtain out w1 where o: "next_outcome w = (out, w1)" by fastforce
  have "keeps w1 w'"
    using assms o by (auto simp: sys_mmap_def keeps_def fs_ok_def split: outcome.splits option.splits)
  then show ?thesis using keeps_outcome [OF o] keeps_trans by blast
qed

section \<open>Writing to a descriptor\<close>

lemma keeps_poll_loop: "keeps w (snd (poll_loop fd ev t w))"
proof (induction fd ev t w rule: poll_loop.induct)
  case (1 fd events timeout w)
  obtain r rv w' where p: "sys_poll fd events w = (r, rv, w')" by (metis prod_cases3)
  show ?case
    using 1 p keeps_poll [OF p] keeps_trans by (auto simp: poll_loop.simps [of fd events timeout w])
qed

lemma keeps_wait: "keeps w (snd (wait_fd fd ev t w))"
proof -
  have "keeps w (w\<lparr>w_errno := 0\<rparr>)" by (simp add: keeps_def fs_ok_def)
  then show ?thesis unfolding wait_fd_def by (rule keeps_trans [OF _ keeps_poll_loop])
qed

lemma keeps_retry: "keeps w (snd (write_retry fd bs w))"
proof (induction fd bs w rule: write_retry.induct)
  case (1 fd bs w)
  obtain r w' where p: "sys_write fd bs w = (r, w')" by fastforce
  show ?case using 1 p keeps_write [OF p] keeps_trans by (auto simp: write_retry.simps [of fd bs w])
qed

lemma keeps_block_loop: "keeps w (snd (block_write_loop fd buf t a ttl w))"
proof (induction fd buf t a ttl w rule: block_write_loop.induct)
  case (1 fd buf timeout abs_to ttl w)
  obtain n w1 where g: "get_rel_time abs_to w = (n, w1)" by fastforce
  obtain v w2 where p: "wait_fd fd POLLOUT (if timeout \<le> 0 then timeout else n) w1 = (v, w2)" by fastforce
  obtain r w3 where s: "write_retry fd (drop ttl buf) w2 = (r, w3)" by fastforce
  have k1: "keeps w w1" using keeps_time(1) [OF g] .
  have k2: "keeps w w2" using k1 keeps_wait keeps_trans p by (metis snd_conv)
  have k3: "keeps w w3" using k2 keeps_retry keeps_trans s by (metis snd_conv)
  note IH = keeps_trans [OF k3 "1.IH" [OF g [symmetric] _ p [symmetric] _ s [symmetric]]]
  show ?case
    unfolding block_write_loop.simps [of fd buf timeout abs_to ttl w] g prod.case p s using IH k1 k2 k3 by simp
qed

lemma keeps_nonblock_loop: "keeps w (snd (nonblock_write_loop fd buf t a ttl w))"
proof (induction fd buf t a ttl w rule: nonblock_write_loop.induct)
  case (1 fd buf timeout abs_to ttl w)
  obtain r w1 where s: "sys_write fd (drop ttl buf) w = (r, w1)" by fastforce
  obtain n w2 where g: "get_rel_time abs_to w1 = (n, w2)" by fastforce
  obtain v w3 where p: "wait_fd fd POLLOUT (if timeout < 0 then timeout else n) w2 = (v, w3)" by fastforce
  have k1: "keeps w w1" using keeps_write [OF s] .
  have k2: "keeps w w2" using k1 keeps_time(1) [OF g] keeps_trans by blast
  have k3: "keeps w w3" using k2 keeps_wait keeps_trans p by (metis snd_conv)
  note IH = keeps_trans [OF k1 "1.IH"(1) [OF s [symmetric]]] keeps_trans [OF k1 "1.IH"(2) [OF s [symmetric]]]
    keeps_trans [OF k3 "1.IH"(3) [OF s [symmetric] _ _ _ _ g [symmetric] _ p [symmetric]]]
  show ?case
    unfolding nonblock_write_loop.simps [of fd buf timeout abs_to ttl w] s prod.case g p using IH k1 k2 k3 by simp
qed

lemma keeps_write_n: "keeps w (snd (write_n fd bt buf t w))"
proof -
  obtain f w1 where f: "is_nonblock fd bt w = (f, w1)" by fastforce
  have k: "keeps w w1"
    using f by (auto simp: is_nonblock_def split: fd_block.splits prod.splits option.splits bool.splits dest: keeps_getfl)
  obtain a w2 where a: "get_abs_time t w1 = (a, w2)" by fastforce
  have k2: "keeps w w2" using k keeps_time(2) [OF a] keeps_trans by blast
  note L = keeps_trans [OF k2 keeps_block_loop] keeps_trans [OF k2 keeps_nonblock_loop]
  show ?thesis using k f a L by (simp add: write_n_def nonblock_write_n_def block_write_n_def)
qed

lemma keeps_rtag_write: "keeps w (snd (mq_sm_rtag_write_item q w))"
  using keeps_write_n [of w "rtag_fd q" FD_UNKNOWN "rtag_line q" READ_OPT_TIMEOUT]
  by (auto simp: mq_sm_rtag_write_item_def split: prod.splits)

section \<open>Live mappings\<close>

definition live :: "ucmq_conf \<Rightarrow> world \<Rightarrow> ptr \<Rightarrow> bool" where
  "live cf w m \<longleftrightarrow>
     (\<exists>k mp. m = Some k \<and> k < w_next_map w \<and> w_maps w k = Some mp \<and> m_len mp = max_db cf
        \<and> m_ino mp < w_next_ino w \<and> max_db cf \<le> f_size (w_files w (m_ino mp)))"

lemma live_maps: "live cf w m \<Longrightarrow> \<exists>i. maps_db cf w m i"
  by (auto simp: live_def maps_db_def map_file_def)

lemma live_keeps: "live cf w m \<Longrightarrow> keeps w w' \<Longrightarrow> live cf w' m"
  unfolding live_def keeps_def by (metis le_trans less_le_trans)

lemma live_munmap: "live cf w m \<Longrightarrow> m \<noteq> p \<Longrightarrow> live cf (sys_munmap p w) m"
  by (auto simp: live_def sys_munmap_def split: option.splits)

lemma munmap_fs_ok [simp]: "fs_ok (sys_munmap p w) = fs_ok w"
  by (simp add: fs_ok_def sys_munmap_def split: option.splits)

lemma stat_size_live:
  assumes "conf_ok cf" and "word_of_int (to_int (int n)) = MAX_DB_FILE_SIZE cf"
  shows "max_db cf \<le> n"
proof -
  have "(word_of_int (to_int (int n)) :: u32) = of_nat n" by (simp add: to_int_def)
  then have "unat (of_nat n :: u32) = max_db cf" using assms(2) by metis
  moreover have "unat (of_nat n :: u32) \<le> n" by (simp add: unat_of_nat take_bit_nat_less_eq_self)
  ultimately show ?thesis by simp
qed

lemma mmap_live:
  assumes "sys_mmap (max_db cf) fd w = (Some m, w')" and "w_fds w fd = Some d"
    and "max_db cf \<le> f_size (w_files w (o_ino d))" "o_ino d < w_next_ino w"
  shows "live cf w' (Some m)" and "w_next_map w \<le> m" and "keeps w w'"
proof -
  obtain out w1 where o: "next_outcome w = (out, w1)" by fastforce
  then have e: "w_fds w1 = w_fds w" "w_files w1 = w_files w" "w_next_ino w1 = w_next_ino w" "w_next_map w1 = w_next_map w"
    by (auto simp: next_outcome_def split: list.splits)
  show "live cf w' (Some m)" "w_next_map w \<le> m"
    using assms o e by (auto simp: sys_mmap_def live_def split: outcome.splits option.splits)
  show "keeps w w'" using assms(1) by (rule keeps_mmap)
qed

lemma open_db_file_live:
  assumes cf: "conf_ok cf" and fs: "fs_ok w" and r: "mq_sm_open_db_file cf p FOPEN_FLAG_OPEN w = (m, fd, w')"
  shows "keeps w w'" and "m = Some k \<Longrightarrow> live cf w' m \<and> w_next_map w \<le> k"
proof -
  obtain fd1 w1 where o: "sys_open p False False w = (fd1, w1)" by fastforce
  have k1: "keeps w w1" by (rule keeps_open [OF o])
  obtain m2 w2 where mm: "sys_mmap (max_db cf) fd1 w1 = (m2, w2)" by fastforce
  have k2: "keeps w w2" using k1 keeps_mmap [OF mm] keeps_trans by blast
  show "keeps w w'"
    using r o mm k1 k2 by (auto simp: mq_sm_open_db_file_def Let_def split: if_splits option.splits)
  assume m: "m = Some k"
  then have c: "\<not> fd1 < 0" "word_of_int (get_file_size p w1) = MAX_DB_FILE_SIZE cf" "m2 = Some k" "w' = w2" "m = m2"
    using r o mm by (auto simp: mq_sm_open_db_file_def Let_def split: if_splits option.splits)
  obtain i d where i: "lookup_path w1 p = Some (RegN i)" "w_fds w1 fd1 = Some d" "o_ino d = i"
    using o c(1) by (auto simp: sys_open_def alloc_fd_def lookup_path_def split: outcome.splits option.splits node.splits prod.splits)
  have "max_db cf \<le> f_size (w_files w1 i)"
    using stat_size_live [OF cf] c(2) i(1) by (simp add: get_file_size_def sys_stat_size_def)
  moreover have "i < w_next_ino w1"
    using fs k1 i(1) unfolding keeps_def fs_ok_def lookup_path_def by (metis map_of_SomeD)
  ultimately have "live cf w2 m \<and> w_next_map w1 \<le> k" using mmap_live mm c(3,5) i(2,3) by metis
  then show "live cf w' m \<and> w_next_map w \<le> k" using c(4) k1 le_trans unfolding keeps_def by blast
qed

section \<open>The reader\<close>

text \<open>What the reader needs of a queue: both mappings live, distinct when the files are, a free
  mutex, and an index below the last one.\<close>

definition reader_ok :: "ucmq_conf \<Rightarrow> mq_queue \<Rightarrow> world \<Rightarrow> bool" where
  "reader_ok cf q w \<longleftrightarrow>
     \<not> q_mutex q \<and> fs_ok w \<and> live cf w (d_map_mem (cur_rdb q)) \<and> live cf w (d_map_mem (cur_wdb q))
     \<and> unat (d_cur_index (cur_rdb q)) \<le> unat (d_cur_index (cur_wdb q)) \<and> Suc (unat (d_cur_index (cur_wdb q))) < 2 ^ 64
     \<and> (d_cur_index (cur_rdb q) \<noteq> d_cur_index (cur_wdb q) \<longrightarrow> d_map_mem (cur_rdb q) \<noteq> d_map_mem (cur_wdb q))
     \<and> unat (d_pos (cur_rdb q)) \<le> max_db cf"

lemma next_index:
  fixes r v :: u64
  assumes "unat r \<le> unat v" "Suc (unat v) < 2 ^ 64"
  shows "r + 1 > v \<longleftrightarrow> r = v" and "unat (r + 1) = Suc (unat r)"
proof -
  show u: "unat (r + 1) = Suc (unat r)" using assms by (simp add: unat_word_ariths)
  show "r + 1 > v \<longleftrightarrow> r = v" unfolding word_less_nat_alt u using assms(1) by (auto simp: word_unat_eq_iff)
qed

lemma live_calls [simp]:
  "live cf (sys_close fd w) m = live cf w m"
  "live cf w m \<Longrightarrow> live cf (sys_unlink p w) m"
  "live cf w m \<Longrightarrow> live cf (snd (mq_sm_rtag_write_item q w)) m"
  "live cf w m \<Longrightarrow> live cf (snd (mq_sm_rtag_open_next_file p w)) m"
proof -
  show "live cf (sys_close fd w) m = live cf w m" by (simp add: live_def sys_close_def)
  have "keeps w (snd (mq_sm_rtag_open_next_file p w))"
    using keeps_open by (auto simp: mq_sm_rtag_open_next_file_def split: prod.splits)
  then show "live cf w m \<Longrightarrow> live cf (snd (mq_sm_rtag_open_next_file p w)) m" by (blast intro: live_keeps)
qed (blast intro: live_keeps keeps_unlink keeps_rtag_write)+

lemma fs_ok_calls [simp]:
  "fs_ok (sys_close fd w) = fs_ok w"
  "fs_ok w \<Longrightarrow> fs_ok (sys_unlink p w)"
  "fs_ok w \<Longrightarrow> fs_ok (snd (mq_sm_rtag_write_item q w))"
  "fs_ok w \<Longrightarrow> fs_ok (snd (mq_sm_rtag_open_next_file p w))"
proof -
  show "fs_ok (sys_close fd w) = fs_ok w" by (simp add: fs_ok_def sys_close_def)
  have "keeps w (snd (mq_sm_rtag_open_next_file p w))"
    using keeps_open by (auto simp: mq_sm_rtag_open_next_file_def split: prod.splits)
  then show "fs_ok w \<Longrightarrow> fs_ok (snd (mq_sm_rtag_open_next_file p w))" by (simp add: keeps_def)
qed (use keeps_unlink keeps_rtag_write keeps_def in blast)+

lemma open_db_file_calls:
  fixes p :: path
  assumes cf: "conf_ok cf" and fs: "fs_ok w"
  defines "r \<equiv> mq_sm_open_db_file cf p FOPEN_FLAG_OPEN w"
  shows "fs_ok (snd (snd r))" "live cf w m \<Longrightarrow> live cf (snd (snd r)) m"
    "fst r \<noteq> None \<Longrightarrow> live cf (snd (snd r)) (fst r)" "fst r \<noteq> None \<Longrightarrow> live cf w m \<Longrightarrow> fst r \<noteq> m"
proof -
  obtain x fd w' where r: "mq_sm_open_db_file cf p FOPEN_FLAG_OPEN w = (x, fd, w')" by (metis prod_cases3)
  note L = open_db_file_live [OF cf fs r]
  show "fs_ok (snd (snd r))" "live cf w m \<Longrightarrow> live cf (snd (snd r)) m"
    using L(1) fs live_keeps by (simp_all add: r_def r keeps_def)
  show "fst r \<noteq> None \<Longrightarrow> live cf (snd (snd r)) (fst r)" using L(2) by (auto simp: r_def r)
  show "fst r \<noteq> None \<Longrightarrow> live cf w m \<Longrightarrow> fst r \<noteq> m" using L(2) by (auto simp: r_def r live_def)
qed

text \<open>What a successful move to the next file has done: \<open>wm\<close> is the world after the old file was left.\<close>

lemma next_read_fileD:
  assumes r: "get_next_read_file cf q w = (True, q', w')" and ne: "\<not> d_cur_index (cur_rdb q) + 1 > d_cur_index (cur_wdb q)"
  obtains wm where "\<And>m. live cf w m \<Longrightarrow> m \<noteq> d_map_mem (cur_rdb q) \<Longrightarrow> live cf wm m" "fs_ok w \<Longrightarrow> fs_ok wm"
    and "cur_wdb q' = cur_wdb q" "d_cur_index (cur_rdb q') = d_cur_index (cur_rdb q) + 1"
      "d_pos (cur_rdb q') = of_nat DB_FILE_HEAD_LEN"
    and "d_cur_index (cur_rdb q) + 1 = d_cur_index (cur_wdb q) \<and> w' = wm \<and> d_map_mem (cur_rdb q') = d_map_mem (cur_wdb q)
      \<or> (\<exists>p fd. mq_sm_open_db_file cf p FOPEN_FLAG_OPEN wm = (d_map_mem (cur_rdb q'), fd, w') \<and> d_map_mem (cur_rdb q') \<noteq> None)"
proof -
  let ?n = "d_cur_index (cur_rdb q) + 1"
  let ?o = "mq_sm_rtag_open_next_file (GEN_RTAG_FULL_PATH_BY_QNAME_INDEX cf (q_name q) ?n) w"
  define q2 where "q2 = q\<lparr>rtag_fd := fst ?o, cur_rdb := (cur_rdb q)\<lparr>d_flag := 0, d_cur_index := ?n, d_opt_count := 0,
      d_pos := of_nat DB_FILE_HEAD_LEN\<rparr>\<rparr>"
  define wm where "wm = sys_unlink (GEN_DATA_FULL_PATH_BY_QNAME_INDEX cf (q_name q) (d_cur_index (cur_rdb q)))
      (sys_close (d_fd (cur_rdb q)) (sys_munmap (d_map_mem (cur_rdb q))
        (sys_unlink (GEN_RTAG_FULL_PATH_BY_QNAME_INDEX cf (q_name q) (d_cur_index (cur_rdb q)))
          (sys_close (rtag_fd q) (snd (mq_sm_rtag_write_item q2 (snd ?o)))))))"
  obtain m fd w2 where db: "mq_sm_open_db_file cf (GEN_DATA_FULL_PATH_BY_QNAME_INDEX cf (q_name q) ?n) FOPEN_FLAG_OPEN wm = (m, fd, w2)"
    by (metis prod_cases3)
  have e: "get_next_read_file cf q w =
      (if fst ?o < 0 then (False, q\<lparr>rtag_fd := fst ?o, cur_rdb := (cur_rdb q)\<lparr>d_flag := 0\<rparr>\<rparr>, snd ?o)
       else if ?n = d_cur_index (cur_wdb q)
       then (True, q2\<lparr>cur_rdb := (cur_rdb q2)\<lparr>d_map_mem := d_map_mem (cur_wdb q), d_fd := d_fd (cur_wdb q), d_flag := 1\<rparr>\<rparr>, wm)
       else if m = None then (False, q2\<lparr>cur_rdb := (cur_rdb q2)\<lparr>d_map_mem := m, d_fd := fd\<rparr>\<rparr>, sys_close (rtag_fd q2) w2)
       else (True, q2\<lparr>cur_rdb := (cur_rdb q2)\<lparr>d_map_mem := m, d_fd := fd, d_flag := 1\<rparr>\<rparr>, w2))"
    using ne db by (simp add: get_next_read_file_def Let_def split_beta wm_def q2_def)
  show ?thesis
  proof (rule that [of wm])
    show "live cf wm m" if "live cf w m" "m \<noteq> d_map_mem (cur_rdb q)" for m
      using that by (simp add: wm_def live_munmap)
    show "fs_ok wm" if "fs_ok w" using that by (simp add: wm_def)
  qed (use r e db in \<open>(fastforce simp: q2_def split: if_splits)+\<close>)
qed

lemma next_file_ok:
  assumes cf: "conf_ok cf" and ok: "reader_ok cf q w"
  shows "\<exists>b q' w'. get_data_next_file cf q w = Some (b, q', w') \<and> \<not> q_mutex q'
     \<and> (b \<longrightarrow> reader_ok cf q' w' \<and> d_cur_index (cur_wdb q') = d_cur_index (cur_wdb q)
            \<and> unat (d_cur_index (cur_rdb q')) = Suc (unat (d_cur_index (cur_rdb q))))"
proof -
  let ?r = "d_cur_index (cur_rdb q)" and ?v = "d_cur_index (cur_wdb q)" and ?q = "q\<lparr>q_mutex := True\<rparr>"
  have o: "\<not> q_mutex q" "fs_ok w" "live cf w (d_map_mem (cur_wdb q))" "unat ?r \<le> unat ?v" "Suc (unat ?v) < 2 ^ 64"
      "?r \<noteq> ?v \<Longrightarrow> d_map_mem (cur_wdb q) \<noteq> d_map_mem (cur_rdb q)"
    using ok unfolding reader_ok_def by auto
  note N = next_index [OF o(4,5)]
  have h: "unat (of_nat DB_FILE_HEAD_LEN :: u32) \<le> max_db cf" using max_db_lower [OF cf] by (simp add: store_consts)
  obtain b q' w' where g: "get_next_read_file cf ?q w = (b, q', w')" by (metis prod_cases3)
  have "reader_ok cf (mutex_unlock q') w' \<and> d_cur_index (cur_wdb q') = ?v \<and> unat (d_cur_index (cur_rdb q')) = Suc (unat ?r)" if b
  proof -
    have ne: "?r \<noteq> ?v" using that g N(1) by (auto simp: get_next_read_file_def Let_def)
    have g': "get_next_read_file cf ?q w = (True, q', w')" "\<not> d_cur_index (cur_rdb ?q) + 1 > d_cur_index (cur_wdb ?q)"
      using that g ne N(1) by simp_all
    obtain wm where m: "\<And>m. live cf w m \<Longrightarrow> m \<noteq> d_map_mem (cur_rdb q) \<Longrightarrow> live cf wm m" "fs_ok w \<Longrightarrow> fs_ok wm"
        "cur_wdb q' = cur_wdb q" "d_cur_index (cur_rdb q') = ?r + 1" "d_pos (cur_rdb q') = of_nat DB_FILE_HEAD_LEN"
        "?r + 1 = ?v \<and> w' = wm \<and> d_map_mem (cur_rdb q') = d_map_mem (cur_wdb q)
          \<or> (\<exists>p fd. mq_sm_open_db_file cf p FOPEN_FLAG_OPEN wm = (d_map_mem (cur_rdb q'), fd, w') \<and> d_map_mem (cur_rdb q') \<noteq> None)"
      using next_read_fileD [OF g'] by auto
    have lw: "live cf wm (d_map_mem (cur_wdb q))" "fs_ok wm" using m(1,2) o(2,3) o(6) [OF ne] by blast+
    have "fs_ok w' \<and> live cf w' (d_map_mem (cur_wdb q)) \<and> live cf w' (d_map_mem (cur_rdb q'))
        \<and> (?r + 1 \<noteq> ?v \<longrightarrow> d_map_mem (cur_rdb q') \<noteq> d_map_mem (cur_wdb q))"
      using m(6) lw open_db_file_calls [OF cf lw(2)] by (metis fst_conv snd_conv)
    moreover have "Suc (unat ?r) \<le> unat ?v" using ne o(4) by (simp add: word_unat_eq_iff)
    ultimately show ?thesis using m(3,4,5) N(2) o(5) h by (simp add: reader_ok_def mutex_unlock_def)
  qed
  then show ?thesis using g o(1) by (simp add: get_data_next_file_def mutex_lock_def mutex_unlock_def)
qed

text \<open>The result of the reader: a message that lies in a live mapping and carries its checksum, or nothing.\<close>

definition read_sound :: "bool \<times> msg_item \<times> mq_queue \<times> world \<Rightarrow> bool" where
  "read_sound r =
     (case r of (ok, it, q, w) \<Rightarrow> \<not> q_mutex q
        \<and> (ok \<longrightarrow> (\<exists>b. load_msg w (msg it) (unat (len it)) = Some b \<and> crc16 it = crc16_loop 0 b)))"

lemma read_step:
  assumes cf: "conf_ok cf" and ok: "reader_ok cf q w"
  obtains (stop) r where "mq_sm_get_data cf item q w = Some r" "read_sound r"
    | (skip) n it where "0 < n" "n \<le> 2" "unat (d_pos (cur_rdb q)) + 12 < max_db cf"
        "mq_sm_get_data cf item q w = mq_sm_get_data cf it (upd_rdb (d_pos_update (\<lambda>p. p + of_nat n)) q) w"
    | (move) it q' w' where "reader_ok cf q' w'" "d_cur_index (cur_wdb q') = d_cur_index (cur_wdb q)"
        "unat (d_cur_index (cur_rdb q')) = Suc (unat (d_cur_index (cur_rdb q)))"
        "mq_sm_get_data cf item q w = mq_sm_get_data cf it q' w'"
proof -
  let ?m = "d_map_mem (cur_rdb q)" and ?p = "d_pos (cur_rdb q)"
  have o: "\<not> q_mutex q" "unat ?p \<le> max_db cf" using ok unfolding reader_ok_def by blast+
  obtain i where i: "maps_db cf w ?m i" using ok live_maps unfolding reader_ok_def by blast
  obtain r it where p: "mq_sm_db_parse_msg cf w ?m ?p item = Some (r, it)" "r \<noteq> MSG_CHECK_RET_PARSE_ERR"
      "r = MSG_CHECK_RET_LEN_BEY \<or> unat ?p + MSG_HEAD_LEN < max_db cf"
      "r = MSG_CHECK_RET_OK \<Longrightarrow> unat ?p + MSG_HEAD_LEN + unat (len it) \<le> max_db cf \<and> msg it = InMap ?m (unat ?p + MSG_HEAD_LEN)
         \<and> crc16 it = crc16_loop 0 (bytes_at (f_data (w_files w i)) (unat ?p + MSG_HEAD_LEN) (unat (len it)))"
    by (rule parse_msg_safe [OF cf i o(2), of item]) blast
  obtain b q' w' where n: "get_data_next_file cf q w = Some (b, q', w')" "\<not> q_mutex q'"
      "b \<longrightarrow> reader_ok cf q' w' \<and> d_cur_index (cur_wdb q') = d_cur_index (cur_wdb q)
         \<and> unat (d_cur_index (cur_rdb q')) = Suc (unat (d_cur_index (cur_rdb q)))"
    using next_file_ok [OF cf ok] by blast
  show ?thesis
  proof (cases "d_cur_index (cur_rdb q) = d_cur_index (cur_wdb q) \<and> ?p + of_nat MSG_HEAD_LEN \<ge> d_pos (cur_wdb q)")
    case True
    then show ?thesis using stop o(1) by (simp add: mq_sm_get_data.simps [of cf item q w] read_sound_def)
  next
    case False
    have ev: "mq_sm_get_data cf item q w =
        (if r = MSG_CHECK_RET_OK then Some (True, it, get_data_advance it q, w)
         else if r = MSG_CHECK_RET_MAG_NUM_ERR then mq_sm_get_data cf it (upd_rdb (d_pos_update (\<lambda>p. p + 1)) q) w
         else if r = MSG_CHECK_RET_CRC_ERR then mq_sm_get_data cf it (upd_rdb (d_pos_update (\<lambda>p. p + 2)) q) w
         else if b then mq_sm_get_data cf it q' w' else Some (False, it, q', w'))"
      unfolding mq_sm_get_data.simps [of cf item q w] if_not_P [OF False] using p(1,2) n(1) by simp
    show ?thesis
    proof (cases r)
      case MSG_CHECK_RET_OK
      have "load_msg w (msg it) (unat (len it)) = Some (bytes_at (f_data (w_files w i)) (unat ?p + MSG_HEAD_LEN) (unat (len it)))"
        using p(4) [OF MSG_CHECK_RET_OK] i by (simp add: mem_load_def maps_db_def)
      then have "read_sound (True, it, get_data_advance it q, w)"
        using p(4) [OF MSG_CHECK_RET_OK] o(1) by (simp add: read_sound_def get_data_advance_def Let_def)
      then show ?thesis using stop ev MSG_CHECK_RET_OK by simp
    next
      case MSG_CHECK_RET_MAG_NUM_ERR
      then show ?thesis using skip [of 1 it] p(3) ev by (simp add: MSG_HEAD_LEN_def)
    next
      case MSG_CHECK_RET_CRC_ERR
      then show ?thesis using skip [of 2 it] p(3) ev by (simp add: MSG_HEAD_LEN_def)
    next
      case MSG_CHECK_RET_PARSE_ERR
      then show ?thesis using p(2) by simp
    qed (cases b; use stop move [of q' w' it] n ev in \<open>simp add: read_sound_def\<close>)+
  qed
qed

lemma get_data_returns:
  assumes cf: "conf_ok cf" and "reader_ok cf q w"
  shows "\<exists>r. mq_sm_get_data cf item q w = Some r \<and> read_sound r"
  using assms(2)
proof (induction "(unat (d_cur_index (cur_wdb q)) - unat (d_cur_index (cur_rdb q)), max_db cf - unat (d_pos (cur_rdb q)))"
    arbitrary: item q w rule: wf_induct_rule [OF wf_lex_prod [OF wf_less wf_less]])
  case less: 1
  note IH = less(1) and ok = less(2)
  show ?case
  proof (cases rule: read_step [OF cf ok, of item, case_names stop skip move])
    case (stop r)
    then show ?thesis by blast
  next
    case (skip n it)
    let ?q = "upd_rdb (d_pos_update (\<lambda>p. p + of_nat n)) q"
    have "max_db cf < 2 ^ 32" using max_db_upper [OF cf] by simp
    then have u: "unat (d_pos (cur_rdb q) + of_nat n) = unat (d_pos (cur_rdb q)) + n"
      using skip(2,3) by (simp add: unat_word_ariths unat_of_nat take_bit_nat_eq_self)
    have "reader_ok cf ?q w" using ok u skip(2,3) by (simp add: reader_ok_def)
    then show ?thesis using IH [of ?q w it] u skip by simp
  next
    case (move it q' w')
    have "unat (d_cur_index (cur_rdb q')) \<le> unat (d_cur_index (cur_wdb q'))" using move(1) by (simp add: reader_ok_def)
    then have "unat (d_cur_index (cur_wdb q')) - unat (d_cur_index (cur_rdb q'))
        < unat (d_cur_index (cur_wdb q)) - unat (d_cur_index (cur_rdb q))"
      using move(2,3) by simp
    then show ?thesis using IH [OF _ move(1), of it] move(4) by simp
  qed
qed

section \<open>Properties\<close>

text \<open>
  C5. Reading a message always ends, whatever bytes the data files hold and whatever calls fail:
  \<^verbatim>\<open>mq_sm_get_data\<close> scans over damage byte by byte, moves from file to file up to the writer's,
  never reads outside a mapping, and leaves the mutex free. What it accepts lies inside a live
  mapping and carries its checksum.
\<close>

theorem get_data_total:
  assumes "conf_ok cf" and "reader_ok cf q w"
  shows "\<exists>ok it q' w'. mq_sm_get_data cf item q w = Some (ok, it, q', w') \<and> \<not> q_mutex q'
     \<and> (ok \<longrightarrow> (\<exists>b. load_msg w' (msg it) (unat (len it)) = Some b \<and> crc16 it = crc16_loop 0 b))"
  using get_data_returns [OF assms, of item] by (auto simp: read_sound_def)

definition sample_reader :: mq_queue where
  "sample_reader =
     zero_queue\<lparr>cur_rdb := zero_db_map\<lparr>d_map_mem := Some 0, d_cur_index := 1, d_pos := 128\<rparr>,
       cur_wdb := zero_db_map\<lparr>d_map_mem := Some 0, d_cur_index := 1, d_pos := 4096\<rparr>\<rparr>"

theorem get_data_total_witness:
  "\<exists>r. mq_sm_get_data g_mq_conf \<lparr>magic_num1 = 0, magic_num2 = 0, delay = 0, crc16 = 0, len = 0, msg = NullMsg\<rparr>
      sample_reader sample_world = Some r"
proof -
  have "max_db g_mq_conf = 67108864" by (simp add: MAX_DB_FILE_SIZE_def g_mq_conf_def)
  then have "reader_ok g_mq_conf sample_reader sample_world"
    by (simp add: reader_ok_def sample_reader_def sample_world_def live_def fs_ok_def zero_queue_def)
  from get_data_total [OF g_mq_conf_ok this] show ?thesis by blast
qed

end
