(* ===== verification/Samples.thy ===== *)
theory Samples
  imports Fifo_Create Fifo_Queue
begin

text \<open>
  A small world and a queue created in it, on which the theorems about queues are exercised.
\<close>

definition data_conf :: ucmq_conf where
  "data_conf = g_mq_conf\<lparr>data_file_path := ''/data''\<rparr>"

definition data_world :: world where
  "data_world = \<lparr>w_fs = [(''/data'', DirN)], w_files = (\<lambda>_. empty_file), w_next_ino = 0, w_fds = Map.empty, w_next_fd = 3,
     w_maps = Map.empty, w_next_map = 0, w_faults = [], w_errno = 0, w_bavail = 1048576, w_bsize = 1048576,
     w_clock = 0, w_ticks = [], w_wall = 0\<rparr>"

lemma data_conf_ok: "conf_ok data_conf" "path_ok data_conf ''q''"
  using g_mq_conf_ok by (simp_all add: data_conf_def conf_ok_def path_ok_def)

lemma data_world_ok:
  "wf_world data_world" "w_faults data_world = []" "has_dir data_world (data_file_path data_conf)"
  "fresh_dir data_conf nm data_world" "\<not> storage_short data_conf data_world"
proof -
  show "wf_world data_world" "w_faults data_world = []" "has_dir data_world (data_file_path data_conf)"
    by (simp_all add: data_world_def wf_world_def lookup_path_def has_dir_def data_conf_def)
  show "fresh_dir data_conf nm data_world"
    by (auto simp: fresh_dir_def own_path_def queue_dir_def data_conf_def data_world_def lookup_path_def)
  have "get_storage_free data_world = 1024"
    unfolding get_storage_free_def data_world_def by (simp add: to_int_def) 
  then show "\<not> storage_short data_conf data_world" by (simp add: storage_short_def data_conf_def g_mq_conf_def)
qed

definition new_queue :: mq_queue where
  "new_queue = made_queue data_conf ''q'' data_world"

definition new_world :: world where
  "new_world = queue_ready data_conf ''q'' data_world"

lemma new_queue_rep: "queue_rep data_conf new_queue new_world []"
  unfolding new_queue_def new_world_def
  by (rule add_queue_new(2) [where l = "[]"]) (simp_all add: data_conf_ok data_world_ok store_consts, simp add: data_conf_def g_mq_conf_def)

lemma new_queue_simps:
  "wi_of new_queue = 1" "maxque new_queue = 100000000" "q_name new_queue = ''q''"
  by (simp_all add: new_queue_def made_queue_def index_defs data_conf_def g_mq_conf_def Let_def)

lemma new_world_storage: "\<not> storage_short data_conf new_world"
proof -
  have "w_bavail new_world = w_bavail data_world" "w_bsize new_world = w_bsize data_world"
    using queue_made_views(9,10) [OF data_conf_ok(2) data_world_ok(4)] by (simp_all add: new_world_def queue_ready_def)
  then show ?thesis using data_world_ok(5) by (simp add: storage_short_def get_storage_free_def)
qed

definition first_item :: msg_item where
  "first_item = \<lparr>magic_num1 = 0, magic_num2 = 0, delay = 7, crc16 = 0, len = 3, msg = Caller [1, 2, 3]\<rparr>"

lemma first_item_put: "put_item first_item 7 [1, 2, 3]" "body_ok data_conf [1, 2, 3]"
  using max_db_lower [OF data_conf_ok(1)] by (simp_all add: first_item_def put_item_def body_ok_def store_consts)

text \<open>The queue after one message was put into it.\<close>

lemma one_message:
  obtains q w where "queue_rep data_conf q w [(7, [1, 2, 3])]" "evolves data_conf new_queue new_world q w"
  by (rule push_room [OF new_queue_rep first_item_put _ _ _ new_world_storage]) (simp_all add: new_queue_simps)

end
