(* ===== verification/Queue_Limit.thy ===== *)
theory Queue_Limit
  imports Samples
begin

text \<open>
  The limit of a queue over sequences of puts, gets and changes of the limit. The code sequences are the calls of
  \<^verbatim>\<open>mq_queue_manage.c\<close>; the specification is a list and a limit.
\<close>

datatype limit_op = Put_Msg message | Get_Msg | Set_Limit u32

fun limit_spec :: "limit_op list \<Rightarrow> nat \<Rightarrow> message list \<Rightarrow> bool list \<times> nat \<times> message list" where
  "limit_spec [] lim ms = ([], lim, ms)"
| "limit_spec (Put_Msg m # ops) lim ms =
     (let room = (lim = 0 \<or> length ms < lim); (rs, s) = limit_spec ops lim (if room then ms @ [m] else ms) in (room # rs, s))"
| "limit_spec (Get_Msg # ops) lim ms = (let (rs, s) = limit_spec ops lim (drop 1 ms) in ((ms \<noteq> []) # rs, s))"
| "limit_spec (Set_Limit n # ops) lim ms = (let (rs, s) = limit_spec ops (unat n) ms in (True # rs, s))"

text \<open>One call on the queue: whether it succeeds, the queue and the world afterwards.\<close>

fun limit_step :: "ucmq_conf \<Rightarrow> limit_op \<Rightarrow> mq_queue \<Rightarrow> world \<Rightarrow> (bool \<times> mq_queue \<times> world) option" where
  "limit_step cf (Put_Msg m) q w =
     map_option (\<lambda>(r, q, w). (r = QUEUE_PUT_OK, q, w)) (mq_qm_push_item cf q (message_item m) w)"
| "limit_step cf Get_Msg q w =
     map_option (\<lambda>(r, _, q, w). (r = QUEUE_GET_OK, q, w)) (mq_qm_pop_item cf q (message_item (0, [])) w)"
| "limit_step cf (Set_Limit n) q w =
     (case mq_qm_set_maxqueue (Some q) n w of (ok, Some q, w) \<Rightarrow> Some (ok, q, w) | _ \<Rightarrow> None)"

fun limit_run :: "ucmq_conf \<Rightarrow> limit_op list \<Rightarrow> mq_queue \<Rightarrow> world \<Rightarrow> (bool list \<times> mq_queue \<times> world) option" where
  "limit_run cf [] q w = Some ([], q, w)"
| "limit_run cf (p # ops) q w =
     (case limit_step cf p q w of None \<Rightarrow> None
      | Some (r, q, w) \<Rightarrow> map_option (\<lambda>(rs, s). (r # rs, s)) (limit_run cf ops q w))"

fun limit_ok :: "ucmq_conf \<Rightarrow> nat \<Rightarrow> limit_op \<Rightarrow> bool" where
  "limit_ok cf L (Put_Msg m) = body_ok cf (snd m)"
| "limit_ok cf L Get_Msg = True"
| "limit_ok cf L (Set_Limit n) = (n \<noteq> 0 \<and> unat n \<le> L)"

lemma limit_spec_bound:
  "list_all (limit_ok cf L) ops \<Longrightarrow> lim \<noteq> 0 \<Longrightarrow> lim \<le> L \<Longrightarrow> length ms \<le> L \<Longrightarrow>
   length (snd (snd (limit_spec ops lim ms))) \<le> L"
  by (induction ops lim ms rule: limit_spec.induct) (auto simp: split_beta Let_def unat_eq_0)

text \<open>Setting the limit changes the limit and the \<^verbatim>\<open>wtag\<close> file, not the messages.\<close>

lemma set_limit_rep:
  assumes "queue_rep cf q w ms"
  obtains w' where "mq_qm_set_maxqueue (Some q) n w = (True, Some (q\<lparr>maxque := n\<rparr>), w')" "queue_rep cf (q\<lparr>maxque := n\<rparr>) w' ms"
    "w_bavail w' = w_bavail w" "w_bsize w' = w_bsize w"
proof -
  obtain ino seg where r: "rep_at cf q w ino seg" "ms = messages q seg" "\<not> q_mutex q"
      "put_num q - get_num q = of_nat (length ms)" "length ms < 2 ^ 63"
    by (rule queue_repD [OF assms])
  let ?q = "q\<lparr>maxque := n\<rparr>"
  define w' where "w' = tag_put (wtag_fd ?q) (wtag_line ?q) w"
  have "handles_ok cf ?q w (ri_of q) (wi_of q) ino" using r(1) by (simp add: rep_at_def handles_ok_def)
  then have rep: "rep_at cf ?q w ino seg" using r(1) by (simp add: rep_at_def index_defs)
  have "mq_sm_wtag_write_item ?q w = (True, w')"
    unfolding w'_def by (rule tag_write_items(2) [OF rep_atD(4) [OF rep] handlesD(5) [OF rep]])
  moreover have "queue_rep cf ?q w' ms"
    using tag_put_rep [OF rep] r(2-5) by (intro queue_repI) (auto simp: w'_def index_defs)
  ultimately show ?thesis by (intro that [of w']) (simp_all add: mq_qm_set_maxqueue_def Let_def w'_def)
qed

text \<open>One call does what the specification says.\<close>

definition limit_rep :: "ucmq_conf \<Rightarrow> nat \<Rightarrow> mq_queue \<Rightarrow> world \<Rightarrow> nat \<times> message list \<Rightarrow> bool" where
  "limit_rep cf n q w s \<longleftrightarrow> queue_rep cf q w (snd s) \<and> unat (maxque q) = fst s \<and> \<not> storage_short cf w
     \<and> wi_of q + n < 2 ^ 64 \<and> length (snd s) + n < 2 ^ 63"

lemma limit_put:
  assumes rep: "limit_rep cf (Suc n) q w (lim, ms)" and b: "body_ok cf (snd m)"
  shows "\<exists>q' w'. limit_step cf (Put_Msg m) q w = Some (lim = 0 \<or> length ms < lim, q', w')
     \<and> limit_rep cf n q' w' (lim, if lim = 0 \<or> length ms < lim then ms @ [m] else ms)"
proof -
  have R: "queue_rep cf q w ms" "unat (maxque q) = lim" "\<not> storage_short cf w" "wi_of q + Suc n < 2 ^ 64" "length ms + Suc n < 2 ^ 63"
    using rep by (simp_all add: limit_rep_def)
  show ?thesis
  proof (cases "lim = 0 \<or> length ms < lim")
    case True
    have room: "maxque q = 0 \<or> length ms < unat (maxque q)" "Suc (length ms) < 2 ^ 63" "Suc (wi_of q) < 2 ^ 64"
      using True R by (auto simp: unat_eq_0)
    have "conf_ok cf" using R(1) by (auto elim!: queue_repD dest: rep_atD(1))
    then have it: "put_item (message_item m) (fst m) (snd m)" using b by (rule message_item_put)
    obtain q' w' where p: "mq_qm_push_item cf q (message_item m) w = Some (QUEUE_PUT_OK, q', w')"
        "queue_rep cf q' w' (ms @ [(fst m, snd m)])" "wi_of q' \<le> Suc (wi_of q)" "evolves cf q w q' w'"
      by (rule push_room [OF R(1) it b room R(3)])
    have "limit_rep cf n q' w' (lim, ms @ [m])"
      using p(2,3) R evolvesD(2) [OF p(4)] storage_short_cong [OF evolvesD(4,5) [OF p(4)]] by (simp add: limit_rep_def)
    then show ?thesis using True p(1) by auto
  next
    case False
    then have "mq_qm_push_item cf q (message_item m) w = Some (QUEUE_FULL, q, w)"
      using R(2) by (intro push_full [OF R(1)]) auto
    then show ?thesis using False rep by (auto simp: limit_rep_def)
  qed
qed

lemma limit_get:
  assumes rep: "limit_rep cf (Suc n) q w (lim, ms)"
  shows "\<exists>q' w'. limit_step cf Get_Msg q w = Some (ms \<noteq> [], q', w') \<and> limit_rep cf n q' w' (lim, drop 1 ms)"
proof -
  have R: "queue_rep cf q w ms" "unat (maxque q) = lim" "\<not> storage_short cf w" "wi_of q + Suc n < 2 ^ 64" "length ms + Suc n < 2 ^ 63"
    using rep by (simp_all add: limit_rep_def)
  show ?thesis
  proof (cases ms)
    case Nil
    then obtain it where "mq_qm_pop_item cf q (message_item (0, [])) w = Some (QUEUE_GET_END, it, q, w)"
      using pop_empty R(1) by blast
    then show ?thesis using Nil rep by (auto simp: limit_rep_def)
  next
    case (Cons m ms')
    then have "queue_rep cf q w ((fst m, snd m) # ms')" using R(1) by simp
    then obtain it q' w' where p: "mq_qm_pop_item cf q (message_item (0, [])) w = Some (QUEUE_GET_OK, it, q', w')"
        "queue_rep cf q' w' ms'" "wi_of q' = wi_of q" "evolves cf q w q' w'"
      by (rule pop_message)
    then have "limit_rep cf n q' w' (lim, ms')"
      using R Cons evolvesD(2) [OF p(4)] storage_short_cong [OF evolvesD(4,5) [OF p(4)]] by (simp add: limit_rep_def)
    then show ?thesis using Cons p(1) by auto
  qed
qed

lemma limit_set:
  assumes rep: "limit_rep cf (Suc n) q w (lim, ms)"
  shows "\<exists>q' w'. limit_step cf (Set_Limit k) q w = Some (True, q', w') \<and> limit_rep cf n q' w' (unat k, ms)"
proof -
  have R: "queue_rep cf q w ms" "\<not> storage_short cf w" "wi_of q + Suc n < 2 ^ 64" "length ms + Suc n < 2 ^ 63"
    using rep by (simp_all add: limit_rep_def)
  obtain w' where s: "mq_qm_set_maxqueue (Some q) k w = (True, Some (q\<lparr>maxque := k\<rparr>), w')" "queue_rep cf (q\<lparr>maxque := k\<rparr>) w' ms"
      "w_bavail w' = w_bavail w" "w_bsize w' = w_bsize w"
    by (rule set_limit_rep [OF R(1)])
  then have "limit_rep cf n (q\<lparr>maxque := k\<rparr>) w' (unat k, ms)"
    using R storage_short_cong [OF s(3,4)] by (simp add: limit_rep_def index_defs)
  then show ?thesis using s(1) by auto
qed

lemma limit_run_spec:
  "limit_rep cf (length ops) q w (lim, ms) \<Longrightarrow> list_all (limit_ok cf L) ops \<Longrightarrow>
   \<exists>q' w'. limit_run cf ops q w = Some (fst (limit_spec ops lim ms), q', w')
     \<and> limit_rep cf 0 q' w' (snd (limit_spec ops lim ms))"
proof (induction ops arbitrary: q w lim ms)
  case (Cons p ops)
  have next_call: ?case if s: "limit_step cf p q w = Some (r, q1, w1)" "limit_rep cf (length ops) q1 w1 (lim1, ms1)"
      "limit_spec (p # ops) lim ms = (r # fst (limit_spec ops lim1 ms1), snd (limit_spec ops lim1 ms1))" for r q1 w1 lim1 ms1
    using Cons.IH [OF s(2)] Cons.prems(2) s(1) by (auto simp: s(3))
  have rep: "limit_rep cf (Suc (length ops)) q w (lim, ms)" using Cons.prems(1) by simp
  show ?case
  proof (cases p)
    case (Put_Msg m)
    obtain q1 w1 where "limit_step cf p q w = Some (lim = 0 \<or> length ms < lim, q1, w1)"
        "limit_rep cf (length ops) q1 w1 (lim, if lim = 0 \<or> length ms < lim then ms @ [m] else ms)"
      using limit_put [OF rep, of m] Cons.prems(2) Put_Msg by auto
    then show ?thesis by (rule next_call) (simp add: Put_Msg split_beta Let_def)
  next
    case Get_Msg
    obtain q1 w1 where "limit_step cf p q w = Some (ms \<noteq> [], q1, w1)" "limit_rep cf (length ops) q1 w1 (lim, drop 1 ms)"
      using limit_get [OF rep] Get_Msg by blast
    then show ?thesis by (rule next_call) (simp add: Get_Msg split_beta)
  next
    case (Set_Limit k)
    obtain q1 w1 where "limit_step cf p q w = Some (True, q1, w1)" "limit_rep cf (length ops) q1 w1 (unat k, ms)"
      using limit_set [OF rep, of k] Set_Limit by blast
    then show ?thesis by (rule next_call) (simp add: Set_Limit split_beta)
  qed
qed simp

text \<open>
  C8. The limit of a queue over every sequence of puts, gets and calls of \<^verbatim>\<open>mq_qm_set_maxqueue\<close>: a put is accepted exactly when
  the queue holds fewer messages than the limit in force, and otherwise the queue is full and keeps its messages; a lower
  limit takes effect on the next put and drops nothing. So the queue never holds more messages than the largest of the
  limits that were in force and the number it started with (all of them at most \<open>L\<close>).
\<close>

theorem limit_bounds_queue:
  assumes "queue_rep cf q w ms" and "maxque q \<noteq> 0" and "unat (maxque q) \<le> L" and "length ms \<le> L"
    and "list_all (limit_ok cf L) ops" and "\<not> storage_short cf w"
    and "wi_of q + length ops < 2 ^ 64" and "length ms + length ops < 2 ^ 63"
  shows "case limit_spec ops (unat (maxque q)) ms of (rs, lim, ms') \<Rightarrow>
     length ms' \<le> L \<and> (\<exists>q' w'. limit_run cf ops q w = Some (rs, q', w') \<and> queue_rep cf q' w' ms' \<and> unat (maxque q') = lim)"
proof -
  have "limit_rep cf (length ops) q w (unat (maxque q), ms)" using assms by (simp add: limit_rep_def)
  then obtain q' w' where "limit_run cf ops q w = Some (fst (limit_spec ops (unat (maxque q)) ms), q', w')"
      "limit_rep cf 0 q' w' (snd (limit_spec ops (unat (maxque q)) ms))"
    using limit_run_spec [OF _ assms(5)] by blast
  moreover have "length (snd (snd (limit_spec ops (unat (maxque q)) ms))) \<le> L"
    using limit_spec_bound [OF assms(5), of "unat (maxque q)" ms] assms(2-4) by (simp add: unat_eq_0)
  ultimately show ?thesis by (auto simp: limit_rep_def split_beta)
qed

theorem limit_bounds_queue_witness:
  "\<exists>q' w'. limit_run data_conf [Set_Limit 2, Put_Msg (7, [1, 2, 3]), Put_Msg (8, [1, 2, 3]), Set_Limit 1, Put_Msg (9, [1, 2, 3]), Get_Msg,
       Put_Msg (4, [1, 2, 3]), Get_Msg, Put_Msg (5, [1, 2, 3])] new_queue new_world
       = Some ([True, True, True, True, False, True, False, True, True], q', w')
     \<and> queue_rep data_conf q' w' [(5, [1, 2, 3])] \<and> maxque q' = 1"
  using limit_bounds_queue [OF new_queue_rep _ _ _ _ new_world_storage, of 100000000 "[Set_Limit 2, Put_Msg (7, [1, 2, 3]), Put_Msg (8, [1, 2, 3]),
      Set_Limit 1, Put_Msg (9, [1, 2, 3]), Get_Msg, Put_Msg (4, [1, 2, 3]), Get_Msg, Put_Msg (5, [1, 2, 3])]"] first_item_put(2)
  by (simp add: new_queue_simps word_unat_eq_iff)

end
