(* ===== verification/Queue_Properties.thy ===== *)
theory Queue_Properties
  imports Samples Api_Fifo
begin

text \<open>
  What one queue does, stated over the representation of its messages by files: putting, taking,
  creation, and that a queue never touches the files of another.
\<close>

text \<open>
  C6. Putting into a queue that has room succeeds, and afterwards the files of the queue represent
  the old messages followed by the new one. This covers the change to a new data file when the
  current one has no room left.
\<close>

theorem push_appends:
  assumes "queue_rep cf q w ms" and "put_item item d b" and "body_ok cf b"
    and "maxque q = 0 \<or> length ms < unat (maxque q)" and "Suc (length ms) < 2 ^ 63"
    and "Suc (wi_of q) < 2 ^ 64" and "\<not> storage_short cf w"
  shows "\<exists>q' w'. mq_qm_push_item cf q item w = Some (QUEUE_PUT_OK, q', w') \<and> queue_rep cf q' w' (ms @ [(d, b)])"
  by (rule push_room [OF assms]) blast

theorem push_appends_witness:
  "\<exists>q' w'. mq_qm_push_item data_conf new_queue first_item new_world = Some (QUEUE_PUT_OK, q', w')
     \<and> queue_rep data_conf q' w' [(7, [1, 2, 3])]"
  using push_appends [OF new_queue_rep first_item_put _ _ _ new_world_storage] by (simp add: new_queue_simps)

text \<open>
  C7. Taking from a queue that holds a message delivers the oldest one, unchanged, and removes it;
  the loop of the reader ends, and data files that are used up are left behind on the way.
\<close>

theorem pop_takes_oldest:
  assumes "queue_rep cf q w ((d, b) # ms)"
  shows "\<exists>it q' w'. mq_qm_pop_item cf q item w = Some (QUEUE_GET_OK, it, q', w')
     \<and> delay it = d \<and> len it = of_nat (length b) \<and> load_msg w' (msg it) (unat (len it)) = Some b \<and> queue_rep cf q' w' ms"
  by (rule pop_message [OF assms, of item]) blast

theorem pop_takes_oldest_witness:
  "\<exists>q w it q' w'. queue_rep data_conf q w [(7, [1, 2, 3])]
     \<and> mq_qm_pop_item data_conf q first_item w = Some (QUEUE_GET_OK, it, q', w')
     \<and> load_msg w' (msg it) 3 = Some [1, 2, 3] \<and> queue_rep data_conf q' w' []"
proof -
  obtain q w where r: "queue_rep data_conf q w [(7, [1, 2, 3])]" by (rule one_message)
  from pop_takes_oldest [OF this, of first_item] r show ?thesis by force
qed

text \<open>
  C24. Taking from an empty queue reports that there is nothing and changes neither the queue nor
  any file.
\<close>

theorem pop_nothing:
  assumes "queue_rep cf q w []"
  shows "\<exists>it. mq_qm_pop_item cf q item w = Some (QUEUE_GET_END, it, q, w)"
  using assms by (rule pop_empty)

theorem pop_nothing_witness:
  "\<exists>it. mq_qm_pop_item data_conf new_queue first_item new_world = Some (QUEUE_GET_END, it, new_queue, new_world)"
  using pop_nothing [OF new_queue_rep] .

text \<open>
  C23. Creating a queue where its directory does not exist yet makes the directory, both tag files and the
  first data file, and the new queue is the empty queue.
\<close>

theorem add_queue_creates_empty:
  assumes "conf_ok cf" and "path_ok cf nm" and "wf_world w" and "w_faults w = []" and "fresh_dir cf nm w"
    and "CHR ''/'' \<notin> set nm" and "length nm \<le> MAX_QUEUE_NAME_LEN" and "has_dir w (data_file_path cf)"
    and "\<not> storage_short cf w" and "int (length l) < max_qlist_itmes cf"
  shows "\<exists>q w'. mq_qm_add_queue cf nm l w = Some (Some (length l), l @ [(nm, q)], w')
     \<and> q_name q = nm \<and> maxque q = def_max_queue cf \<and> queue_rep cf q w' []"
  using add_queue_new [OF assms] by (simp add: made_queue_def Let_def)

theorem add_queue_creates_empty_witness:
  "\<exists>q w'. mq_qm_add_queue data_conf ''q'' [] data_world = Some (Some 0, [(''q'', q)], w') \<and> queue_rep data_conf q w' []"
  using add_queue_creates_empty [OF data_conf_ok data_world_ok(1,2,4) _ _ data_world_ok(3,5), where l = "[]"]
  by (auto simp: store_consts data_conf_def g_mq_conf_def)

end
