(* ===== verification/Store_Open.thy ===== *)
theory Store_Open
  imports Api_Refine "HOL-Library.Sublist"
begin

text \<open>
  Starting the library: \<^verbatim>\<open>do_mkdir\<close> makes every missing directory of a path, and \<^verbatim>\<open>mq_store_init\<close> on
  a data path that holds nothing opens an empty store, from which the runs of the interface start.
\<close>

section \<open>Making directories\<close>

text \<open>\<open>w'\<close> is \<open>w\<close> with the missing directories among \<open>D\<close> added.\<close>

definition adds_dirs :: "path set \<Rightarrow> world \<Rightarrow> world \<Rightarrow> bool" where
  "adds_dirs D w w' \<longleftrightarrow>
     w_files w' = w_files w \<and> w_next_ino w' = w_next_ino w \<and> w_fds w' = w_fds w \<and> w_next_fd w' = w_next_fd w
     \<and> w_maps w' = w_maps w \<and> w_next_map w' = w_next_map w \<and> w_faults w' = w_faults w
     \<and> w_bavail w' = w_bavail w \<and> w_bsize w' = w_bsize w
     \<and> (\<forall>x. lookup_path w' x = (if x \<in> D \<and> lookup_path w x = None then Some DirN else lookup_path w x))"

lemma adds_dirsD:
  assumes "adds_dirs D w w'"
  shows "w_files w' = w_files w" "w_next_ino w' = w_next_ino w" "w_fds w' = w_fds w" "w_next_fd w' = w_next_fd w"
    "w_maps w' = w_maps w" "w_next_map w' = w_next_map w" "w_faults w' = w_faults w"
    "w_bavail w' = w_bavail w" "w_bsize w' = w_bsize w"
    "lookup_path w' x = (if x \<in> D \<and> lookup_path w x = None then Some DirN else lookup_path w x)"
  using assms by (simp_all add: adds_dirs_def)

lemma adds_dirs_refl: "adds_dirs {} w w"
  by (simp add: adds_dirs_def)

lemma adds_dirs_trans: "adds_dirs D w w' \<Longrightarrow> adds_dirs E w' w'' \<Longrightarrow> adds_dirs (D \<union> E) w w''"
  by (auto simp: adds_dirs_def)

lemma adds_dirs_wf: "adds_dirs D w w' \<Longrightarrow> wf_world w \<Longrightarrow> wf_world w'"
  unfolding adds_dirs_def wf_world_def by (auto split: if_splits)

lemma mkdir_ok_adds:
  assumes "w_faults w = []" and "lookup_path w p \<noteq> None \<or> parent_ok w p"
  obtains w' where "mkdir_ok p w = (0, w')" "adds_dirs {p} w w'"
proof (cases "lookup_path w p = None")
  case True
  then have "mkdir_ok p w = (0, w\<lparr>w_fs := w_fs w @ [(p, DirN)]\<rparr>)"
    using assms by (simp add: mkdir_ok_def sys_mkdir_def)
  moreover have "adds_dirs {p} w (w\<lparr>w_fs := w_fs w @ [(p, DirN)]\<rparr>)"
    using True by (auto simp: adds_dirs_def lookup_path_def map_add_def split: option.splits)
  ultimately show ?thesis by (rule that)
next
  case False
  then have "mkdir_ok p w = (0, w\<lparr>w_errno := EEXIST\<rparr>)"
    using assms by (simp add: mkdir_ok_def sys_mkdir_def)
  moreover have "adds_dirs {p} w (w\<lparr>w_errno := EEXIST\<rparr>)"
    using False by (auto simp: adds_dirs_def lookup_path_def)
  ultimately show ?thesis by (rule that)
qed

text \<open>The directories of a path: the prefixes that end before a separator, from position \<open>k\<close> on.\<close>

definition path_dirs :: "nat \<Rightarrow> path \<Rightarrow> path set" where
  "path_dirs k dir = {take j dir | j. k \<le> j \<and> 0 < j \<and> j < length dir \<and> dir ! j = CHR ''/''}"

lemma last_slash_at: "last_slash p = Some i \<Longrightarrow> i < length p \<and> p ! i = CHR ''/''"
  by (induction p arbitrary: i) (fastforce split: option.splits if_splits)+

lemma prefix_parent_ok:
  assumes "k \<le> length dir" and "\<And>j. 0 < j \<Longrightarrow> j < k \<Longrightarrow> dir ! j = CHR ''/'' \<Longrightarrow> has_dir w (take j dir)"
  shows "parent_ok w (take k dir)"
proof (cases "last_slash (take k dir)")
  case None
  then show ?thesis by (simp add: parent_ok_def parent_def)
next
  case (Some i)
  then have i: "i < k" "dir ! i = CHR ''/''" using last_slash_at [OF Some] by (simp, metis length_take min_less_iff_conj nth_take)
  have p: "parent (take k dir) = Some (take i dir)" using Some i by (simp add: parent_def min_absorb1)
  show ?thesis using assms(2) [of i] i p by (cases "i = 0") (auto simp: parent_ok_def)
qed

lemma do_mkdir_loop_adds:
  assumes "w_faults w = []" and "\<And>j. lookup_path w (take j dir) \<in> {None, Some DirN}"
    and "\<And>j. 0 < j \<Longrightarrow> j < k \<Longrightarrow> dir ! j = CHR ''/'' \<Longrightarrow> has_dir w (take j dir)"
    and "k \<le> length dir" "cs = drop k dir"
  shows "\<exists>w'. do_mkdir_loop dir k cs w = (0, w') \<and> adds_dirs (path_dirs k dir) w w'"
  using assms
proof (induction dir k cs w rule: do_mkdir_loop.induct)
  case (1 dir k w)
  then have "path_dirs k dir = {}" by (auto simp: path_dirs_def)
  then show ?case using adds_dirs_refl by simp
next
  case (2 dir k c cs w)
  have k: "k < length dir" "c = dir ! k" "cs = drop (Suc k) dir"
    using "2.prems"(4,5) by (metis drop_eq_Nil le_neq_implies_less list.discI not_le, metis hd_drop_conv_nth list.sel(1)
        drop_eq_Nil list.discI not_le, metis drop_Suc list.sel(3) tl_drop)
  show ?case
  proof (cases "c = CHR ''/'' \<and> 0 < k")
    case True
    obtain w' where w': "mkdir_ok (take k dir) w = (0, w')" "adds_dirs {take k dir} w w'"
      using mkdir_ok_adds [OF "2.prems"(1)] prefix_parent_ok [OF "2.prems"(4,3)] by blast
    note D = adds_dirsD [OF w'(2)]
    have "\<exists>w''. do_mkdir_loop dir (Suc k) cs w' = (0, w'') \<and> adds_dirs (path_dirs (Suc k) dir) w' w''"
    proof (rule "2.IH"(1) [OF True w'(1) [symmetric]])
      show "lookup_path w' (take j dir) \<in> {None, Some DirN}" for j using "2.prems"(2) [of j] D(10) by auto
      show "has_dir w' (take j dir)" if "0 < j" "j < Suc k" "dir ! j = CHR ''/''" for j
        using "2.prems"(2) [of j] "2.prems"(3) [of j] that D(10) by (cases "j = k") (auto simp: has_dir_def)
    qed (use "2.prems"(1) D k in auto)
    moreover have "path_dirs k dir = {take k dir} \<union> path_dirs (Suc k) dir"
      using True k by (auto simp: path_dirs_def le_eq_less_or_eq)
    ultimately show ?thesis using True w' adds_dirs_trans [OF w'(2)] by auto
  next
    case False
    have "\<exists>w''. do_mkdir_loop dir (Suc k) cs w = (0, w'') \<and> adds_dirs (path_dirs (Suc k) dir) w w''"
      using "2.prems" k False by (intro "2.IH"(2)) (auto simp: less_Suc_eq)
    moreover have "path_dirs k dir = path_dirs (Suc k) dir"
      using False k by (auto simp: path_dirs_def le_eq_less_or_eq)
    ultimately show ?thesis using False by auto
  qed
qed

lemma do_mkdir_adds:
  assumes w: "w_faults w = []" and d: "\<And>j. lookup_path w (take j dir) \<in> {None, Some DirN}" and ne: "dir \<noteq> []"
  obtains w' where "do_mkdir dir w = (0, w')" "adds_dirs (insert dir (path_dirs 0 dir)) w w'"
proof -
  obtain w1 where w1: "do_mkdir_loop dir 0 dir w = (0, w1)" "adds_dirs (path_dirs 0 dir) w w1"
    using do_mkdir_loop_adds [OF w d, of 0 dir] by auto
  note D = adds_dirsD [OF w1(2)]
  have "has_dir w1 (take j dir)" if "0 < j" "j < length dir" "dir ! j = CHR ''/''" for j
    using that d [of j] D(10) by (auto simp: has_dir_def path_dirs_def)
  then have "parent_ok w1 dir" using prefix_parent_ok [of "length dir" dir w1] by simp
  then obtain w2 where w2: "mkdir_ok dir w1 = (0, w2)" "adds_dirs {dir} w1 w2"
    using mkdir_ok_adds D(7) w by metis
  have "insert dir (path_dirs 0 dir) = path_dirs 0 dir \<union> {dir}" by blast
  then show ?thesis using that w1(1) w2(1) adds_dirs_trans [OF w1(2) w2(2)] by (simp add: do_mkdir_def)
qed

text \<open>
  C25. Making a path: when no regular file stands in the way and no call fails, \<^verbatim>\<open>do_mkdir\<close> succeeds, the directory
  and every directory on the way to it exist afterwards, and nothing else has changed.
\<close>

theorem do_mkdir_makes_path:
  assumes "w_faults w = []" and "dir \<noteq> []" and "\<forall>j. lookup_path w (take j dir) \<in> {None, Some DirN}"
  shows "\<exists>w'. do_mkdir dir w = (0, w') \<and> has_dir w' dir
     \<and> (\<forall>j. 0 < j \<and> j < length dir \<and> dir ! j = CHR ''/'' \<longrightarrow> has_dir w' (take j dir))
     \<and> (\<forall>p. p \<noteq> dir \<and> (\<forall>j. 0 < j \<and> j < length dir \<and> dir ! j = CHR ''/'' \<longrightarrow> p \<noteq> take j dir)
          \<longrightarrow> lookup_path w' p = lookup_path w p)
     \<and> w_files w' = w_files w \<and> w_fds w' = w_fds w"
proof -
  obtain w' where w': "do_mkdir dir w = (0, w')" "adds_dirs (insert dir (path_dirs 0 dir)) w w'"
    using do_mkdir_adds [OF assms(1) _ assms(2)] assms(3) by metis
  note A = adds_dirsD [OF w'(2)]
  have "has_dir w' (take j dir)" if "take j dir \<in> insert dir (path_dirs 0 dir)" for j
    using that A(10) spec [OF assms(3), of j] by (auto simp: has_dir_def)
  from this [of "length dir"] this have d: "has_dir w' dir"
      "\<And>j. 0 < j \<Longrightarrow> j < length dir \<Longrightarrow> dir ! j = CHR ''/'' \<Longrightarrow> has_dir w' (take j dir)"
    by (simp, auto simp: path_dirs_def)
  have "lookup_path w' p = lookup_path w p" if "p \<noteq> dir" "\<forall>j. 0 < j \<and> j < length dir \<and> dir ! j = CHR ''/'' \<longrightarrow> p \<noteq> take j dir" for p
    using that A(10) [of p] by (auto simp: path_dirs_def)
  then show ?thesis using w'(1) d A(1,3) by auto
qed

theorem do_mkdir_makes_path_witness:
  "\<exists>w'. do_mkdir ''/var/log/mq'' sample_world = (0, w') \<and> has_dir w' ''/var/log/mq'' \<and> has_dir w' ''/var''"
proof -
  have "\<forall>j. 0 < j \<and> j < length ''/var/log/mq'' \<and> ''/var/log/mq'' ! j = CHR ''/'' \<longrightarrow> has_dir w' (take j ''/var/log/mq'')
      \<Longrightarrow> has_dir w' ''/var''" for w' by (drule spec [of _ 4]) simp
  then show ?thesis
    using do_mkdir_makes_path [of sample_world "''/var/log/mq''"] by (force simp: sample_world_def lookup_path_def)
qed

section \<open>Opening an empty store\<close>

lemma touch_data_path_adds:
  assumes "w_faults w = []" and "has_dir w p \<or> lookup_path w p = None \<and> parent_ok w p"
  obtains w' where "touch_data_path p w = (True, w')" "adds_dirs {p} w w'"
proof (cases "has_dir w p")
  case True
  then have "touch_data_path p w = (True, w)"
    using assms(1) by (simp add: touch_data_path_def sys_access_def is_dir_def has_dir_def sys_lstat_def)
  moreover have "adds_dirs {p} w w" using True by (auto simp: adds_dirs_def has_dir_def)
  ultimately show ?thesis by (rule that)
next
  case False
  let ?w = "w\<lparr>w_errno := ENOENT, w_fs := w_fs w @ [(p, DirN)]\<rparr>"
  have l: "lookup_path w p = None" "parent_ok w p" using assms(2) False by simp_all
  have "touch_data_path p w = (True, ?w)"
    using assms(1) l by (simp add: touch_data_path_def sys_access_def sys_mkdir_def is_dir_def sys_lstat_def
        errno_defs lookup_path_def parent_ok_def has_dir_def map_add_def cong: option.case_cong)
  moreover have "adds_dirs {p} w ?w"
    using l by (auto simp: adds_dirs_def lookup_path_def map_add_def split: option.splits)
  ultimately show ?thesis by (rule that)
qed

definition nothing_below :: "world \<Rightarrow> path \<Rightarrow> bool" where
  "nothing_below w d \<longleftrightarrow> (\<forall>x. lookup_path w (d @ CHR ''/'' # x) = None)"

lemma nothing_below_entries: "nothing_below w d \<Longrightarrow> dir_entries w d = []"
proof -
  assume n: "nothing_below w d"
  have "child_of d p = None" if "(p, k) \<in> set (w_fs w)" for p k
  proof (rule ccontr)
    assume "child_of d p \<noteq> None"
    then have "p = d @ CHR ''/'' # drop (Suc (length d)) p"
      by (auto simp: child_of_def Let_def split: if_splits) (metis append_Cons append_Nil append_assoc append_take_drop_id)
    moreover have "lookup_path w p \<noteq> None"
      using that by (metis lookup_path_def map_of_eq_None_iff fst_conv image_eqI)
    ultimately show False using n unfolding nothing_below_def by metis
  qed
  then show ?thesis by (auto simp: dir_entries_def map_filter_simps List.map_filter_def filter_empty_conv)
qed

lemma open_store_empty:
  assumes "w_faults w = []" and "has_dir w (data_file_path cf) \<or> lookup_path w (data_file_path cf) = None \<and> parent_ok w (data_file_path cf)"
    and "nothing_below w (data_file_path cf)"
  obtains w' where "mq_qm_open_store cf [] w = Some (True, [], w')" "adds_dirs {data_file_path cf} w w'"
proof -
  obtain w' where w': "touch_data_path (data_file_path cf) w = (True, w')" "adds_dirs {data_file_path cf} w w'"
    using touch_data_path_adds [OF assms(1,2)] .
  note D = adds_dirsD [OF w'(2)]
  have "has_dir w' (data_file_path cf)" using assms(2) D(10) by (auto simp: has_dir_def)
  moreover have "nothing_below w' (data_file_path cf)" using assms(3) D(10) by (simp add: nothing_below_def)
  ultimately have "mq_qm_open_store cf [] w = Some (True, [], w')"
    using w'(1) D(7) assms(1) by (simp add: mq_qm_open_store_def sys_opendir_def nothing_below_entries)
  then show ?thesis using w'(2) by (rule that)
qed

text \<open>A world in which the library can start with nothing stored.\<close>

definition can_start :: "string \<Rightarrow> string \<Rightarrow> world \<Rightarrow> bool" where
  "can_start lpath dpath w \<longleftrightarrow>
     wf_world w \<and> w_faults w = [] \<and> lpath \<noteq> [] \<and> (\<forall>j. lookup_path w (take j lpath) \<in> {None, Some DirN})
     \<and> (has_dir w dpath \<or> lookup_path w dpath = None \<and> parent_ok w dpath)
     \<and> nothing_below w dpath \<and> \<not> prefix (dpath @ ''/'') lpath"

lemma api_rep_empty:
  assumes "conf_ok (st_conf s)" "length (data_file_path (st_conf s)) + 1 + MAX_QUEUE_NAME_LEN \<le> 127"
    "wf_world (st_world s)" "w_faults (st_world s) = []" "has_dir (st_world s) (data_file_path (st_conf s))"
    "nothing_below (st_world s) (data_file_path (st_conf s))" "st_qlist s = []"
  shows "api_rep s Map.empty"
  using assms by (auto simp: api_rep_def queues_rep_def fresh_dir_def own_path_def queue_dir_def nothing_below_def)

lemma log_init_adds:
  assumes "can_start lpath dpath w" and "g_has_init lg \<noteq> LOG_INIT_ING" and "log_path c = lpath"
  obtains lg' w' D where "log_init pid c lg w = Some (0, lg', w')" "adds_dirs D w w'" "\<forall>p \<in> D. prefix p lpath"
proof (cases "g_has_init lg")
  case LOG_NEED_INIT
  have "w_faults w = []" "\<And>j. lookup_path w (take j lpath) \<in> {None, Some DirN}" "lpath \<noteq> []"
    using assms(1) unfolding can_start_def by blast+
  then obtain w' where "do_mkdir lpath w = (0, w')" "adds_dirs (insert lpath (path_dirs 0 lpath)) w w'"
    by (rule do_mkdir_adds)
  moreover have "\<forall>p \<in> insert lpath (path_dirs 0 lpath). prefix p lpath"
    by (auto simp: path_dirs_def take_is_prefix)
  ultimately show ?thesis using that LOG_NEED_INIT assms(3) by (simp add: log_init_def)
next
  case LOG_HAS_INIT
  then show ?thesis using that adds_dirs_refl by (auto simp: log_init_def)
qed (use assms(2) in simp)

lemma parent_ok_adds: "adds_dirs D w w' \<Longrightarrow> parent_ok w p \<Longrightarrow> parent_ok w' p"
  using adds_dirsD(10) by (fastforce simp: parent_ok_def has_dir_def split: option.splits)

lemma can_start_adds:
  assumes st: "can_start lpath dpath w" and ad: "adds_dirs D w w'" and D: "\<forall>p \<in> D. prefix p lpath"
  shows "wf_world w'" "w_faults w' = []" "has_dir w' dpath \<or> lookup_path w' dpath = None \<and> parent_ok w' dpath"
    "nothing_below w' dpath"
proof -
  note A = adds_dirsD [OF ad]
  show "wf_world w'" "w_faults w' = []" using st A(7) adds_dirs_wf [OF ad] by (simp_all add: can_start_def)
  show "has_dir w' dpath \<or> lookup_path w' dpath = None \<and> parent_ok w' dpath"
    using st A(10) parent_ok_adds [OF ad] by (auto simp: can_start_def has_dir_def)
  have "dpath @ CHR ''/'' # x \<notin> D" for x
  proof
    assume "dpath @ CHR ''/'' # x \<in> D"
    then have "prefix (dpath @ CHR ''/'' # x) lpath" using D by blast
    moreover have "prefix (dpath @ ''/'') (dpath @ CHR ''/'' # x)" by simp
    ultimately show False using st by (meson can_start_def prefix_order.trans)
  qed
  then show "nothing_below w' dpath" using st A(10) by (simp add: can_start_def nothing_below_def)
qed

lemma init_empty_store:
  assumes st: "can_start lpath dpath (st_world s)" and lg: "g_has_init (st_log s) \<noteq> LOG_INIT_ING"
    and l: "st_qlist s = []" and cf: "conf_ok (st_conf s)" and len: "length lpath < 128" "length dpath + 1 + MAX_QUEUE_NAME_LEN \<le> 127"
  obtains s' where "mq_store_init pid tz lpath dpath s = Some (True, s')" "api_rep s' Map.empty"
    "st_conf s' = (st_conf s)\<lparr>data_file_path := dpath, output_log_path := lpath\<rparr>" "st_qlist s' = []"
    "w_bavail (st_world s') = w_bavail (st_world s)" "w_bsize (st_world s') = w_bsize (st_world s)"
proof -
  let ?cf = "(st_conf s)\<lparr>data_file_path := dpath, output_log_path := lpath\<rparr>"
    and ?c = "(log_init_config tz)\<lparr>log_path := lpath, log_level := LOG_INFO\<rparr>"
  obtain lg' w1 D where w1: "log_init pid ?c (st_log s) (st_world s) = Some (0, lg', w1)"
      "adds_dirs D (st_world s) w1" "\<forall>p \<in> D. prefix p lpath"
    using log_init_adds [OF st lg, of ?c pid] by auto
  note S = can_start_adds [OF st w1(2,3)]
  obtain w2 where w2: "mq_qm_open_store ?cf [] w1 = Some (True, [], w2)" "adds_dirs {dpath} w1 w2"
    using open_store_empty [OF S(2), of ?cf] S(3,4) by auto
  note A = adds_dirsD [OF w1(2)] and B = adds_dirsD [OF w2(2)]
  let ?s = "s\<lparr>st_info := zero_info\<lparr>i_count := mq_qm_get_store_count []\<rparr>, st_conf := ?cf, st_log := lg', st_qlist := [], st_world := w2\<rparr>"
  have "mq_store_init pid tz lpath dpath s = Some (True, ?s)"
    using w1(1) w2(1) l len by (simp add: mq_store_init_def Let_def store_consts)
  moreover have "api_rep ?s Map.empty"
  proof (rule api_rep_empty)
    show "has_dir (st_world ?s) (data_file_path (st_conf ?s))" using S(3) B(10) by (auto simp: has_dir_def)
    show "nothing_below (st_world ?s) (data_file_path (st_conf ?s))" using S(4) B(10) by (simp add: nothing_below_def)
  qed (use cf len adds_dirs_wf [OF w2(2) S(1)] B(7) S(2) in \<open>simp_all add: conf_ok_def\<close>)
  ultimately show ?thesis using that A(8,9) B(8,9) by simp
qed

text \<open>What such a start gives the runs of the interface: enough room for any number of calls below
  \<open>2 ^ 62\<close>, and the default limit for every queue.\<close>

lemma init_rep_for:
  assumes st: "can_start lpath dpath (st_world s)" and lg: "g_has_init (st_log s) \<noteq> LOG_INIT_ING"
    and l: "st_qlist s = []" and cf: "conf_ok (st_conf s)" and len: "length lpath < 128" "length dpath + 1 + MAX_QUEUE_NAME_LEN \<le> 127"
    and sp: "\<not> storage_short (st_conf s) (st_world s)" and n: "n < 2 ^ 62"
  shows "\<exists>s'. mq_store_init pid tz lpath dpath s = Some (True, s')
     \<and> rep_for ((st_conf s)\<lparr>data_file_path := dpath, output_log_path := lpath\<rparr>) (\<lambda>_. unat (def_max_queue (st_conf s))) n s' Map.empty"
proof -
  obtain s' where s': "mq_store_init pid tz lpath dpath s = Some (True, s')" "api_rep s' Map.empty"
    "st_conf s' = (st_conf s)\<lparr>data_file_path := dpath, output_log_path := lpath\<rparr>" "st_qlist s' = []"
    "w_bavail (st_world s') = w_bavail (st_world s)" "w_bsize (st_world s') = w_bsize (st_world s)"
    by (rule init_empty_store [OF st lg l cf len])
  have "bodies Map.empty = Map.empty" by (simp add: bodies_def fun_eq_iff)
  moreover have "\<not> storage_short (st_conf s') (st_world s')"
    using sp s'(3,5,6) by (simp add: storage_short_def get_storage_free_def)
  ultimately have "rep_for (st_conf s') (\<lambda>_. unat (def_max_queue (st_conf s))) n s' Map.empty"
    using s'(2,3,4) n by (auto simp: rep_for_def limit_of_def queue_of_def intro!: exI [of _ Map.empty])
  then show ?thesis using s'(1,3) by auto
qed

end
