(* ===== verification/Uthash.thy ===== *)
theory Uthash
  imports Prelude
begin

text \<open>
  The macros of \<^verbatim>\<open>src/src/uthash.h\<close> that the table of queues uses: the hash function of Bob
  Jenkins, the buckets with their expansion, and the two doubly linked lists through every node
  (all nodes in the order in which they were added, and the nodes of one bucket). Pointers are
  addresses into an explicit memory of hash handles; following a dangling pointer is \<open>None\<close>, and so
  is a loop that never ends. The caller's allocation of a node and the allocations of the table itself
  succeed (\<^verbatim>\<open>uthash_fatal\<close> ends the process otherwise).
\<close>

section \<open>The hash function\<close>

definition HASH_JEN_MIX :: "u32 \<Rightarrow> u32 \<Rightarrow> u32 \<Rightarrow> u32 \<times> u32 \<times> u32" where
  "HASH_JEN_MIX a b c =
     (let a = a - b; a = a - c; a = a XOR drop_bit 13 c;
          b = b - c; b = b - a; b = b XOR push_bit 8 a;
          c = c - a; c = c - b; c = c XOR drop_bit 13 b;
          a = a - b; a = a - c; a = a XOR drop_bit 12 c;
          b = b - c; b = b - a; b = b XOR push_bit 16 a;
          c = c - a; c = c - b; c = c XOR drop_bit 5 b;
          a = a - b; a = a - c; a = a XOR drop_bit 3 c;
          b = b - c; b = b - a; b = b XOR push_bit 10 a;
          c = c - a; c = c - b; c = c XOR drop_bit 15 b
      in (a, b, c))"

text \<open>A character of the key is a signed \<^verbatim>\<open>char\<close>, extended to 32 bits before it is shifted.\<close>

definition key_word :: "string \<Rightarrow> nat \<Rightarrow> nat \<Rightarrow> u32" where
  "key_word key n sh = push_bit sh (scast (of_char (key ! n) :: byte))"

function jen_blocks :: "u32 \<Rightarrow> u32 \<Rightarrow> u32 \<Rightarrow> string \<Rightarrow> u32 \<times> u32 \<times> u32 \<times> string" where
  "jen_blocks i j h key =
     (if 12 \<le> length key
      then
        let i = i + (key_word key 0 0 + key_word key 1 8 + key_word key 2 16 + key_word key 3 24);
            j = j + (key_word key 4 0 + key_word key 5 8 + key_word key 6 16 + key_word key 7 24);
            h = h + (key_word key 8 0 + key_word key 9 8 + key_word key 10 16 + key_word key 11 24);
            (i, j, h) = HASH_JEN_MIX i j h
        in jen_blocks i j h (drop 12 key)
      else (i, j, h, key))"
  by pat_completeness auto
termination
  by (relation "measure (\<lambda>(i, j, h, key). length key)") auto

declare jen_blocks.simps [simp del]

text \<open>The cases of the \<^verbatim>\<open>switch\<close> fall through: \<open>part n sh\<close> is what the case \<open>n + 1\<close> adds.\<close>

definition HASH_JEN :: "string \<Rightarrow> u32" where
  "HASH_JEN key =
     (let (i, j, h, rest) = jen_blocks 0x9e3779b9 0x9e3779b9 0xfeedbeef key;
          part = (\<lambda>n sh. if n < length rest then key_word rest n sh else 0);
          h = h + of_nat (length key);
          h = h + part 10 24 + part 9 16 + part 8 8;
          j = j + part 7 24 + part 6 16 + part 5 8 + part 4 0;
          i = i + part 3 24 + part 2 16 + part 1 8 + part 0 0;
          (i, j, h) = HASH_JEN_MIX i j h
      in h)"

definition HASH_TO_BKT :: "u32 \<Rightarrow> u32 \<Rightarrow> nat" where
  "HASH_TO_BKT hv num_bkts = unat (hv AND (num_bkts - 1))"

section \<open>Nodes, buckets and the table\<close>

record ut_hash_handle =
  el_prev :: "nat option"
  el_next :: "nat option"
  hh_prev :: "nat option"
  hh_next :: "nat option"
  hh_key :: string
  hh_keylen :: u32
  hh_hashv :: u32

record ut_hash_bucket =
  hh_head :: "nat option"
  b_count :: u32
  expand_mult :: u32

record ut_hash_table =
  buckets :: "ut_hash_bucket list"
  num_buckets :: u32
  log2_num_buckets :: u32
  num_items :: u32
  ut_tail :: nat
  ideal_chain_maxlen :: u32
  nonideal_items :: u32
  ineff_expands :: u32
  noexpand :: u32

text \<open>The head pointer of the program, the table it leads to, and the memory of handles.\<close>

type_synonym ut_mem = "nat \<rightharpoonup> ut_hash_handle"

record ut_state =
  ut_head :: "nat option"
  ut_tbl :: ut_hash_table
  ut_nodes :: ut_mem

definition HASH_INITIAL_NUM_BUCKETS :: nat where "HASH_INITIAL_NUM_BUCKETS = 32"
definition HASH_INITIAL_NUM_BUCKETS_LOG2 :: u32 where "HASH_INITIAL_NUM_BUCKETS_LOG2 = 5"
definition HASH_BKT_CAPACITY_THRESH :: u32 where "HASH_BKT_CAPACITY_THRESH = 10"

definition zero_bucket :: ut_hash_bucket where
  "zero_bucket = \<lparr>hh_head = None, b_count = 0, expand_mult = 0\<rparr>"

text \<open>A write through a pointer; through a null pointer where the code tests it first.\<close>

definition at_node :: "nat \<Rightarrow> (ut_hash_handle \<Rightarrow> ut_hash_handle) \<Rightarrow> ut_mem \<Rightarrow> ut_mem option" where
  "at_node a f m = map_option (\<lambda>h. m(a \<mapsto> f h)) (m a)"

definition at_ptr :: "nat option \<Rightarrow> (ut_hash_handle \<Rightarrow> ut_hash_handle) \<Rightarrow> ut_mem \<Rightarrow> ut_mem option" where
  "at_ptr p f m = (case p of None \<Rightarrow> Some m | Some a \<Rightarrow> at_node a f m)"

section \<open>Finding\<close>

partial_function (option) HASH_FIND_IN_BKT :: "ut_mem \<Rightarrow> string \<Rightarrow> nat option \<Rightarrow> nat option option" where
  "HASH_FIND_IN_BKT m key out =
     (case out of
        None \<Rightarrow> Some None
      | Some a \<Rightarrow> do {
          h \<leftarrow> m a;
          if hh_keylen h = of_nat (length key) \<and> take (length key) (hh_key h) = key then Some (Some a)
          else HASH_FIND_IN_BKT m key (hh_next h)
        })"

definition HASH_FIND :: "ut_state \<Rightarrow> string \<Rightarrow> nat option option" where
  "HASH_FIND s key =
     (if ut_head s = None then Some None
      else
        let t = ut_tbl s; bkt = HASH_TO_BKT (HASH_JEN key) (num_buckets t)
        in if bkt < length (buckets t) then HASH_FIND_IN_BKT (ut_nodes s) key (hh_head (buckets t ! bkt)) else None)"

section \<open>Adding\<close>

text \<open>One chain of the old buckets is moved, node by node, to the front of the new buckets.\<close>

partial_function (option) expand_chain ::
    "u32 \<Rightarrow> u32 \<Rightarrow> nat option \<Rightarrow> ut_mem \<times> ut_hash_bucket list \<times> u32 \<Rightarrow> (ut_mem \<times> ut_hash_bucket list \<times> u32) option" where
  "expand_chain ideal n thh st =
     (case thh of
        None \<Rightarrow> Some st
      | Some a \<Rightarrow>
          (case st of (m, new, nonideal) \<Rightarrow> do {
             h \<leftarrow> m a;
             let b = HASH_TO_BKT (hh_hashv h) n;
             let bk = new ! b;
             let c = b_count bk + 1;
             let over = c > ideal;
             let m = m(a \<mapsto> h\<lparr>hh_prev := None, hh_next := hh_head bk\<rparr>);
             m \<leftarrow> at_ptr (hh_head bk) (hh_prev_update (\<lambda>_. Some a)) m;
             if \<not> b < length new \<or> over \<and> ideal = 0 then None
             else expand_chain ideal n (hh_next h)
                    (m, new[b := \<lparr>hh_head = Some a, b_count = c, expand_mult = (if over then c div ideal else expand_mult bk)\<rparr>],
                     if over then nonideal + 1 else nonideal)
           }))"

fun expand_buckets ::
    "u32 \<Rightarrow> u32 \<Rightarrow> ut_hash_bucket list \<Rightarrow> ut_mem \<times> ut_hash_bucket list \<times> u32 \<Rightarrow> (ut_mem \<times> ut_hash_bucket list \<times> u32) option" where
  "expand_buckets ideal n [] st = Some st"
| "expand_buckets ideal n (b # bs) st =
     (case expand_chain ideal n (hh_head b) st of None \<Rightarrow> None | Some st \<Rightarrow> expand_buckets ideal n bs st)"

definition HASH_EXPAND_BUCKETS :: "ut_hash_table \<Rightarrow> ut_mem \<Rightarrow> (ut_hash_table \<times> ut_mem) option" where
  "HASH_EXPAND_BUCKETS t m = do {
     let n = 2 * num_buckets t;
     let ideal = drop_bit (unat (log2_num_buckets t + 1)) (num_items t) + (if num_items t AND (n - 1) \<noteq> 0 then 1 else 0);
     (m, new, nonideal) \<leftarrow> expand_buckets ideal n (buckets t) (m, replicate (unat n) zero_bucket, 0);
     let ineff = (if nonideal > drop_bit 1 (num_items t) then ineff_expands t + 1 else 0);
     Some (t\<lparr>ideal_chain_maxlen := ideal, nonideal_items := nonideal, num_buckets := n,
             log2_num_buckets := log2_num_buckets t + 1, buckets := new, ineff_expands := ineff,
             noexpand := (if ineff > 1 then 1 else noexpand t)\<rparr>, m)
   }"

definition HASH_ADD_TO_BKT :: "nat \<Rightarrow> nat \<Rightarrow> ut_hash_table \<Rightarrow> ut_mem \<Rightarrow> (ut_hash_table \<times> ut_mem) option" where
  "HASH_ADD_TO_BKT b a t m = do {
     let bk = buckets t ! b;
     let c = b_count bk + 1;
     m \<leftarrow> at_node a (\<lambda>h. h\<lparr>hh_next := hh_head bk, hh_prev := None\<rparr>) m;
     m \<leftarrow> at_ptr (hh_head bk) (hh_prev_update (\<lambda>_. Some a)) m;
     let t = t\<lparr>buckets := (buckets t)[b := bk\<lparr>hh_head := Some a, b_count := c\<rparr>]\<rparr>;
     if \<not> b < length (buckets t) then None
     else if c \<ge> (expand_mult bk + 1) * HASH_BKT_CAPACITY_THRESH \<and> noexpand t \<noteq> 1
     then HASH_EXPAND_BUCKETS t m
     else Some (t, m)
   }"

definition HASH_MAKE_TABLE :: "nat \<Rightarrow> ut_hash_table" where
  "HASH_MAKE_TABLE a =
     \<lparr>buckets = replicate HASH_INITIAL_NUM_BUCKETS zero_bucket, num_buckets = of_nat HASH_INITIAL_NUM_BUCKETS,
      log2_num_buckets = HASH_INITIAL_NUM_BUCKETS_LOG2, num_items = 0, ut_tail = a, ideal_chain_maxlen = 0,
      nonideal_items = 0, ineff_expands = 0, noexpand = 0\<rparr>"

text \<open>\<open>a\<close> is the address of the caller's zeroed node.\<close>

definition HASH_ADD_STR :: "ut_state \<Rightarrow> nat \<Rightarrow> string \<Rightarrow> ut_state option" where
  "HASH_ADD_STR s a key = do {
     let h = \<lparr>el_prev = None, el_next = None, hh_prev = None, hh_next = None, hh_key = key,
              hh_keylen = of_nat (length key), hh_hashv = HASH_JEN key\<rparr>;
     (first, t, m) \<leftarrow>
       (case ut_head s of
          None \<Rightarrow> Some (a, HASH_MAKE_TABLE a, (ut_nodes s)(a \<mapsto> h))
        | Some first \<Rightarrow> do {
            let t = ut_tbl s;
            m \<leftarrow> at_node (ut_tail t) (el_next_update (\<lambda>_. Some a)) ((ut_nodes s)(a \<mapsto> h\<lparr>el_prev := Some (ut_tail t)\<rparr>));
            Some (first, t\<lparr>ut_tail := a\<rparr>, m)
          });
     let t = t\<lparr>num_items := num_items t + 1\<rparr>;
     (t, m) \<leftarrow> HASH_ADD_TO_BKT (HASH_TO_BKT (HASH_JEN key) (num_buckets t)) a t m;
     Some (s\<lparr>ut_head := Some first, ut_tbl := t, ut_nodes := m\<rparr>)
   }"

section \<open>Deleting\<close>

definition HASH_DEL_IN_BKT :: "nat \<Rightarrow> nat \<Rightarrow> ut_hash_table \<Rightarrow> ut_mem \<Rightarrow> (ut_hash_table \<times> ut_mem) option" where
  "HASH_DEL_IN_BKT b a t m = do {
     h \<leftarrow> m a;
     let bk = buckets t ! b;
     let bk = bk\<lparr>b_count := b_count bk - 1, hh_head := (if hh_head bk = Some a then hh_next h else hh_head bk)\<rparr>;
     m \<leftarrow> at_ptr (hh_prev h) (hh_next_update (\<lambda>_. hh_next h)) m;
     m \<leftarrow> at_ptr (hh_next h) (hh_prev_update (\<lambda>_. hh_prev h)) m;
     if b < length (buckets t) then Some (t\<lparr>buckets := (buckets t)[b := bk]\<rparr>, m) else None
   }"

definition HASH_DEL :: "ut_state \<Rightarrow> nat \<Rightarrow> ut_state option" where
  "HASH_DEL s a = do {
     h \<leftarrow> ut_nodes s a;
     if el_prev h = None \<and> el_next h = None then Some (s\<lparr>ut_head := None\<rparr>)
     else do {
       let t = ut_tbl s;
       t \<leftarrow> (if a = ut_tail t then map_option (\<lambda>p. t\<lparr>ut_tail := p\<rparr>) (el_prev h) else Some t);
       m \<leftarrow> at_ptr (el_prev h) (el_next_update (\<lambda>_. el_next h)) (ut_nodes s);
       let first = (if el_prev h = None then el_next h else ut_head s);
       m \<leftarrow> at_ptr (el_next h) (el_prev_update (\<lambda>_. el_prev h)) m;
       (t, m) \<leftarrow> HASH_DEL_IN_BKT (HASH_TO_BKT (hh_hashv h) (num_buckets t)) a t m;
       Some (s\<lparr>ut_head := first, ut_tbl := t\<lparr>num_items := num_items t - 1\<rparr>, ut_nodes := m\<rparr>)
     }
   }"

definition HASH_COUNT :: "ut_state \<Rightarrow> u32" where
  "HASH_COUNT s = (if ut_head s \<noteq> None then num_items (ut_tbl s) else 0)"

section \<open>The table of queues\<close>

text \<open>
  The functions of \<^verbatim>\<open>src/src/mq_queue_manage.c\<close> that remove nodes, with \<^verbatim>\<open>free\<close> taking the node out of memory.
  In \<open>clear_loop\<close>, \<^verbatim>\<open>HASH_ITER\<close> has read the next node before the body frees the current one.
\<close>

definition free_node :: "nat \<Rightarrow> ut_state \<Rightarrow> ut_state" where
  "free_node a s = s\<lparr>ut_nodes := (ut_nodes s)(a := None)\<rparr>"

definition hash_del_node :: "string \<Rightarrow> ut_state \<Rightarrow> ut_state option" where
  "hash_del_node qname s = do {
     tmp_queue \<leftarrow> HASH_FIND s qname;
     case tmp_queue of None \<Rightarrow> Some s | Some a \<Rightarrow> map_option (free_node a) (HASH_DEL s a)
   }"

partial_function (option) clear_loop :: "nat option \<Rightarrow> nat option \<Rightarrow> ut_state \<Rightarrow> ut_state option" where
  "clear_loop cur tmp s =
     (case cur of
        None \<Rightarrow> Some s
      | Some a \<Rightarrow> do {
          s \<leftarrow> HASH_DEL s a;
          let s = free_node a s;
          tmp' \<leftarrow> (case tmp of None \<Rightarrow> Some None | Some t \<Rightarrow> map_option el_next (ut_nodes s t));
          clear_loop tmp tmp' s
        })"

definition hash_clear_nodes :: "ut_state \<Rightarrow> ut_state option" where
  "hash_clear_nodes s =
     (case ut_head s of
        None \<Rightarrow> Some s
      | Some first \<Rightarrow> do {
          h \<leftarrow> ut_nodes s first;
          s \<leftarrow> clear_loop (Some first) (el_next h) s;
          Some (case ut_head s of None \<Rightarrow> s | Some a \<Rightarrow> free_node a s)
        })"

end
