(* ===== verification/Uthash_Rep.thy ===== *)
theory Uthash_Rep
  imports Uthash
begin

text \<open>
  The table of \<^verbatim>\<open>uthash.h\<close> represents the list of its nodes: doubly linked lists in memory, the
  invariant of the table, and what finding, adding (with expansion) and deleting do to the list.
\<close>

section \<open>Doubly linked lists\<close>

text \<open>
  \<open>seg P N m pr p as q\<close>: from \<open>p\<close>, the links \<open>N\<close> lead through the nodes \<open>as\<close> to \<open>q\<close>, and the links \<open>P\<close> lead
  back, the first one to \<open>pr\<close>.
\<close>

fun seg :: "('h \<Rightarrow> nat option) \<Rightarrow> ('h \<Rightarrow> nat option) \<Rightarrow> (nat \<rightharpoonup> 'h) \<Rightarrow> nat option \<Rightarrow> nat option \<Rightarrow> nat list \<Rightarrow> nat option \<Rightarrow> bool" where
  "seg P N m pr p [] q \<longleftrightarrow> p = q"
| "seg P N m pr p (a # as) q \<longleftrightarrow> p = Some a \<and> (\<exists>h. m a = Some h \<and> P h = pr \<and> seg P N m (Some a) (N h) as q)"

abbreviation chain :: "('h \<Rightarrow> nat option) \<Rightarrow> ('h \<Rightarrow> nat option) \<Rightarrow> (nat \<rightharpoonup> 'h) \<Rightarrow> nat option \<Rightarrow> nat list \<Rightarrow> bool" where
  "chain P N m p as \<equiv> seg P N m None p as None"

lemma seg_cong:
  assumes "\<And>a. a \<in> set as \<Longrightarrow> map_option (\<lambda>h. (P h, N h)) (m' a) = map_option (\<lambda>h. (P h, N h)) (m a)"
  shows "seg P N m' pr p as q \<longleftrightarrow> seg P N m pr p as q"
  using assms
proof (induction as arbitrary: pr p)
  case (Cons a as)
  have "map_option (\<lambda>h. (P h, N h)) (m' a) = map_option (\<lambda>h. (P h, N h)) (m a)" using Cons.prems by simp
  then have "(\<exists>h. m' a = Some h \<and> P h = pr \<and> N h = x) \<longleftrightarrow> (\<exists>h. m a = Some h \<and> P h = pr \<and> N h = x)" for x
    by (cases "m a"; cases "m' a") auto
  then show ?case using Cons.IH Cons.prems by (auto; metis)
qed simp

lemma seg_append:
  "seg P N m pr p (as @ bs) q \<longleftrightarrow>
     (\<exists>r. seg P N m pr p as r \<and> seg P N m (if as = [] then pr else Some (last as)) r bs q)"
  by (induction as arbitrary: pr p) auto

lemma seg_dom: "seg P N m pr p as q \<Longrightarrow> a \<in> set as \<Longrightarrow> \<exists>h. m a = Some h"
  by (induction as arbitrary: pr p) auto

lemma seg_first: "seg P N m pr p as q \<Longrightarrow> as \<noteq> [] \<Longrightarrow> p = Some (hd as)"
  by (cases as) auto

text \<open>A change of one node, through a pointer that may be null.\<close>

definition set_at :: "nat option \<Rightarrow> ('h \<Rightarrow> 'h) \<Rightarrow> (nat \<rightharpoonup> 'h) \<Rightarrow> (nat \<rightharpoonup> 'h)" where
  "set_at p f m = (case p of None \<Rightarrow> m | Some b \<Rightarrow> m(b := map_option f (m b)))"

lemma set_at_None [simp]: "set_at None f m = m"
  by (simp add: set_at_def)

lemma set_at_other [simp]: "p \<noteq> Some a \<Longrightarrow> set_at p f m a = m a"
  by (auto simp: set_at_def split: option.splits)

lemma set_at_same [simp]: "set_at (Some a) f m a = map_option f (m a)"
  by (simp add: set_at_def)

lemma set_at_view:
  assumes "\<And>h. v (f h) = v h"
  shows "map_option v (set_at p f m a) = map_option v (m a)"
  using assms by (auto simp: set_at_def option.map_comp comp_def split: option.splits)

lemma seg_set_at:
  assumes "\<And>h. P (f h) = P h" "\<And>h. N (f h) = N h"
  shows "seg P N (set_at x f m) pr p as q \<longleftrightarrow> seg P N m pr p as q"
  by (rule seg_cong, rule set_at_view) (simp add: assms)

lemma seg_set_at_outside: "x \<notin> Some ` set as \<Longrightarrow> seg P N (set_at x f m) pr p as q \<longleftrightarrow> seg P N m pr p as q"
  by (rule seg_cong) (auto simp: set_at_def split: option.splits)

lemma at_ptr_set_at: "(case p of None \<Rightarrow> True | Some b \<Rightarrow> m b \<noteq> None) \<Longrightarrow> at_ptr p f m = Some (set_at p f m)"
  by (auto simp: at_ptr_def at_node_def set_at_def split: option.splits)

lemma at_node_set_at: "m a \<noteq> None \<Longrightarrow> at_node a f m = Some (set_at (Some a) f m)"
  by (auto simp: at_node_def set_at_def)

text \<open>The two pairs of links of a handle follow the same laws.\<close>

locale dlinks =
  fixes P N :: "'h \<Rightarrow> nat option" and setP setN :: "nat option \<Rightarrow> 'h \<Rightarrow> 'h"
  assumes set_laws [simp]: "P (setP x h) = x" "N (setP x h) = N h" "P (setN x h) = P h" "N (setN x h) = x"
begin

lemma set_prev:
  assumes "seg P N m pr p as q" and "distinct as"
  shows "seg P N (set_at p (setP x) m) x p as q"
proof (cases as)
  case Nil
  then show ?thesis using assms by simp
next
  case (Cons a bs)
  then obtain h where h: "p = Some a" "m a = Some h" "seg P N m (Some a) (N h) bs q" using assms(1) by auto
  moreover have "seg P N (set_at p (setP x) m) (Some a) (N h) bs q"
    using h(1,3) Cons assms(2) by (subst seg_set_at_outside) auto
  ultimately show ?thesis using Cons by simp
qed

lemma set_next:
  assumes "seg P N m pr p as q" and "distinct as" and "as \<noteq> []"
  shows "seg P N (set_at (Some (last as)) (setN y) m) pr p as y"
  using assms
proof (induction as arbitrary: pr p)
  case (Cons a as)
  then obtain h where h: "p = Some a" "m a = Some h" "P h = pr" "seg P N m (Some a) (N h) as q" by auto
  show ?case
  proof (cases "as = []")
    case False
    then have "last as \<noteq> a" using Cons.prems(2) last_in_set by fastforce
    then show ?thesis using h Cons False by simp
  qed (use h in simp)
qed simp

lemma push_front:
  assumes "chain P N m p as" and "distinct as" and "a \<notin> set as" and "P h = None" "N h = p"
  shows "chain P N (set_at p (setP (Some a)) (m(a \<mapsto> h))) (Some a) (a # as)"
proof -
  have "chain P N (m(a \<mapsto> h)) p as" using assms(1,3) by (subst seg_cong) auto
  then have "seg P N (set_at p (setP (Some a)) (m(a \<mapsto> h))) (Some a) p as None" using assms(2) by (rule set_prev)
  moreover have "p \<noteq> Some a" using seg_first [OF assms(1)] assms(1,3) by (cases as) auto
  ultimately show ?thesis using assms(4,5) by simp
qed

lemma push_back:
  assumes "chain P N m p as" and "distinct as" and "as \<noteq> []" and "a \<notin> set as" and "P h = Some (last as)" "N h = None"
  shows "chain P N (set_at (Some (last as)) (setN (Some a)) (m(a \<mapsto> h))) p (as @ [a])"
proof -
  have "chain P N (m(a \<mapsto> h)) p as" using assms(1,4) by (subst seg_cong) auto
  then have "seg P N (set_at (Some (last as)) (setN (Some a)) (m(a \<mapsto> h))) None p as (Some a)"
    using assms(2,3) by (rule set_next)
  moreover have "last as \<noteq> a" using assms(3,4) last_in_set by metis
  ultimately show ?thesis using assms(3,5,6) by (subst seg_append) auto
qed

lemma remove_node:
  assumes c: "chain P N m p (as @ a # bs)" and d: "distinct (as @ a # bs)" and h: "m a = Some h"
  shows "chain P N (set_at (N h) (setP (P h)) (set_at (P h) (setN (N h)) m)) (if P h = None then N h else p) (as @ bs)"
proof -
  have s: "seg P N m None p as (Some a)" "P h = (if as = [] then None else Some (last as))" "seg P N m (Some a) (N h) bs None"
    using c h by (auto simp: seg_append)
  have nb: "N h \<notin> Some ` set as" using s(3) d by (cases bs) auto
  have nl: "last as \<notin> set bs" if "as \<noteq> []" using d last_in_set [OF that] by auto
  show ?thesis
  proof (cases "as = []")
    case True
    then show ?thesis using s(2) set_prev [OF s(3), of None] d by simp
  next
    case False
    let ?m1 = "set_at (P h) (setN (N h)) m"
    have "seg P N ?m1 None p as (N h)" using set_next [OF s(1) _ False] s(2) False d by simp
    then have a: "seg P N (set_at (N h) (setP (P h)) ?m1) None p as (N h)" by (simp only: seg_set_at_outside [OF nb])
    have "seg P N ?m1 (Some a) (N h) bs None" using s(2,3) nl [OF False] False by (subst seg_set_at_outside) auto
    then have "seg P N (set_at (N h) (setP (P h)) ?m1) (P h) (N h) bs None" using d by (intro set_prev) auto
    then show ?thesis using a s(2) False by (subst seg_append) auto
  qed
qed

end

interpretation el: dlinks el_prev el_next "\<lambda>x. el_prev_update (\<lambda>_. x)" "\<lambda>x. el_next_update (\<lambda>_. x)"
  by unfold_locales simp_all

interpretation bk: dlinks hh_prev hh_next "\<lambda>x. hh_prev_update (\<lambda>_. x)" "\<lambda>x. hh_next_update (\<lambda>_. x)"
  by unfold_locales simp_all

section \<open>The invariant of the table\<close>

definition node_ok :: "ut_hash_handle \<Rightarrow> bool" where
  "node_ok h \<longleftrightarrow>
     hh_keylen h = of_nat (length (hh_key h)) \<and> length (hh_key h) < 2 ^ 32 \<and> hh_hashv h = HASH_JEN (hh_key h)"

text \<open>What a node keeps while links change.\<close>

definition node_data :: "ut_hash_handle \<Rightarrow> string \<times> u32 \<times> u32" where
  "node_data h = (hh_key h, hh_keylen h, hh_hashv h)"

definition key_of :: "ut_mem \<Rightarrow> nat \<Rightarrow> string" where
  "key_of m a = (case m a of None \<Rightarrow> [] | Some h \<Rightarrow> hh_key h)"

definition bkt_of :: "ut_mem \<Rightarrow> nat \<Rightarrow> nat \<Rightarrow> nat" where
  "bkt_of m k a = (case m a of None \<Rightarrow> 0 | Some h \<Rightarrow> HASH_TO_BKT (hh_hashv h) (2 ^ k))"

text \<open>\<open>cs\<close> are the nodes of the buckets, each chain with its count.\<close>

definition ut_chains :: "ut_mem \<Rightarrow> ut_hash_bucket list \<Rightarrow> nat list list \<Rightarrow> bool" where
  "ut_chains m bs cs \<longleftrightarrow>
     length bs = length cs
     \<and> (\<forall>i < length cs. chain hh_prev hh_next m (hh_head (bs ! i)) (cs ! i) \<and> b_count (bs ! i) = of_nat (length (cs ! i)))"

definition filed :: "ut_mem \<Rightarrow> nat \<Rightarrow> nat list \<Rightarrow> nat list list \<Rightarrow> bool" where
  "filed m k as cs \<longleftrightarrow>
     length cs = 2 ^ k \<and> (\<forall>i < 2 ^ k. distinct (cs ! i) \<and> set (cs ! i) = {a \<in> set as. bkt_of m k a = i})"

definition tbl_rep :: "ut_hash_table \<Rightarrow> ut_mem \<Rightarrow> nat \<Rightarrow> nat list \<Rightarrow> bool" where
  "tbl_rep t m k as \<longleftrightarrow>
     k < 32 \<and> num_buckets t = 2 ^ k \<and> log2_num_buckets t = of_nat k \<and> num_items t = of_nat (length as)
     \<and> (\<exists>cs. ut_chains m (buckets t) cs \<and> filed m k as cs)"

text \<open>The table has \<open>2 ^ k\<close> buckets and its nodes are \<open>as\<close>, in the order in which they were added.\<close>

definition ut_rep :: "ut_state \<Rightarrow> nat \<Rightarrow> nat list \<Rightarrow> bool" where
  "ut_rep s k as \<longleftrightarrow>
     (if as = [] then ut_head s = None
      else distinct as \<and> chain el_prev el_next (ut_nodes s) (ut_head s) as \<and> ut_tail (ut_tbl s) = last as
        \<and> (\<forall>a \<in> set as. \<exists>h. ut_nodes s a = Some h \<and> node_ok h) \<and> tbl_rep (ut_tbl s) (ut_nodes s) k as)"

lemma ut_repD:
  assumes "ut_rep s k as" "as \<noteq> []"
  shows "distinct as" "chain el_prev el_next (ut_nodes s) (ut_head s) as" "ut_tail (ut_tbl s) = last as"
    "\<And>a. a \<in> set as \<Longrightarrow> \<exists>h. ut_nodes s a = Some h \<and> node_ok h" "tbl_rep (ut_tbl s) (ut_nodes s) k as"
  using assms by (simp_all add: ut_rep_def)

lemma bucket_bound: "k < 32 \<Longrightarrow> HASH_TO_BKT v (2 ^ k) < 2 ^ k"
proof -
  assume k: "k < 32"
  have "HASH_TO_BKT v (2 ^ k) = take_bit k (unat v)"
    by (simp add: HASH_TO_BKT_def mask_eq_exp_minus_1 [symmetric] take_bit_eq_mask [symmetric] unsigned_take_bit_eq)
  then show ?thesis by simp
qed

lemma key_of_view: "map_option node_data (m' a) = map_option node_data (m a) \<Longrightarrow> key_of m' a = key_of m a"
  by (auto simp: key_of_def node_data_def split: option.splits)

lemma bkt_of_view: "map_option node_data (m' a) = map_option node_data (m a) \<Longrightarrow> bkt_of m' k a = bkt_of m k a"
  by (auto simp: bkt_of_def node_data_def split: option.splits)

lemma node_ok_view: "node_data h' = node_data h \<Longrightarrow> node_ok h' = node_ok h"
  by (auto simp: node_ok_def node_data_def)

section \<open>Finding a node\<close>

lemma find_in_chain:
  assumes "seg hh_prev hh_next m pr p as None" and "\<And>a. a \<in> set as \<Longrightarrow> \<exists>h. m a = Some h \<and> node_ok h" and "length key < 2 ^ 32"
  shows "HASH_FIND_IN_BKT m key p = Some (List.find (\<lambda>a. key_of m a = key) as)"
  using assms
proof (induction as arbitrary: pr p)
  case Nil
  then show ?case by (simp add: HASH_FIND_IN_BKT.simps [of m key None])
next
  case (Cons a as)
  then obtain h where h: "p = Some a" "m a = Some h" "seg hh_prev hh_next m (Some a) (hh_next h) as None" by auto
  have ok: "node_ok h" using Cons.prems(2) [of a] h(2) by auto
  have "hh_keylen h = of_nat (length key) \<longleftrightarrow> length (hh_key h) = length key"
    using ok Cons.prems(3) by (auto simp: node_ok_def word_of_nat_eq_iff take_bit_nat_eq_self)
  then have "hh_keylen h = of_nat (length key) \<and> take (length key) (hh_key h) = key \<longleftrightarrow> key_of m a = key"
    using h(2) by (auto simp: key_of_def)
  moreover have "HASH_FIND_IN_BKT m key (hh_next h) = Some (List.find (\<lambda>a. key_of m a = key) as)"
    using Cons.IH [OF h(3)] Cons.prems(2,3) by simp
  ultimately show ?case using h(1,2) by (simp add: HASH_FIND_IN_BKT.simps [of m key "Some a"])
qed

lemma find_Some_unique:
  assumes "a \<in> set as" and "\<And>b. b \<in> set as \<Longrightarrow> f b = f a \<Longrightarrow> b = a"
  shows "List.find (\<lambda>b. f b = f a) as = Some a"
  using assms by (induction as) auto

lemma ut_find:
  assumes r: "ut_rep s k as" and key: "length key < 2 ^ 32" and inj: "inj_on (key_of (ut_nodes s)) (set as)"
  shows "a \<in> set as \<Longrightarrow> key_of (ut_nodes s) a = key \<Longrightarrow> HASH_FIND s key = Some (Some a)"
    and "key \<notin> key_of (ut_nodes s) ` set as \<Longrightarrow> HASH_FIND s key = Some None"
proof -
  let ?m = "ut_nodes s" and ?b = "HASH_TO_BKT (HASH_JEN key) (2 ^ k)"
  have ev: "HASH_FIND s key = Some (List.find (\<lambda>a. key_of ?m a = key) c) \<and> set c = {a \<in> set as. bkt_of ?m k a = ?b}"
    if ne: "as \<noteq> []" and c: "c = cs ! ?b" and cs: "ut_chains ?m (buckets (ut_tbl s)) cs" "filed ?m k as cs" for c cs
  proof -
    note U = ut_repD [OF r ne]
    have u: "k < 32" "num_buckets (ut_tbl s) = 2 ^ k" using U(5) by (simp_all add: tbl_rep_def)
    have b: "?b < 2 ^ k" "length cs = 2 ^ k" "length (buckets (ut_tbl s)) = 2 ^ k"
      using bucket_bound [OF u(1)] cs by (simp_all add: ut_chains_def filed_def)
    have ch: "chain hh_prev hh_next ?m (hh_head (buckets (ut_tbl s) ! ?b)) c" "set c = {a \<in> set as. bkt_of ?m k a = ?b}"
      using cs b c by (simp_all add: ut_chains_def filed_def)
    have "HASH_FIND_IN_BKT ?m key (hh_head (buckets (ut_tbl s) ! ?b)) = Some (List.find (\<lambda>a. key_of ?m a = key) c)"
      using find_in_chain [OF ch(1) _ key] U(4) ch(2) by blast
    moreover have "ut_head s = Some (hd as)" using U(2) ne by (rule seg_first)
    ultimately show ?thesis using u(2) b ch(2) by (simp add: HASH_FIND_def Let_def)
  qed
  have bk: "bkt_of ?m k a = ?b" if "a \<in> set as" "key_of ?m a = key" for a
    using r that unfolding ut_rep_def by (auto simp: bkt_of_def key_of_def node_ok_def split: if_splits)
  show "HASH_FIND s key = Some (Some a)" if a: "a \<in> set as" "key_of ?m a = key"
  proof -
    have ne: "as \<noteq> []" using a by auto
    then obtain cs where cs: "ut_chains ?m (buckets (ut_tbl s)) cs" "filed ?m k as cs" using ut_repD(5) [OF r ne] unfolding tbl_rep_def by blast
    note e = ev [OF ne refl cs]
    have "List.find (\<lambda>x. key_of ?m x = key_of ?m a) (cs ! ?b) = Some a"
      using e a bk [OF a] inj by (intro find_Some_unique) (auto simp: inj_on_def)
    then show ?thesis using e a(2) by simp
  qed
  show "HASH_FIND s key = Some None" if no: "key \<notin> key_of ?m ` set as"
  proof (cases "as = []")
    case True
    then show ?thesis using r by (simp add: ut_rep_def HASH_FIND_def)
  next
    case False
    then obtain cs where cs: "ut_chains ?m (buckets (ut_tbl s)) cs" "filed ?m k as cs" using ut_repD(5) [OF r False] unfolding tbl_rep_def by blast
    note e = ev [OF False refl cs]
    have "List.find (\<lambda>x. key_of ?m x = key) (cs ! ?b) = None" using e no by (auto simp: find_None_iff)
    then show ?thesis using e by simp
  qed
qed

section \<open>Filling buckets\<close>

text \<open>What a change of bucket links keeps of a node.\<close>

definition node_rest :: "ut_hash_handle \<Rightarrow> nat option \<times> nat option \<times> string \<times> u32 \<times> u32" where
  "node_rest h = (el_prev h, el_next h, hh_key h, hh_keylen h, hh_hashv h)"

definition rest_kept :: "ut_mem \<Rightarrow> ut_mem \<Rightarrow> bool" where
  "rest_kept m m' \<longleftrightarrow> (\<forall>a. map_option node_rest (m' a) = map_option node_rest (m a))"

lemma rest_kept_refl [simp]: "rest_kept m m"
  by (simp add: rest_kept_def)

lemma rest_kept_trans: "rest_kept m m1 \<Longrightarrow> rest_kept m1 m2 \<Longrightarrow> rest_kept m m2"
  by (simp add: rest_kept_def)

lemma rest_keptE:
  assumes "rest_kept m m'" and "m a = Some h"
  obtains h' where "m' a = Some h'" "node_rest h' = node_rest h"
proof -
  have "map_option node_rest (m' a) = Some (node_rest h)" using assms by (simp add: rest_kept_def)
  then show ?thesis using that by auto
qed

lemma rest_kept_views:
  assumes "rest_kept m m'"
  shows "key_of m' a = key_of m a" "bkt_of m' k a = bkt_of m k a"
    "seg el_prev el_next m' pr p as q = seg el_prev el_next m pr p as q"
    "(\<exists>h. m' a = Some h \<and> node_ok h) = (\<exists>h. m a = Some h \<and> node_ok h)"
proof -
  have e: "map_option node_rest (m' a) = map_option node_rest (m a)" for a using assms by (simp add: rest_kept_def)
  show "key_of m' a = key_of m a" "bkt_of m' k a = bkt_of m k a" "(\<exists>h. m' a = Some h \<and> node_ok h) = (\<exists>h. m a = Some h \<and> node_ok h)"
    using e [of a] by (cases "m a"; cases "m' a"; simp add: key_of_def bkt_of_def node_ok_def node_rest_def)+
  show "seg el_prev el_next m' pr p as q = seg el_prev el_next m pr p as q"
  proof (rule seg_cong)
    fix a
    show "map_option (\<lambda>h. (el_prev h, el_next h)) (m' a) = map_option (\<lambda>h. (el_prev h, el_next h)) (m a)"
      using e [of a] by (cases "m a"; cases "m' a"; simp add: node_rest_def)
  qed
qed

text \<open>A node goes to the front of a bucket.\<close>

lemma chains_push:
  assumes c: "ut_chains m bs cs" and b: "b < length cs" and f: "\<And>i x. i < length cs \<Longrightarrow> x \<in> set (cs ! i) \<Longrightarrow> f x = i"
    and d: "distinct (cs ! b)" and a: "\<And>i. i < length cs \<Longrightarrow> a \<notin> set (cs ! i)" and h: "hh_prev h = None" "hh_next h = hh_head (bs ! b)"
    and nb: "hh_head nb = Some a" "b_count nb = b_count (bs ! b) + 1"
  shows "ut_chains (set_at (hh_head (bs ! b)) (hh_prev_update (\<lambda>_. Some a)) (m(a \<mapsto> h))) (bs[b := nb]) (cs[b := a # cs ! b])"
proof -
  let ?p = "hh_head (bs ! b)" and ?m = "set_at (hh_head (bs ! b)) (hh_prev_update (\<lambda>_. Some a)) (m(a \<mapsto> h))"
  have l: "length bs = length cs" and ch: "\<And>i. i < length cs \<Longrightarrow> chain hh_prev hh_next m (hh_head (bs ! i)) (cs ! i)"
    and ct: "\<And>i. i < length cs \<Longrightarrow> b_count (bs ! i) = of_nat (length (cs ! i))"
    using c by (simp_all add: ut_chains_def)
  have "chain hh_prev hh_next ?m (Some a) (a # cs ! b)" using bk.push_front [OF ch [OF b] d a [OF b] h] .
  moreover have "chain hh_prev hh_next ?m (hh_head (bs ! i)) (cs ! i)" if i: "i < length cs" "i \<noteq> b" for i
  proof -
    have "?p \<notin> Some ` set (cs ! i)"
      using ch [OF b] f [OF b] f [OF i(1)] i(2) by (cases "cs ! b") auto
    then have "chain hh_prev hh_next ?m (hh_head (bs ! i)) (cs ! i) \<longleftrightarrow> chain hh_prev hh_next (m(a \<mapsto> h)) (hh_head (bs ! i)) (cs ! i)"
      by (rule seg_set_at_outside)
    also have "\<dots> \<longleftrightarrow> chain hh_prev hh_next m (hh_head (bs ! i)) (cs ! i)" using a [OF i(1)] by (intro seg_cong) auto
    finally show ?thesis using ch [OF i(1)] by simp
  qed
  ultimately show ?thesis using l b ct nb by (auto simp: ut_chains_def nth_list_update)
qed

section \<open>Expansion\<close>

text \<open>The chains that arise when the nodes \<open>ds\<close> go to the front of their buckets one after the other.\<close>

definition spread :: "(nat \<Rightarrow> nat) \<Rightarrow> nat \<Rightarrow> nat list \<Rightarrow> nat list list" where
  "spread f n ds = map (\<lambda>j. rev (filter (\<lambda>a. f a = j) ds)) [0..<n]"

lemma spread_simps [simp]:
  "length (spread f n ds) = n" "j < n \<Longrightarrow> spread f n ds ! j = rev (filter (\<lambda>a. f a = j) ds)"
  by (simp_all add: spread_def)

lemma spread_snoc: "f a < n \<Longrightarrow> spread f n (ds @ [a]) = (spread f n ds)[f a := a # spread f n ds ! f a]"
  by (rule nth_equalityI) (auto simp: nth_list_update)

definition moved :: "u32 \<Rightarrow> nat \<Rightarrow> ut_hash_bucket \<Rightarrow> ut_hash_bucket" where
  "moved ideal a bk =
     \<lparr>hh_head = Some a, b_count = b_count bk + 1,
      expand_mult = (if b_count bk + 1 > ideal then (b_count bk + 1) div ideal else expand_mult bk)\<rparr>"

definition to_front :: "nat \<Rightarrow> ut_hash_handle \<Rightarrow> nat option \<Rightarrow> ut_mem \<Rightarrow> ut_mem" where
  "to_front a h x m = set_at x (hh_prev_update (\<lambda>_. Some a)) (m(a \<mapsto> h\<lparr>hh_prev := None, hh_next := x\<rparr>))"

lemma expand_chain_Cons:
  assumes "m a = Some h" and "HASH_TO_BKT (hh_hashv h) w = b" and "b < length new" and "ideal \<noteq> 0"
    and "\<And>y. hh_head (new ! b) = Some y \<Longrightarrow> m y \<noteq> None"
  shows "\<exists>ni'. expand_chain ideal w (Some a) (m, new, ni)
     = expand_chain ideal w (hh_next h) (to_front a h (hh_head (new ! b)) m, new[b := moved ideal a (new ! b)], ni')"
proof -
  have "at_ptr (hh_head (new ! b)) (hh_prev_update (\<lambda>_. Some a)) (m(a \<mapsto> h\<lparr>hh_prev := None, hh_next := hh_head (new ! b)\<rparr>))
      = Some (to_front a h (hh_head (new ! b)) m)"
    unfolding to_front_def using assms(5) by (intro at_ptr_set_at) (auto split: option.splits)
  then show ?thesis
    using assms(1-4) by (subst expand_chain.simps) (simp add: Let_def moved_def, blast)
qed

lemma to_front_kept: "m a = Some h \<Longrightarrow> rest_kept m (to_front a h x m)"
  unfolding rest_kept_def to_front_def by (intro allI) (subst set_at_view; simp add: node_rest_def)

lemma to_front_other: "b \<noteq> a \<Longrightarrow> x \<noteq> Some b \<Longrightarrow> to_front a h x m b = m b"
  by (simp add: to_front_def)

lemma chain_head_in: "seg P N m pr (Some y) as None \<Longrightarrow> y \<in> set as"
  by (cases as) auto

lemma expand_chain_rep:
  assumes "seg hh_prev hh_next m pr p as None" and "distinct (ds @ as)" and "ut_chains m new (spread f n ds)"
    and "\<And>a. a \<in> set (ds @ as) \<Longrightarrow> \<exists>h. m a = Some h \<and> HASH_TO_BKT (hh_hashv h) w = f a" and "\<And>a. a \<in> set (ds @ as) \<Longrightarrow> f a < n"
    and id: "ideal \<noteq> 0"
  shows "\<exists>m' new' ni'. expand_chain ideal w p (m, new, ni) = Some (m', new', ni') \<and> ut_chains m' new' (spread f n (ds @ as))
     \<and> rest_kept m m' \<and> (\<forall>a. a \<notin> set (ds @ as) \<longrightarrow> m' a = m a)"
  using assms(1-5)
proof (induction as arbitrary: pr p m new ni ds)
  case Nil
  then show ?case by (simp add: expand_chain.simps [of ideal w None])
next
  case (Cons a as)
  obtain h where h: "p = Some a" "m a = Some h" "seg hh_prev hh_next m (Some a) (hh_next h) as None" using Cons.prems(1) by auto
  have fa: "HASH_TO_BKT (hh_hashv h) w = f a" "f a < n" using Cons.prems(4) [of a] Cons.prems(5) [of a] h(2) by auto
  have ln: "length new = n" using Cons.prems(3) by (simp add: ut_chains_def)
  let ?x = "hh_head (new ! f a)"
  let ?m = "to_front a h ?x m" and ?new = "new[f a := moved ideal a (new ! f a)]"
  have x: "y \<in> set ds" if "?x = Some y" for y
    using Cons.prems(3) fa(2) that chain_head_in [of hh_prev hh_next m None y] by (fastforce simp: ut_chains_def)
  have "m y \<noteq> None" if "?x = Some y" for y using Cons.prems(4) [of y] x [OF that] by auto
  then obtain ni' where ev: "expand_chain ideal w p (m, new, ni) = expand_chain ideal w (hh_next h) (?m, ?new, ni')"
    using expand_chain_Cons [of m a h w "f a" new ideal ni, OF h(2) fa(1) _ id] fa(2) ln h(1) by blast
  have kept: "rest_kept m ?m" using h(2) by (rule to_front_kept)
  have d: "distinct ds" "a \<notin> set ds" "a \<notin> set as" "set ds \<inter> set as = {}" "distinct as" using Cons.prems(2) by auto
  have out: "?m b = m b" if "b \<notin> set ds" "b \<noteq> a" for b using that x by (intro to_front_other) auto
  have ch: "ut_chains ?m ?new (spread f n (ds @ [a]))"
    unfolding spread_snoc [of f, OF fa(2)] to_front_def
    using Cons.prems(3) fa(2) d(1,2) by (intro chains_push [where f = f]) (auto simp: moved_def)
  have sg: "seg hh_prev hh_next ?m (Some a) (hh_next h) as None"
  proof -
    have "?m b = m b" if "b \<in> set as" for b using out [of b] that d(3,4) by auto
    then show ?thesis using h(3) by (subst seg_cong [where m = m]) simp_all
  qed
  have nd: "\<exists>h. ?m b = Some h \<and> HASH_TO_BKT (hh_hashv h) w = f b" if b: "b \<in> set ((ds @ [a]) @ as)" for b
  proof -
    obtain hb where hb: "m b = Some hb" "HASH_TO_BKT (hh_hashv hb) w = f b" using Cons.prems(4) [of b] b by auto
    show ?thesis by (rule rest_keptE [OF kept hb(1)]) (use hb(2) in \<open>simp add: node_rest_def\<close>)
  qed
  have dd: "distinct ((ds @ [a]) @ as)" and fn: "\<And>b. b \<in> set ((ds @ [a]) @ as) \<Longrightarrow> f b < n"
    using d Cons.prems(5) by auto
  obtain m' new' ni'' where I: "expand_chain ideal w p (m, new, ni) = Some (m', new', ni'')"
      "ut_chains m' new' (spread f n ((ds @ [a]) @ as))" "rest_kept ?m m'" "\<forall>b. b \<notin> set ((ds @ [a]) @ as) \<longrightarrow> m' b = ?m b"
    using Cons.IH [OF sg dd ch nd fn] unfolding ev by blast
  have "m' b = m b" if "b \<notin> set (ds @ a # as)" for b using that I(4) out [of b] by simp
  then show ?case using I(1,2) rest_kept_trans [OF kept I(3)] by auto
qed

lemma expand_buckets_rep:
  assumes "list_all2 (\<lambda>b c. chain hh_prev hh_next m (hh_head b) c) bs cs" and "distinct (ds @ concat cs)" and "ut_chains m new (spread f n ds)"
    and "\<And>a. a \<in> set (ds @ concat cs) \<Longrightarrow> \<exists>h. m a = Some h \<and> HASH_TO_BKT (hh_hashv h) w = f a"
    and "\<And>a. a \<in> set (ds @ concat cs) \<Longrightarrow> f a < n" and id: "ideal \<noteq> 0"
  shows "\<exists>m' new' ni'. expand_buckets ideal w bs (m, new, ni) = Some (m', new', ni') \<and> ut_chains m' new' (spread f n (ds @ concat cs))
     \<and> rest_kept m m'"
  using assms(1-5)
proof (induction bs arbitrary: cs m new ni ds)
  case Nil
  then show ?case by simp
next
  case (Cons b bs)
  then obtain c cs' where cs: "cs = c # cs'" and c: "chain hh_prev hh_next m (hh_head b) c"
      and rest: "list_all2 (\<lambda>b c. chain hh_prev hh_next m (hh_head b) c) bs cs'"
    by (auto simp: list_all2_Cons1)
  obtain m1 new1 ni1 where e: "expand_chain ideal w (hh_head b) (m, new, ni) = Some (m1, new1, ni1)"
      "ut_chains m1 new1 (spread f n (ds @ c))" "rest_kept m m1" "\<forall>a. a \<notin> set (ds @ c) \<longrightarrow> m1 a = m a"
  proof -
    have "distinct (ds @ c)" "\<And>a. a \<in> set (ds @ c) \<Longrightarrow> \<exists>h. m a = Some h \<and> HASH_TO_BKT (hh_hashv h) w = f a"
        "\<And>a. a \<in> set (ds @ c) \<Longrightarrow> f a < n"
      using Cons.prems(2,4,5) cs by auto
    from expand_chain_rep [OF c this(1) Cons.prems(3) this(2,3) id] that show thesis by blast
  qed
  have "chain hh_prev hh_next m1 (hh_head x) y" if "(x, y) \<in> set (zip bs cs')" for x y
  proof -
    have "chain hh_prev hh_next m (hh_head x) y" using rest that by (auto simp: list_all2_iff)
    moreover have "set y \<inter> set (ds @ c) = {}" using Cons.prems(2) cs set_zip_rightD [OF that] by auto
    ultimately show ?thesis using e(4) by (subst seg_cong [where m = m]) auto
  qed
  then have r1: "list_all2 (\<lambda>b c. chain hh_prev hh_next m1 (hh_head b) c) bs cs'" using rest by (auto simp: list_all2_iff)
  have nd: "\<exists>h. m1 a = Some h \<and> HASH_TO_BKT (hh_hashv h) w = f a" if a: "a \<in> set ((ds @ c) @ concat cs')" for a
  proof -
    obtain h where h: "m a = Some h" "HASH_TO_BKT (hh_hashv h) w = f a" using Cons.prems(4) [of a] a cs by auto
    show ?thesis by (rule rest_keptE [OF e(3) h(1)]) (use h(2) in \<open>simp add: node_rest_def\<close>)
  qed
  have dd: "distinct ((ds @ c) @ concat cs')" and fn: "\<And>a. a \<in> set ((ds @ c) @ concat cs') \<Longrightarrow> f a < n"
    using Cons.prems(2,5) cs by auto
  obtain m' new' ni' where I: "expand_buckets ideal w bs (m1, new1, ni1) = Some (m', new', ni')"
      "ut_chains m' new' (spread f n ((ds @ c) @ concat cs'))" "rest_kept m1 m'"
    using Cons.IH [OF r1 dd e(2) nd fn] by blast
  then show ?case using e(1) rest_kept_trans [OF e(3) I(3)] cs by simp
qed

lemma ideal_pos:
  fixes n :: u32
  assumes "n \<noteq> 0" and "0 < k"
  shows "drop_bit k n + (if n AND mask k \<noteq> 0 then 1 else 0) \<noteq> 0"
proof (cases "n AND mask k = 0")
  case True
  have "push_bit k (drop_bit k n) + take_bit k n = n" by (rule bits_ident)
  moreover have "take_bit k n = 0" using True by (simp only: take_bit_eq_mask)
  ultimately have "drop_bit k n \<noteq> 0" using assms(1) by (metis add.right_neutral push_bit_of_0)
  then show ?thesis using True by (simp only: if_False simp_thms add_0_right)
next
  case False
  have "unat (drop_bit k n) = drop_bit k (unat n)" by (rule unat_drop_bit_eq)
  also have "\<dots> = unat n div 2 ^ k" by (rule drop_bit_eq_div)
  also have "\<dots> \<le> unat n div 2 ^ 1" using assms(2) power_increasing [of 1 k "2 :: nat"] by (intro div_le_mono2) simp_all
  also have "\<dots> < 2 ^ 31" using unsigned_less [of n, where 'a = nat] by simp
  finally have "unat (drop_bit k n) + unat (1 :: u32) < 4294967296" by simp
  then have "unat (drop_bit k n + 1) = unat (drop_bit k n) + unat (1 :: u32)" by (simp only: unat_add_u32 mod_less)
  then have "drop_bit k n + 1 \<noteq> 0" by (metis add_is_0 unat_0 unat_1 zero_neq_one)
  then show ?thesis using False by (simp only: if_True simp_thms)
qed

text \<open>Expansion files the nodes into twice as many buckets and keeps everything else.\<close>

lemma filed_spread:
  assumes "distinct ds" and "set ds = set as" and "\<And>a. a \<in> set as \<Longrightarrow> f a = bkt_of m k a"
  shows "filed m k as (spread f (2 ^ k) ds)"
  using assms by (auto simp: filed_def)

lemma distinct_concat_by:
  fixes f :: "'a \<Rightarrow> nat"
  assumes "\<And>i. i < length cs \<Longrightarrow> distinct (cs ! i)" and "\<And>i x. i < length cs \<Longrightarrow> x \<in> set (cs ! i) \<Longrightarrow> f x = n + i"
  shows "distinct (concat cs)"
  using assms
proof (induction cs arbitrary: n)
  case (Cons c cs)
  have c: "distinct c" "\<And>x. x \<in> set c \<Longrightarrow> f x = n" using Cons.prems(1) [of 0] Cons.prems(2) [of 0] by simp_all
  have t: "distinct (cs ! i)" "x \<in> set (cs ! i) \<Longrightarrow> f x = Suc n + i" if "i < length cs" for i x
    using Cons.prems(1) [of "Suc i"] Cons.prems(2) [of "Suc i" x] that by simp_all
  have "x \<notin> set c" if x: "x \<in> set (concat cs)" for x
  proof -
    obtain d where d: "d \<in> set cs" "x \<in> set d" using x by auto
    then obtain i where "i < length cs" "x \<in> set (cs ! i)" by (metis in_set_conv_nth)
    then have "f x = Suc n + i" by (rule t(2))
    then show ?thesis using c(2) [of x] by auto
  qed
  then have "set c \<inter> set (concat cs) = {}" by blast
  moreover have "distinct (concat cs)" by (rule Cons.IH [of "Suc n"]) (fact t)+
  ultimately show ?case using c(1) by simp
qed simp

lemma filed_concat:
  assumes "filed m k as cs" and "\<And>a. a \<in> set as \<Longrightarrow> bkt_of m k a < 2 ^ k"
  shows "distinct (concat cs)" and "set (concat cs) = set as"
proof -
  have c: "length cs = 2 ^ k" "\<And>i. i < length cs \<Longrightarrow> distinct (cs ! i) \<and> set (cs ! i) = {a \<in> set as. bkt_of m k a = i}"
    using assms(1) by (simp_all add: filed_def)
  have "x \<in> set (concat cs) \<longleftrightarrow> x \<in> set as" for x
  proof
    assume "x \<in> set (concat cs)"
    then obtain d where "d \<in> set cs" "x \<in> set d" by auto
    then obtain i where "i < length cs" "x \<in> set (cs ! i)" by (metis in_set_conv_nth)
    then show "x \<in> set as" using c(2) by simp
  next
    assume x: "x \<in> set as"
    then have i: "bkt_of m k x < length cs" using assms(2) c(1) by simp
    then have "x \<in> set (cs ! bkt_of m k x)" using c(2) x by simp
    then show "x \<in> set (concat cs)" using nth_mem [OF i] by auto
  qed
  then show "set (concat cs) = set as" by blast
  show "distinct (concat cs)" by (rule distinct_concat_by [of cs "bkt_of m k" 0]) (simp_all add: c(2))
qed

end
