(* ===== verification/Uthash_Ops.thy ===== *)
theory Uthash_Ops
  imports Uthash_Rep
begin

text \<open>
  The operations of \<^verbatim>\<open>uthash.h\<close> on the list of nodes: expansion keeps it, adding puts a node at its end,
  deleting takes a node out, and the count is its length.
\<close>

section \<open>Expansion\<close>

lemma unat_of_small: "n < 2 ^ 32 \<Longrightarrow> unat (of_nat n :: u32) = n"
  by (simp add: unat_of_nat)

lemma unat_exp: "k < 32 \<Longrightarrow> unat (2 ^ k :: u32) = 2 ^ k"
proof -
  assume "k < 32"
  then have "(2 :: nat) ^ k < 2 ^ 32" by (intro power_strict_increasing) simp_all
  then have "unat (of_nat (2 ^ k) :: u32) = 2 ^ k" by (rule unat_of_small)
  then show ?thesis by simp
qed

lemma empty_chains: "ut_chains m (replicate n zero_bucket) (spread f n [])"
  by (simp add: ut_chains_def zero_bucket_def)

lemma of_nat_nonzero: "0 < n \<Longrightarrow> n < 2 ^ 32 \<Longrightarrow> (of_nat n :: u32) \<noteq> 0"
  by (simp add: word_of_nat_eq_0_iff nat_dvd_not_less)

lemma expand_rep:
  assumes t: "tbl_rep t m k as" and as: "as \<noteq> []" "length as < 2 ^ 32" and k: "Suc k < 32"
    and nodes: "\<And>a. a \<in> set as \<Longrightarrow> \<exists>h. m a = Some h"
  shows "\<exists>t' m'. HASH_EXPAND_BUCKETS t m = Some (t', m') \<and> tbl_rep t' m' (Suc k) as \<and> rest_kept m m' \<and> ut_tail t' = ut_tail t"
proof -
  obtain cs where cs: "ut_chains m (buckets t) cs" "filed m k as cs" using t unfolding tbl_rep_def by blast
  have T: "num_buckets t = 2 ^ k" "log2_num_buckets t = of_nat k" "num_items t = of_nat (length as)"
    using t by (simp_all add: tbl_rep_def)
  let ?n = "2 ^ Suc k :: u32" and ?f = "bkt_of m (Suc k)"
  let ?ideal = "drop_bit (Suc k) (num_items t) + (if num_items t AND mask (Suc k) \<noteq> 0 then 1 else 0)"
  have n: "2 * num_buckets t = ?n" "?n - 1 = mask (Suc k)" "unat ?n = 2 ^ Suc k" 
    using T k unat_exp [of "Suc k"] by (simp_all add: mask_eq_exp_minus_1)
  have log: "log2_num_buckets t + 1 = of_nat (Suc k)" "unat (of_nat (Suc k) :: u32) = Suc k"
    using T(2) k by (simp, intro unat_of_small, simp)
  have bk: "bkt_of m j a < 2 ^ j" if "j < 32" for j a
    using bucket_bound [OF that] by (auto simp: bkt_of_def split: option.splits)
  have "k < 32" using k by simp
  note c = filed_concat [OF cs(2) bk [OF this]]
  have id: "?ideal \<noteq> 0" by (rule ideal_pos) (use T(3) as of_nat_nonzero in auto)
  have la: "list_all2 (\<lambda>b c. chain hh_prev hh_next m (hh_head b) c) (buckets t) cs"
    using cs(1) by (simp add: ut_chains_def list_all2_conv_all_nth)
  have nd: "\<exists>h. m a = Some h \<and> HASH_TO_BKT (hh_hashv h) ?n = ?f a" if "a \<in> set ([] @ concat cs)" for a
    using nodes [of a] that c(2) by (auto simp: bkt_of_def simp del: set_concat)
  have ds: "distinct ([] @ concat cs)" using c(1) by simp
  obtain m' new ni where e: "expand_buckets ?ideal ?n (buckets t) (m, replicate (2 ^ Suc k) zero_bucket, 0) = Some (m', new, ni)"
      "ut_chains m' new (spread ?f (2 ^ Suc k) (concat cs))" "rest_kept m m'"
    using expand_buckets_rep [where f = ?f, OF la ds empty_chains nd bk [OF k] id, of 0] unfolding append_Nil by blast
  have fl: "filed m' (Suc k) as (spread ?f (2 ^ Suc k) (concat cs))"
    by (rule filed_spread) (simp_all only: c rest_kept_views(2) [OF e(3)])
  then have "tbl_rep t' m' (Suc k) as"
    if "buckets t' = new" "num_buckets t' = ?n" "log2_num_buckets t' = log2_num_buckets t + 1" "num_items t' = num_items t" for t'
    unfolding tbl_rep_def using that log(1) T(3) k e(2) by auto
  moreover have "\<exists>t'. HASH_EXPAND_BUCKETS t m = Some (t', m') \<and> buckets t' = new \<and> num_buckets t' = ?n
      \<and> log2_num_buckets t' = log2_num_buckets t + 1 \<and> num_items t' = num_items t \<and> ut_tail t' = ut_tail t"
    unfolding HASH_EXPAND_BUCKETS_def Let_def n log e(1) by simp
  ultimately show ?thesis using e(3) by blast
qed

section \<open>Adding\<close>

lemma set_at_dom: "set_at p f m y = None \<longleftrightarrow> m y = None"
  by (auto simp: set_at_def split: option.splits)

lemma dom_set_at: "dom (set_at p f m) = dom m"
  by (simp add: dom_def set_at_dom)

lemma rest_kept_dom:
  assumes "rest_kept m m'"
  shows "dom m' = dom m"
proof -
  have "m' a = None \<longleftrightarrow> m a = None" for a using assms option.map_disc_iff unfolding rest_kept_def by metis
  then show ?thesis by (simp add: dom_def)
qed

lemma filed_snoc:
  assumes "filed m k as cs" and "a \<notin> set as" and "bkt_of m k a < 2 ^ k"
  shows "filed m k (as @ [a]) (cs[bkt_of m k a := a # cs ! bkt_of m k a])"
  using assms by (auto simp: filed_def nth_list_update)

lemma filed_kept: "rest_kept m m' \<Longrightarrow> filed m' k as cs = filed m k as cs"
  by (simp add: filed_def rest_kept_views(2))

lemma add_to_bkt_rep:
  assumes t: "tbl_rep t m k as" and h: "m a = Some h" and a: "a \<notin> set as" and len: "Suc (length as) < 2 ^ 32" and k: "k < 31"
    and nodes: "\<And>b. b \<in> set as \<Longrightarrow> \<exists>h. m b = Some h"
  shows "\<exists>t' m' k'. HASH_ADD_TO_BKT (HASH_TO_BKT (hh_hashv h) (2 ^ k)) a (t\<lparr>num_items := num_items t + 1\<rparr>) m = Some (t', m')
     \<and> tbl_rep t' m' k' (as @ [a]) \<and> rest_kept m m' \<and> ut_tail t' = ut_tail t \<and> k' \<le> Suc k"
proof -
  obtain cs where cs: "ut_chains m (buckets t) cs" "filed m k as cs" using t unfolding tbl_rep_def by blast
  have T: "num_buckets t = 2 ^ k" "log2_num_buckets t = of_nat k" "num_items t = of_nat (length as)"
    using t by (simp_all add: tbl_rep_def)
  define b where "b = HASH_TO_BKT (hh_hashv h) (2 ^ k)"
  have b: "b < 2 ^ k" "bkt_of m k a = b" using k bucket_bound h by (simp_all add: b_def bkt_of_def)
  have ln: "length cs = 2 ^ k" "length (buckets t) = 2 ^ k" using cs by (simp_all add: ut_chains_def filed_def)
  have fil: "distinct (cs ! i) \<and> set (cs ! i) = {x \<in> set as. bkt_of m k x = i}" if "i < 2 ^ k" for i
    using cs(2) that by (simp add: filed_def)
  let ?bk = "buckets t ! b"
  let ?nb = "?bk\<lparr>hh_head := Some a, b_count := b_count ?bk + 1\<rparr>" and ?m = "to_front a h (hh_head ?bk) m"
  define t1 where "t1 = t\<lparr>num_items := num_items t + 1, buckets := (buckets t)[b := ?nb]\<rparr>"
  have hd_in: "y \<in> set as" if "hh_head ?bk = Some y" for y
    using cs(1) b(1) ln fil [OF b(1)] that chain_head_in [of hh_prev hh_next m None y "cs ! b"] by (auto simp: ut_chains_def)
  have kept: "rest_kept m ?m" using h by (rule to_front_kept)
  have "ut_chains ?m ((buckets t)[b := ?nb]) (cs[b := a # cs ! b])"
    unfolding to_front_def by (rule chains_push [where f = "bkt_of m k"]) (use cs(1) b ln fil a in auto)
  moreover have "filed ?m k (as @ [a]) (cs[b := a # cs ! b])"
    using filed_snoc [OF cs(2) a] b filed_kept [OF kept] by simp
  ultimately have r: "tbl_rep t1 ?m k (as @ [a])" using T k by (auto simp: tbl_rep_def t1_def)
  have st: "at_ptr (hh_head ?bk) (hh_prev_update (\<lambda>_. Some a)) (m(a \<mapsto> h\<lparr>hh_next := hh_head ?bk, hh_prev := None\<rparr>)) = Some ?m"
  proof -
    have sw: "h\<lparr>hh_next := x, hh_prev := None\<rparr> = h\<lparr>hh_prev := None, hh_next := x\<rparr>" for x by (cases h) simp
    show ?thesis unfolding sw to_front_def using hd_in nodes by (intro at_ptr_set_at) (auto split: option.splits)
  qed
  let ?full = "b_count ?bk + 1 \<ge> (expand_mult ?bk + 1) * HASH_BKT_CAPACITY_THRESH \<and> noexpand t1 \<noteq> 1"
  have ev: "HASH_ADD_TO_BKT b a (t\<lparr>num_items := num_items t + 1\<rparr>) m
      = (if ?full then HASH_EXPAND_BUCKETS t1 ?m else Some (t1, ?m))"
    using h st b(1) ln by (simp add: HASH_ADD_TO_BKT_def Let_def at_node_def t1_def)
  have nd: "\<exists>h. ?m x = Some h" if x: "x \<in> set (as @ [a])" for x
  proof -
    obtain g where g: "m x = Some g" using x nodes h by auto
    show ?thesis by (rule rest_keptE [OF kept g]) blast
  qed
  have tl: "ut_tail t1 = ut_tail t" by (simp add: t1_def)
  show ?thesis
  proof (cases ?full)
    case True
    obtain t' m' where "HASH_EXPAND_BUCKETS t1 ?m = Some (t', m')" "tbl_rep t' m' (Suc k) (as @ [a])" "rest_kept ?m m'" "ut_tail t' = ut_tail t1"
      using expand_rep [OF r _ _ _ nd] k len by auto
    then show ?thesis unfolding b_def [symmetric] ev using True tl rest_kept_trans [OF kept] by auto
  next
    case False
    then show ?thesis unfolding b_def [symmetric] ev using tl r kept by auto
  qed
qed

text \<open>The table depends on the bucket links and the hash values of its nodes only.\<close>

definition bucket_view :: "ut_hash_handle \<Rightarrow> nat option \<times> nat option \<times> u32" where
  "bucket_view h = (hh_prev h, hh_next h, hh_hashv h)"

lemma tbl_rep_cong:
  assumes t: "tbl_rep t m k as" and v: "\<And>b. b \<in> set as \<Longrightarrow> map_option bucket_view (m' b) = map_option bucket_view (m b)"
  shows "tbl_rep t m' k as"
proof -
  obtain cs where cs: "ut_chains m (buckets t) cs" "filed m k as cs" using t unfolding tbl_rep_def by blast
  have sub: "b \<in> set as" if "i < length cs" "b \<in> set (cs ! i)" for i b using cs(2) that by (auto simp: filed_def)
  have pn: "map_option (\<lambda>h. (hh_prev h, hh_next h)) (m' b) = map_option (\<lambda>h. (hh_prev h, hh_next h)) (m b)"
    and bo: "bkt_of m' k b = bkt_of m k b" if "b \<in> set as" for b
    using v [OF that] by (cases "m b"; cases "m' b"; simp add: bucket_view_def bkt_of_def)+
  have "seg hh_prev hh_next m' None p (cs ! i) None = seg hh_prev hh_next m None p (cs ! i) None" if "i < length cs" for i p
    by (rule seg_cong) (rule pn, rule sub [OF that])
  then have "ut_chains m' (buckets t) cs" using cs(1) by (simp add: ut_chains_def)
  moreover have "filed m' k as cs" using cs(2) bo by (auto simp: filed_def)
  ultimately show ?thesis using t unfolding tbl_rep_def by blast
qed

definition new_node :: "string \<Rightarrow> nat option \<Rightarrow> ut_hash_handle" where
  "new_node key p = \<lparr>el_prev = p, el_next = None, hh_prev = None, hh_next = None, hh_key = key,
     hh_keylen = of_nat (length key), hh_hashv = HASH_JEN key\<rparr>"

text \<open>A new node at the end of the list, before it goes to its bucket.\<close>

definition linked_in :: "ut_state \<Rightarrow> nat list \<Rightarrow> nat \<Rightarrow> string \<Rightarrow> ut_mem" where
  "linked_in s as a key =
     (if as = [] then (ut_nodes s)(a \<mapsto> new_node key None)
      else set_at (Some (last as)) (el_next_update (\<lambda>_. Some a)) ((ut_nodes s)(a \<mapsto> new_node key (Some (last as)))))"

lemma linked_in_rep:
  assumes r: "ut_rep s k as" and a: "a \<notin> set as" and key: "length key < 2 ^ 32"
  defines "m \<equiv> linked_in s as a key" and "first \<equiv> (case ut_head s of None \<Rightarrow> Some a | Some p \<Rightarrow> Some p)"
  shows "chain el_prev el_next m first (as @ [a])" "\<And>b. b \<in> set (as @ [a]) \<Longrightarrow> \<exists>h. m b = Some h \<and> node_ok h"
    "\<exists>h. m a = Some h \<and> hh_hashv h = HASH_JEN key \<and> hh_key h = key" "\<And>b. b \<noteq> a \<Longrightarrow> key_of m b = key_of (ut_nodes s) b"
    "\<And>b. b \<in> set as \<Longrightarrow> map_option bucket_view (m b) = map_option bucket_view (ut_nodes s b)"
proof -
  have h: "node_ok (new_node key p)" for p using key by (simp add: node_ok_def new_node_def)
  have la: "as \<noteq> [] \<Longrightarrow> last as \<noteq> a" using a last_in_set by metis
  have view: "map_option v (m b) = map_option v (ut_nodes s b)" if "b \<noteq> a" "\<And>x h. v (el_next_update x h) = v h" for b and v :: "ut_hash_handle \<Rightarrow> 'v"
  proof -
    have "map_option v (set_at p (el_next_update x) ((ut_nodes s)(a \<mapsto> h)) b) = map_option v (ut_nodes s b)" for p x h
      using that(1) by (subst set_at_view) (simp_all add: that(2))
    then show ?thesis using that(1) by (simp add: m_def linked_in_def)
  qed
  show "chain el_prev el_next m first (as @ [a])"
  proof (cases "as = []")
    case False
    have "first = ut_head s" using seg_first [OF ut_repD(2) [OF r False] False] by (simp add: first_def)
    then show ?thesis
      unfolding m_def linked_in_def using False el.push_back [OF ut_repD(2,1) [OF r False] False a] by (simp add: new_node_def)
  qed (use r in \<open>simp add: m_def first_def ut_rep_def linked_in_def new_node_def\<close>)
  show ma: "\<exists>h. m a = Some h \<and> hh_hashv h = HASH_JEN key \<and> hh_key h = key"
    using la by (auto simp: m_def linked_in_def new_node_def)
  show "\<exists>h. m b = Some h \<and> node_ok h" if b: "b \<in> set (as @ [a])" for b
  proof (cases "b = a")
    case True
    then show ?thesis using la h by (auto simp: m_def linked_in_def)
  next
    case False
    then have "b \<in> set as" "as \<noteq> []" using b by auto
    then obtain g where g: "ut_nodes s b = Some g" "node_ok g" using ut_repD(4) [OF r] by blast
    then have "map_option node_data (m b) = Some (node_data g)" using view [OF False, of node_data] by (simp add: node_data_def)
    then obtain h' where "m b = Some h'" "node_data h' = node_data g" by auto
    then show ?thesis using g(2) node_ok_view [of h' g] by simp
  qed
  show "key_of m b = key_of (ut_nodes s) b" if "b \<noteq> a" for b
    by (rule key_of_view, rule view [OF that]) (simp add: node_data_def)
  show "map_option bucket_view (m b) = map_option bucket_view (ut_nodes s b)" if "b \<in> set as" for b
    by (rule view) (use that a in \<open>auto simp: bucket_view_def\<close>)
qed

lemma make_table_rep: "tbl_rep (HASH_MAKE_TABLE a) m 5 []"
  using empty_chains [of m 32 "\<lambda>_. 0"] filed_spread [of "[]" "[]" "\<lambda>_. 0" m 5]
  by (auto simp: tbl_rep_def HASH_MAKE_TABLE_def HASH_INITIAL_NUM_BUCKETS_def HASH_INITIAL_NUM_BUCKETS_LOG2_def)

lemma tbl_rep_tail: "tbl_rep (t\<lparr>ut_tail := a\<rparr>) m k as = tbl_rep t m k as"
  by (simp add: tbl_rep_def)

lemma ut_add:
  assumes r: "ut_rep s k as" and a: "a \<notin> set as" and key: "length key < 2 ^ 32" and k: "k < 31" and len: "Suc (length as) < 2 ^ 32"
  obtains s' k' where "HASH_ADD_STR s a key = Some s'" "ut_rep s' k' (as @ [a])" "key_of (ut_nodes s') a = key"
    "\<And>b. b \<noteq> a \<Longrightarrow> key_of (ut_nodes s') b = key_of (ut_nodes s) b"
    "dom (ut_nodes s') = insert a (dom (ut_nodes s))"
proof -
  let ?m = "linked_in s as a key" and ?first = "case ut_head s of None \<Rightarrow> Some a | Some p \<Rightarrow> Some p"
  define t where "t = (if as = [] then HASH_MAKE_TABLE a else (ut_tbl s)\<lparr>ut_tail := a\<rparr>)"
  define j where "j = (if as = [] then 5 else k)"
  note L = linked_in_rep [OF r a key]
  have tr: "tbl_rep t ?m j as"
    using make_table_rep tbl_rep_cong [OF ut_repD(5) [OF r] L(5)] by (auto simp: t_def j_def tbl_rep_tail)
  then have nb: "num_buckets t = 2 ^ j" by (simp add: tbl_rep_def)
  obtain h where h: "?m a = Some h" "hh_hashv h = HASH_JEN key" "hh_key h = key" using L(3) by blast
  have nd: "\<exists>h. ?m b = Some h" if "b \<in> set as" for b using L(2) [of b] that by auto
  have "j < 31" using k by (simp add: j_def)
  then obtain t' m' k' where R: "HASH_ADD_TO_BKT (HASH_TO_BKT (HASH_JEN key) (2 ^ j)) a (t\<lparr>num_items := num_items t + 1\<rparr>) ?m = Some (t', m')"
      "tbl_rep t' m' k' (as @ [a])" "rest_kept ?m m'" "ut_tail t' = ut_tail t"
    using add_to_bkt_rep [OF tr h(1) a len _ nd] unfolding h(2) by blast
  define s' where "s' = s\<lparr>ut_head := ?first, ut_tbl := t', ut_nodes := m'\<rparr>"
  have tl: "ut_tail t = a" by (simp add: t_def HASH_MAKE_TABLE_def)
  have st: "HASH_ADD_STR s a key = Some s'"
  proof (cases "as = []")
    case True
    then have "ut_head s = None" using r by (simp add: ut_rep_def)
    then show ?thesis
      using R(1) nb True by (simp add: HASH_ADD_STR_def s'_def t_def linked_in_def new_node_def Let_def)
  next
    case False
    note U = ut_repD [OF r False]
    have hd: "ut_head s = Some (hd as)" using U(2) False by (rule seg_first)
    have la: "last as \<noteq> a" using a last_in_set [OF False] by auto
    then have "at_node (last as) (el_next_update (\<lambda>_. Some a)) ((ut_nodes s)(a \<mapsto> new_node key (Some (last as)))) = Some ?m"
      using U(4) [OF last_in_set [OF False]] False by (subst at_node_set_at) (auto simp: linked_in_def)
    then show ?thesis
      using R(1) nb False hd U(3) by (simp add: HASH_ADD_STR_def s'_def t_def new_node_def Let_def)
  qed
  note V = rest_kept_views [OF R(3)]
  have "ut_rep s' k' (as @ [a])"
  proof -
    have "distinct (as @ [a])" using a ut_repD(1) [OF r] by (cases "as = []") simp_all
    moreover have "chain el_prev el_next m' ?first (as @ [a])" using L(1) V(3) by blast
    ultimately show ?thesis using L(2) R(2,4) tl by (simp add: ut_rep_def s'_def V(4) del: seg.simps)
  qed
  moreover have "key_of (ut_nodes s') a = key" using h by (simp add: s'_def V(1) key_of_def [of ?m])
  moreover have "key_of (ut_nodes s') b = key_of (ut_nodes s) b" if "b \<noteq> a" for b using L(4) [OF that] by (simp add: s'_def V(1))
  moreover have "dom (ut_nodes s') = insert a (dom (ut_nodes s))"
    using rest_kept_dom [OF R(3)] by (simp add: s'_def linked_in_def dom_set_at)
  ultimately show ?thesis using that st by blast
qed

section \<open>Deleting\<close>

lemma chain_links:
  assumes "chain P N m p (xs @ a # ys)" and "distinct (xs @ a # ys)" and "m a = Some h"
  shows "P h = (if xs = [] then None else Some (last xs))" and "N h = (if ys = [] then None else Some (hd ys))"
    and "p = Some a \<longleftrightarrow> xs = []"
  using assms by (cases ys; cases xs; auto simp: seg_append)+

lemma unlink_ptrs:
  assumes c: "chain P N m p (xs @ a # ys)" and d: "distinct (xs @ a # ys)" and h: "m a = Some h"
  shows "\<And>y. P h = Some y \<Longrightarrow> m y \<noteq> None" "\<And>y. N h = Some y \<Longrightarrow> m y \<noteq> None"
proof -
  note l = chain_links [OF c d h] and o = seg_dom [OF c]
  show "m y \<noteq> None" if "P h = Some y" for y using l(1) o [of y] that last_in_set [of xs] by (auto split: if_splits)
  show "m y \<noteq> None" if "N h = Some y" for y using l(2) o [of y] that hd_in_set [of ys] by (auto split: if_splits)
qed

text \<open>A node leaves its bucket.\<close>

abbreviation bk_unlink :: "ut_hash_handle \<Rightarrow> ut_mem \<Rightarrow> ut_mem" where
  "bk_unlink h m \<equiv> set_at (hh_next h) (hh_prev_update (\<lambda>_. hh_prev h)) (set_at (hh_prev h) (hh_next_update (\<lambda>_. hh_next h)) m)"

lemma chains_remove:
  assumes c: "ut_chains m bs cs" and b: "b < length cs" and f: "\<And>i x. i < length cs \<Longrightarrow> x \<in> set (cs ! i) \<Longrightarrow> f x = i"
    and d: "distinct (cs ! b)" and a: "cs ! b = xs @ a # ys" and h: "m a = Some h"
    and nb: "hh_head nb = (if hh_head (bs ! b) = Some a then hh_next h else hh_head (bs ! b))" "b_count nb = b_count (bs ! b) - 1"
  shows "ut_chains (bk_unlink h m) (bs[b := nb]) (cs[b := xs @ ys])"
proof -
  have l: "length bs = length cs" and ch: "\<And>i. i < length cs \<Longrightarrow> chain hh_prev hh_next m (hh_head (bs ! i)) (cs ! i)"
    and ct: "\<And>i. i < length cs \<Longrightarrow> b_count (bs ! i) = of_nat (length (cs ! i))"
    using c by (simp_all add: ut_chains_def)
  have cb: "chain hh_prev hh_next m (hh_head (bs ! b)) (xs @ a # ys)" "distinct (xs @ a # ys)" using ch [OF b] d a by simp_all
  note lk = chain_links [OF cb h]
  have "hh_head nb = (if hh_prev h = None then hh_next h else hh_head (bs ! b))" using lk(1,3) nb(1) by simp
  then have "chain hh_prev hh_next (bk_unlink h m) (hh_head nb) (xs @ ys)" using bk.remove_node [OF cb h] by (simp only:)
  moreover have "chain hh_prev hh_next (bk_unlink h m) (hh_head (bs ! i)) (cs ! i)" if i: "i < length cs" "i \<noteq> b" for i
  proof -
    have out: "x \<notin> set (cs ! i)" if "x \<in> set (xs @ a # ys)" for x using f [OF b, of x] f [OF i(1), of x] i(2) that a by auto
    have "hh_prev h \<notin> Some ` set (cs ! i)" "hh_next h \<notin> Some ` set (cs ! i)"
      using lk(1,2) out [of "last xs"] out [of "hd ys"] last_in_set [of xs] hd_in_set [of ys] by auto
    then show ?thesis using ch [OF i(1)] by (simp add: seg_set_at_outside)
  qed
  moreover have "b_count nb = of_nat (length (xs @ ys))" using ct [OF b] nb(2) a by simp
  ultimately show ?thesis using l b ct by (auto simp: ut_chains_def nth_list_update)
qed

lemma filed_remove:
  assumes "filed m k as cs" and "bkt_of m k a < 2 ^ k" and "cs ! bkt_of m k a = xs @ a # ys" and "distinct as"
  shows "filed m k (remove1 a as) (cs[bkt_of m k a := xs @ ys])"
proof -
  have f: "length cs = 2 ^ k" "\<And>i. i < 2 ^ k \<Longrightarrow> distinct (cs ! i) \<and> set (cs ! i) = {x \<in> set as. bkt_of m k x = i}"
    using assms(1) by (simp_all add: filed_def)
  have b: "distinct (xs @ a # ys)" "set (xs @ a # ys) = {x \<in> set as. bkt_of m k x = bkt_of m k a}"
    using f(2) [OF assms(2)] assms(3) by simp_all
  have "set (xs @ ys) = set (xs @ a # ys) - {a}" using b(1) by auto
  then have r: "set (xs @ ys) = {x \<in> set (remove1 a as). bkt_of m k x = bkt_of m k a}" using b(2) assms(4) by auto
  have d: "distinct (xs @ ys)" using b(1) by simp
  have o: "set (cs ! i) = {x \<in> set (remove1 a as). bkt_of m k x = i}" if "i < 2 ^ k" "i \<noteq> bkt_of m k a" for i
    using f(2) [OF that(1)] that(2) assms(4) by auto
  have "distinct (cs[bkt_of m k a := xs @ ys] ! i) \<and> set (cs[bkt_of m k a := xs @ ys] ! i) = {x \<in> set (remove1 a as). bkt_of m k x = i}"
    if "i < 2 ^ k" for i
    by (cases "i = bkt_of m k a") (use r d o [OF that] f assms(2) that in simp_all)
  then show ?thesis using f(1) by (simp add: filed_def)
qed

lemma ptr_ok: "(\<And>y. p = Some y \<Longrightarrow> m y \<noteq> None) \<Longrightarrow> at_ptr p f m = Some (set_at p f m)"
  by (rule at_ptr_set_at) (auto split: option.splits)

lemma del_in_bkt_rep:
  assumes t: "tbl_rep t m k as" and a: "a \<in> set as" and h: "m a = Some h" and d: "distinct as"
  defines "m' \<equiv> bk_unlink h m"
  shows "\<exists>t'. HASH_DEL_IN_BKT (HASH_TO_BKT (hh_hashv h) (2 ^ k)) a t m = Some (t', m')
     \<and> tbl_rep (t'\<lparr>num_items := num_items t' - 1\<rparr>) m' k (remove1 a as) \<and> ut_tail t' = ut_tail t"
proof -
  obtain cs where cs: "ut_chains m (buckets t) cs" "filed m k as cs" using t unfolding tbl_rep_def by blast
  have T: "k < 32" "num_buckets t = 2 ^ k" "log2_num_buckets t = of_nat k" "num_items t = of_nat (length as)"
    using t by (simp_all add: tbl_rep_def)
  define b where "b = HASH_TO_BKT (hh_hashv h) (2 ^ k)"
  have b: "b < 2 ^ k" "bkt_of m k a = b" using T(1) bucket_bound h by (simp_all add: b_def bkt_of_def)
  have ln: "length cs = 2 ^ k" "length (buckets t) = 2 ^ k" using cs by (simp_all add: ut_chains_def filed_def)
  have fil: "distinct (cs ! i)" "set (cs ! i) = {x \<in> set as. bkt_of m k x = i}" if "i < length cs" for i
    using cs(2) that ln by (simp_all add: filed_def)
  obtain xs ys where xy: "cs ! b = xs @ a # ys" using fil(2) [of b] b a ln split_list [of a "cs ! b"] by auto
  have cb: "chain hh_prev hh_next m (hh_head (buckets t ! b)) (xs @ a # ys)" "distinct (xs @ a # ys)"
    using cs(1) b(1) ln fil(1) [of b] xy by (auto simp: ut_chains_def)
  let ?bk = "buckets t ! b"
  let ?nb = "?bk\<lparr>b_count := b_count ?bk - 1, hh_head := (if hh_head ?bk = Some a then hh_next h else hh_head ?bk)\<rparr>"
  define t' where "t' = t\<lparr>buckets := (buckets t)[b := ?nb]\<rparr>"
  have bt: "buckets t' = (buckets t)[b := ?nb]" by (simp add: t'_def)
  have ch: "ut_chains m' (buckets t') (cs[b := xs @ ys])"
    unfolding m'_def bt by (rule chains_remove [where f = "bkt_of m k", OF cs(1) _ _ _ xy h]) (use b(1) ln cb(2) fil(2) xy in simp_all)
  have vw: "map_option bkt (m' x) = map_option bkt (m x)" if "\<And>y h. bkt (hh_prev_update y h) = bkt h" "\<And>y h. bkt (hh_next_update y h) = bkt h"
    for bkt :: "ut_hash_handle \<Rightarrow> u32" and x
    unfolding m'_def using that by (simp add: set_at_view)
  have "bkt_of m' k x = bkt_of m k x" for x using vw [of hh_hashv x] by (cases "m x"; cases "m' x"; simp add: bkt_of_def)
  then have "filed m' k (remove1 a as) (cs[b := xs @ ys])"
    using filed_remove [OF cs(2) _ _ d, of a xs ys] b xy by (simp add: filed_def)
  moreover have "num_items t - 1 = of_nat (length (remove1 a as))"
  proof -
    obtain n where "length as = Suc n" using a by (cases as) auto
    then show ?thesis using T(4) a by (simp add: length_remove1)
  qed
  ultimately have "tbl_rep (t'\<lparr>num_items := num_items t' - 1\<rparr>) m' k (remove1 a as)"
    using ch T(1-3) unfolding tbl_rep_def by (auto simp: t'_def simp del: length_remove1)
  moreover have "HASH_DEL_IN_BKT b a t m = Some (t', m')"
    using h ln b(1) unlink_ptrs [OF cb h] unfolding HASH_DEL_IN_BKT_def Let_def m'_def t'_def
    by (simp add: ptr_ok set_at_dom)
  ultimately show ?thesis unfolding b_def [symmetric] by (auto simp: t'_def)
qed

lemma unlink_kept:
  assumes "\<And>y h. v (el_prev_update y h) = v h" "\<And>y h. v (el_next_update y h) = v h" "\<And>y h. v (hh_prev_update y h) = v h" "\<And>y h. v (hh_next_update y h) = v h"
  shows "map_option v (set_at p (el_prev_update x) (set_at q (el_next_update y) m) b) = map_option v (m b)"
    and "map_option v (bk_unlink h m b) = map_option v (m b)"
  using assms by (simp_all add: set_at_view)

lemma ut_del:
  assumes r: "ut_rep s k as" and a: "a \<in> set as"
  obtains s' where "HASH_DEL s a = Some s'" "ut_rep s' k (remove1 a as)" "\<And>b. key_of (ut_nodes s') b = key_of (ut_nodes s) b"
    "dom (ut_nodes s') = dom (ut_nodes s)"
proof -
  have ne: "as \<noteq> []" using a by auto
  note U = ut_repD [OF r ne]
  let ?m = "ut_nodes s" and ?t = "ut_tbl s"
  obtain xs ys where xy: "as = xs @ a # ys" using a split_list by metis
  obtain h where h: "?m a = Some h" using U(4) a by blast
  have el: "chain el_prev el_next ?m (ut_head s) (xs @ a # ys)" "distinct (xs @ a # ys)" using U(1,2) xy by simp_all
  note lk = chain_links [OF el h] and pk = unlink_ptrs [OF el h]
  have rem: "remove1 a as = xs @ ys" using el(2) xy by (simp add: remove1_append)
  show ?thesis
  proof (cases "xs = [] \<and> ys = []")
    case True
    then show ?thesis using that [of "s\<lparr>ut_head := None\<rparr>"] h lk rem by (simp add: HASH_DEL_def ut_rep_def)
  next
    case False
    define m1 where "m1 = set_at (el_next h) (el_prev_update (\<lambda>_. el_prev h)) (set_at (el_prev h) (el_next_update (\<lambda>_. el_next h)) ?m)"
    define t1 where "t1 = ?t\<lparr>ut_tail := last (xs @ ys)\<rparr>"
    have e1: "chain el_prev el_next m1 (if el_prev h = None then el_next h else ut_head s) (xs @ ys)"
      unfolding m1_def by (rule el.remove_node [OF el h])
    have bv: "map_option bucket_view (m1 b) = map_option bucket_view (?m b)" for b
      unfolding m1_def by (simp add: set_at_view bucket_view_def)
    have nd: "map_option node_data (m1 b) = map_option node_data (?m b)" for b
      unfolding m1_def by (simp add: set_at_view node_data_def)
    obtain h1 where h1: "m1 a = Some h1" "bucket_view h1 = bucket_view h" using bv [of a] h by auto
    have "tbl_rep t1 m1 k as" unfolding t1_def tbl_rep_tail using U(5) bv by (rule tbl_rep_cong)
    then obtain t2 where t2: "HASH_DEL_IN_BKT (HASH_TO_BKT (hh_hashv h) (2 ^ k)) a t1 m1 = Some (t2, bk_unlink h1 m1)"
        "tbl_rep (t2\<lparr>num_items := num_items t2 - 1\<rparr>) (bk_unlink h1 m1) k (remove1 a as)" "ut_tail t2 = ut_tail t1"
      using del_in_bkt_rep [of t1 m1 k as a h1, OF _ a h1(1) U(1)] h1(2) by (auto simp: bucket_view_def)
    define s' where "s' = s\<lparr>ut_head := (if el_prev h = None then el_next h else ut_head s),
        ut_tbl := t2\<lparr>num_items := num_items t2 - 1\<rparr>, ut_nodes := bk_unlink h1 m1\<rparr>"
    have nd': "map_option node_data (ut_nodes s' b) = map_option node_data (?m b)" for b
      unfolding s'_def using nd [of b] by (simp add: set_at_view node_data_def)
    have ok: "\<exists>h. ut_nodes s' b = Some h \<and> node_ok h" if b: "b \<in> set as" for b
    proof -
      obtain g where g: "?m b = Some g" "node_ok g" using U(4) [OF b] by blast
      then obtain g' where "ut_nodes s' b = Some g'" "node_data g' = node_data g" using nd' [of b] by auto
      then show ?thesis using g(2) node_ok_view [of g' g] by simp
    qed
    have "seg el_prev el_next (ut_nodes s') None p zs None = seg el_prev el_next m1 None p zs None" for p zs
      unfolding s'_def by (simp add: seg_set_at)
    then have ch: "chain el_prev el_next (ut_nodes s') (ut_head s') (xs @ ys)" using e1 by (simp add: s'_def)
    have "ut_rep s' k (remove1 a as)"
      unfolding ut_rep_def using False ch t2 ok el(2) rem xy by (auto simp: s'_def t1_def)
    moreover have "HASH_DEL s a = Some s'"
    proof -
      have tl: "(if a = ut_tail ?t then map_option (\<lambda>p. ?t\<lparr>ut_tail := p\<rparr>) (el_prev h) else Some ?t) = Some t1"
        using U(3) xy lk(1) False el(2) last_in_set [of ys] by (cases "ys = []") (auto simp: t1_def)
      have nb: "num_buckets t1 = 2 ^ k" using U(5) by (simp add: t1_def tbl_rep_def)
      have no: "\<not> (el_prev h = None \<and> el_next h = None)" using lk(1,2) False by auto
      show ?thesis
        unfolding HASH_DEL_def Let_def h tl using no pk nb t2(1)
        by (simp add: ptr_ok set_at_dom tl flip: m1_def) (auto simp: s'_def)
    qed
    moreover have "key_of (ut_nodes s') b = key_of ?m b" for b by (rule key_of_view) (rule nd')
    moreover have "dom (ut_nodes s') = dom ?m" by (simp add: s'_def m1_def dom_set_at)
    ultimately show ?thesis using that by blast
  qed
qed

section \<open>Freeing and clearing\<close>

lemma ut_rep_free:
  assumes r: "ut_rep s k as" and a: "a \<notin> set as"
  shows "ut_rep (free_node a s) k as"
proof (cases "as = []")
  case False
  note U = ut_repD [OF r False]
  let ?m = "(ut_nodes s)(a := None)"
  have same: "?m b = ut_nodes s b" if "b \<in> set as" for b using that a by auto
  have "chain el_prev el_next ?m (ut_head s) as" using U(2) same by (subst seg_cong [where m = "ut_nodes s"]) simp_all
  moreover have "tbl_rep (ut_tbl s) ?m k as" by (rule tbl_rep_cong [OF U(5)]) (simp only: same)
  moreover have "\<exists>h. ?m b = Some h \<and> node_ok h" if "b \<in> set as" for b using U(4) [OF that] same [OF that] by simp
  ultimately show ?thesis using U(1,3) False by (simp add: ut_rep_def free_node_def)
qed (use r in \<open>simp add: ut_rep_def free_node_def\<close>)

lemma ut_del_free:
  assumes r: "ut_rep s k as" and a: "a \<in> set as"
  obtains s' where "map_option (free_node a) (HASH_DEL s a) = Some s'" "ut_rep s' k (remove1 a as)"
    "\<And>b. b \<noteq> a \<Longrightarrow> key_of (ut_nodes s') b = key_of (ut_nodes s) b" "dom (ut_nodes s') = dom (ut_nodes s) - {a}"
proof -
  obtain s1 where s1: "HASH_DEL s a = Some s1" "ut_rep s1 k (remove1 a as)" "\<And>b. key_of (ut_nodes s1) b = key_of (ut_nodes s) b"
      "dom (ut_nodes s1) = dom (ut_nodes s)"
    using ut_del [OF r a] by blast
  have "distinct as" using ut_repD(1) [OF r] a by (cases "as = []") auto
  then have "ut_rep (free_node a s1) k (remove1 a as)" using s1(2) by (intro ut_rep_free) simp_all
  moreover have "key_of (ut_nodes (free_node a s1)) b = key_of (ut_nodes s) b" if "b \<noteq> a" for b
    using s1(3) [of b] that by (simp add: key_of_def free_node_def)
  moreover have "dom (ut_nodes (free_node a s1)) = dom (ut_nodes s) - {a}" using s1(4) by (simp add: free_node_def)
  ultimately show ?thesis using that s1(1) by simp
qed

lemma ut_next:
  assumes r: "ut_rep s k (a # as)"
  shows "ut_head s = Some a" "map_option el_next (ut_nodes s a) = Some (if as = [] then None else Some (hd as))"
proof -
  obtain h where h: "ut_head s = Some a" "ut_nodes s a = Some h" "seg el_prev el_next (ut_nodes s) (Some a) (el_next h) as None"
    using ut_repD(2) [OF r] by auto
  then show "ut_head s = Some a" "map_option el_next (ut_nodes s a) = Some (if as = [] then None else Some (hd as))"
    by (cases as; simp)+
qed

lemma clear_loop_empties:
  assumes "ut_rep s k as" and "cur = (if as = [] then None else Some (hd as))"
    and "tmp = (if tl as = [] then None else Some (hd (tl as)))"
  shows "\<exists>s'. clear_loop cur tmp s = Some s' \<and> ut_head s' = None \<and> dom (ut_nodes s') = dom (ut_nodes s) - set as"
  using assms
proof (induction as arbitrary: s cur tmp)
  case Nil
  then show ?case by (simp add: clear_loop.simps [of None] ut_rep_def)
next
  case (Cons a as)
  obtain s1 where s1: "map_option (free_node a) (HASH_DEL s a) = Some s1" "ut_rep s1 k as" "dom (ut_nodes s1) = dom (ut_nodes s) - {a}"
    by (rule ut_del_free [OF Cons.prems(1), of a]) simp_all
  then obtain s0 where s0: "HASH_DEL s a = Some s0" "free_node a s0 = s1" by auto
  let ?t = "if tl as = [] then None else Some (hd (tl as))"
  have "(case tmp of None \<Rightarrow> Some None | Some t \<Rightarrow> map_option el_next (ut_nodes s1 t)) = Some ?t"
  proof (cases as)
    case (Cons b bs)
    then show ?thesis using Cons.prems(3) ut_next(2) [of s1 k b bs] s1(2) by auto
  qed (use Cons.prems(3) in simp)
  moreover obtain s' where "clear_loop tmp ?t s1 = Some s'" "ut_head s' = None" "dom (ut_nodes s') = dom (ut_nodes s1) - set as"
    using Cons.IH [OF s1(2) _ refl, of tmp] Cons.prems(3) unfolding list.sel by blast
  moreover have "dom (ut_nodes s1) - set as = dom (ut_nodes s) - set (a # as)" using s1(3) by auto
  ultimately show ?case using s0 Cons.prems(2) by (simp add: clear_loop.simps [of "Some a"])
qed

lemma clear_empties:
  assumes "ut_rep s k as"
  shows "\<exists>s'. hash_clear_nodes s = Some s' \<and> ut_head s' = None \<and> dom (ut_nodes s') = dom (ut_nodes s) - set as"
proof (cases as)
  case Nil
  then show ?thesis using assms by (simp add: hash_clear_nodes_def ut_rep_def)
next
  case (Cons a bs)
  then obtain h where h: "ut_head s = Some a" "ut_nodes s a = Some h" "el_next h = (if bs = [] then None else Some (hd bs))"
    using ut_next [of s k a bs] assms by auto
  obtain s' where "clear_loop (Some a) (el_next h) s = Some s'" "ut_head s' = None" "dom (ut_nodes s') = dom (ut_nodes s) - set as"
    using clear_loop_empties [OF assms, of "Some a" "el_next h"] h(3) unfolding Cons list.sel by auto
  then show ?thesis using h by (simp add: hash_clear_nodes_def)
qed

end
