(* ===== verification/Queue_Table.thy ===== *)
theory Queue_Table
  imports Api_Fifo Samples Uthash_Ops
begin

text \<open>
  The hash table of \<^verbatim>\<open>uthash.h\<close> implements the list of nodes that the model of the queue manager works on: the
  interface of a table as a locale, its interpretation by the pointer-level operations, and the states that
  sequences of operations reach.
\<close>

section \<open>The interface of a table\<close>

text \<open>
  States that additions of new keys and removals reach. \<open>fresh\<close>: the allocator may return the node; \<open>room\<close>: the key
  fits and the table may still grow.
\<close>

inductive table_reach ::
    "('s \<Rightarrow> string \<Rightarrow> nat option option) \<Rightarrow> ('s \<Rightarrow> nat \<Rightarrow> string \<Rightarrow> 's option) \<Rightarrow> (string \<Rightarrow> 's \<Rightarrow> 's option)
      \<Rightarrow> (nat \<Rightarrow> 's \<Rightarrow> bool) \<Rightarrow> (string \<Rightarrow> 's \<Rightarrow> bool) \<Rightarrow> 's \<Rightarrow> 's \<Rightarrow> bool"
  for find add del fresh room s0 where
  start: "table_reach find add del fresh room s0 s0"
| added: "table_reach find add del fresh room s0 s \<Longrightarrow> find s key = Some None \<Longrightarrow> fresh a s \<Longrightarrow> room key s
    \<Longrightarrow> add s a key = Some s' \<Longrightarrow> table_reach find add del fresh room s0 s'"
| removed: "table_reach find add del fresh room s0 s \<Longrightarrow> room key s \<Longrightarrow> del key s = Some s' \<Longrightarrow> table_reach find add del fresh room s0 s'"

text \<open>\<open>rep s l\<close>: the state holds the keys of \<open>l\<close> with their nodes, oldest first.\<close>

locale keyed_table =
  fixes rep :: "'s \<Rightarrow> (string \<times> nat) list \<Rightarrow> bool"
    and find :: "'s \<Rightarrow> string \<Rightarrow> nat option option"
    and add :: "'s \<Rightarrow> nat \<Rightarrow> string \<Rightarrow> 's option"
    and del :: "string \<Rightarrow> 's \<Rightarrow> 's option"
    and fresh :: "nat \<Rightarrow> 's \<Rightarrow> bool" and room :: "string \<Rightarrow> 's \<Rightarrow> bool"
  assumes keys: "rep s l \<Longrightarrow> distinct (map fst l)"
    and find_law: "rep s l \<Longrightarrow> room key s \<Longrightarrow> find s key = Some (map_of l key)"
    and add_law: "rep s l \<Longrightarrow> key \<notin> fst ` set l \<Longrightarrow> fresh a s \<Longrightarrow> room key s \<Longrightarrow> \<exists>s'. add s a key = Some s' \<and> rep s' (l @ [(key, a)])"
    and del_law: "rep s l \<Longrightarrow> room key s \<Longrightarrow> \<exists>s'. del key s = Some s' \<and> rep s' (filter (\<lambda>e. fst e \<noteq> key) l)"
begin

lemma absent: "rep s l \<Longrightarrow> room key s \<Longrightarrow> find s key = Some None \<Longrightarrow> key \<notin> fst ` set l"
  using find_law [of s l key] map_of_eq_None_iff [of l key] by simp

lemma reach_rep:
  assumes "table_reach find add del fresh room s0 s" and "rep s0 []"
  shows "\<exists>l. rep s l"
  using assms
proof (induction rule: table_reach.induct)
  case (added s key a s')
  then obtain l where l: "rep s l" by blast
  have "key \<notin> fst ` set l" by (rule absent [OF l added.hyps(4,2)])
  then show ?case using add_law [OF l _ added.hyps(3,4)] added.hyps(5) by auto
next
  case (removed s key s')
  then show ?case using del_law by fastforce
qed auto

lemma add_find:
  assumes "rep s l" and "find s key = Some None" and "fresh a s" and "room key s"
  obtains s' where "add s a key = Some s'" "rep s' (l @ [(key, a)])" "\<And>k. room k s' \<Longrightarrow> find s' k = Some (if k = key then Some a else map_of l k)"
proof -
  have new: "key \<notin> fst ` set l" by (rule absent [OF assms(1,4,2)])
  then obtain s' where s': "add s a key = Some s'" "rep s' (l @ [(key, a)])" using add_law assms by blast
  have "map_of l key = None" using new by (simp add: map_of_eq_None_iff)
  then have "map_of (l @ [(key, a)]) k = (if k = key then Some a else map_of l k)" for k
    by (auto simp: map_add_def split: option.splits)
  then show ?thesis using that s' find_law by simp
qed

lemma del_find:
  assumes "rep s l" and "room key s"
  obtains s' where "del key s = Some s'" "rep s' (filter (\<lambda>e. fst e \<noteq> key) l)" "\<And>k. room k s' \<Longrightarrow> find s' k = Some (if k = key then None else map_of l k)"
proof -
  obtain s' where s': "del key s = Some s'" "rep s' (filter (\<lambda>e. fst e \<noteq> key) l)" using del_law assms by blast
  have "map_of (filter (\<lambda>e. fst e \<noteq> key) l) k = (if k = key then None else map_of l k)" for k
    by (induction l) auto
  then show ?thesis using that s' find_law by simp
qed

end

section \<open>The hash table is such a table\<close>

definition ut_fresh :: "nat \<Rightarrow> ut_state \<Rightarrow> bool" where
  "ut_fresh a s \<longleftrightarrow> ut_nodes s a = None"

text \<open>Fewer than \<open>2 ^ 31\<close> buckets (the array of a larger table would take more than 32 GiB) and \<open>2 ^ 32 - 1\<close> nodes.\<close>

definition ut_room :: "string \<Rightarrow> ut_state \<Rightarrow> bool" where
  "ut_room key s \<longleftrightarrow>
     length key < 2 ^ 32 \<and> (ut_head s = None \<or> num_buckets (ut_tbl s) < 2 ^ 31 \<and> num_items (ut_tbl s) + 1 \<noteq> 0)"

definition table_rep :: "ut_state \<Rightarrow> (string \<times> nat) list \<Rightarrow> bool" where
  "table_rep s l \<longleftrightarrow>
     distinct (map fst l) \<and> distinct (map snd l) \<and> length l < 2 ^ 32 \<and> dom (ut_nodes s) = snd ` set l
     \<and> (\<forall>e \<in> set l. key_of (ut_nodes s) (snd e) = fst e) \<and> (\<exists>k. ut_rep s k (map snd l))"

lemma table_repD:
  assumes "table_rep s l"
  shows "distinct (map fst l)" "distinct (map snd l)" "length l < 2 ^ 32" "dom (ut_nodes s) = snd ` set l"
    "\<And>e. e \<in> set l \<Longrightarrow> key_of (ut_nodes s) (snd e) = fst e" "\<exists>k. ut_rep s k (map snd l)"
  using assms unfolding table_rep_def by blast+

lemma table_find:
  assumes r: "table_rep s l" and "length key < 2 ^ 32"
  shows "HASH_FIND s key = Some (map_of l key)"
proof -
  note K = table_repD [OF r]
  obtain k where k: "ut_rep s k (map snd l)" using K(6) by blast
  have inj: "inj_on (key_of (ut_nodes s)) (set (map snd l))"
  proof (rule inj_onI)
    fix a b
    assume "a \<in> set (map snd l)" "b \<in> set (map snd l)" and e: "key_of (ut_nodes s) a = key_of (ut_nodes s) b"
    then obtain x y where xy: "(x, a) \<in> set l" "(y, b) \<in> set l" by auto
    then have "x = y" using K(5) [OF xy(1)] K(5) [OF xy(2)] e by simp
    then show "a = b" using K(1) xy eq_key_imp_eq_value by metis
  qed
  note F = ut_find [OF k assms(2) inj]
  show ?thesis
  proof (cases "map_of l key")
    case None
    then have "key \<notin> fst ` set l" by (simp add: map_of_eq_None_iff)
    then have "key \<notin> key_of (ut_nodes s) ` set (map snd l)" using K(5) by force
    then show ?thesis using F(2) None by simp
  next
    case (Some a)
    then have m: "(key, a) \<in> set l" by (rule map_of_SomeD)
    then have "a \<in> set (map snd l)" by force
    moreover have "key_of (ut_nodes s) a = key" using K(5) [OF m] by simp
    ultimately show ?thesis using F(1) Some by simp
  qed
qed

lemma table_head: "ut_rep s k (map snd l) \<Longrightarrow> l \<noteq> [] \<Longrightarrow> ut_head s \<noteq> None"
  using seg_first [OF ut_repD(2)] by fastforce

lemma table_bound:
  assumes "ut_rep s k (map snd l)" and "length l < 2 ^ 32" and "ut_room key s"
  obtains j where "ut_rep s j (map snd l)" "j < 31" "Suc (length l) < 2 ^ 32"
proof (cases "l = []")
  case True
  then show thesis using that [of 0] assms(1) by (simp add: ut_rep_def)
next
  case False
  have T: "tbl_rep (ut_tbl s) (ut_nodes s) k (map snd l)" using ut_repD(5) [OF assms(1)] False by simp
  have R: "num_buckets (ut_tbl s) < 2 ^ 31" "num_items (ut_tbl s) + 1 \<noteq> 0"
    using table_head [OF assms(1) False] assms(3) unfolding ut_room_def by auto
  have "k < 31" using T R(1) by (cases "k = 31") (auto simp: tbl_rep_def)
  moreover have "Suc (length l) \<noteq> 2 ^ 32"
  proof
    assume "Suc (length l) = 2 ^ 32"
    then have "(of_nat (Suc (length l)) :: u32) = of_nat (2 ^ 32)" by (simp only:)
    then show False using R(2) T by (simp add: tbl_rep_def)
  qed
  ultimately show thesis using that assms(1,2) by simp
qed

lemma table_add:
  assumes r: "table_rep s l" and new: "key \<notin> fst ` set l" and a: "ut_fresh a s" and room: "ut_room key s"
  shows "\<exists>s'. HASH_ADD_STR s a key = Some s' \<and> table_rep s' (l @ [(key, a)])"
proof -
  note K = table_repD [OF r]
  have na: "a \<notin> snd ` set l" using a unfolding K(4) [symmetric] by (simp add: ut_fresh_def domIff)
  obtain k where "ut_rep s k (map snd l)" using K(6) by blast
  then obtain j where j: "ut_rep s j (map snd l)" "j < 31" "Suc (length l) < 2 ^ 32" using table_bound K(3) room by blast
  have key: "length key < 2 ^ 32" using room by (simp add: ut_room_def)
  obtain s' k' where s': "HASH_ADD_STR s a key = Some s'" "ut_rep s' k' (map snd l @ [a])" "key_of (ut_nodes s') a = key"
      "\<And>b. b \<noteq> a \<Longrightarrow> key_of (ut_nodes s') b = key_of (ut_nodes s) b" "dom (ut_nodes s') = insert a (dom (ut_nodes s))"
    using ut_add [OF j(1) _ key j(2), of a] na j(3) by auto
  have "key_of (ut_nodes s') (snd e) = fst e" if "e \<in> set (l @ [(key, a)])" for e
  proof (cases "e \<in> set l")
    case True
    then have "snd e \<noteq> a" using na by auto
    then show ?thesis using s'(4) K(5) [OF True] by simp
  qed (use that s'(3) in simp)
  then show ?thesis using s'(1,2,5) K(1,2,4) j(3) na new unfolding table_rep_def by auto
qed

lemma table_del:
  assumes r: "table_rep s l" and key: "length key < 2 ^ 32"
  shows "\<exists>s'. hash_del_node key s = Some s' \<and> table_rep s' (filter (\<lambda>e. fst e \<noteq> key) l)"
proof (cases "map_of l key")
  case None
  then have "filter (\<lambda>e. fst e \<noteq> key) l = l" by (auto simp: map_of_eq_None_iff filter_id_conv)
  then show ?thesis using table_find [OF r key] None r by (simp add: hash_del_node_def)
next
  case (Some a)
  note K = table_repD [OF r]
  obtain k where k: "ut_rep s k (map snd l)" using K(6) by blast
  obtain xs ys where l: "l = xs @ (key, a) # ys" using map_of_SomeD [OF Some] split_list by metis
  have "filter (\<lambda>e. fst e \<noteq> key) xs = xs" "filter (\<lambda>e. fst e \<noteq> key) ys = ys"
    using K(1) l by (auto intro!: filter_True)
  then have f: "filter (\<lambda>e. fst e \<noteq> key) l = xs @ ys" using l by simp
  have m: "remove1 a (map snd l) = map snd (xs @ ys)" using K(2) l by (auto simp: remove1_append)
  obtain s' where s': "map_option (free_node a) (HASH_DEL s a) = Some s'" "ut_rep s' k (remove1 a (map snd l))"
      "\<And>b. b \<noteq> a \<Longrightarrow> key_of (ut_nodes s') b = key_of (ut_nodes s) b" "dom (ut_nodes s') = dom (ut_nodes s) - {a}"
    using ut_del_free [OF k, of a] l by auto
  have na: "a \<notin> snd ` set (xs @ ys)" using K(2) l by auto
  have "key_of (ut_nodes s') (snd e) = fst e" if e: "e \<in> set (xs @ ys)" for e
  proof -
    have "snd e \<noteq> a" "e \<in> set l" using e na l by auto
    then show ?thesis using s'(3) K(5) by simp
  qed
  moreover have "dom (ut_nodes s') = snd ` set (xs @ ys)" unfolding s'(4) K(4) using na l by auto
  ultimately have "table_rep s' (xs @ ys)" using s'(2) K(1-3) l unfolding m table_rep_def by auto
  moreover have "hash_del_node key s = Some s'" using table_find [OF r key] Some s'(1) by (simp add: hash_del_node_def)
  ultimately show ?thesis using f by simp
qed

interpretation ut: keyed_table table_rep HASH_FIND HASH_ADD_STR hash_del_node ut_fresh ut_room
proof
  show "distinct (map fst l)" if "table_rep s l" for s l using that by (rule table_repD)
  show "HASH_FIND s key = Some (map_of l key)" if "table_rep s l" "ut_room key s" for s l key
    using that by (intro table_find) (simp_all add: ut_room_def)
  show "\<exists>s'. HASH_ADD_STR s a key = Some s' \<and> table_rep s' (l @ [(key, a)])"
    if "table_rep s l" "key \<notin> fst ` set l" "ut_fresh a s" "ut_room key s" for s l key a
    using that by (rule table_add)
  show "\<exists>s'. hash_del_node key s = Some s' \<and> table_rep s' (filter (\<lambda>e. fst e \<noteq> key) l)"
    if "table_rep s l" "ut_room key s" for s l key
    using that by (intro table_del) (simp_all add: ut_room_def)
qed

section \<open>The list of the queue manager\<close>

text \<open>\<open>same_keys l qs\<close>: the nodes \<open>l\<close> of the table are the nodes of the list \<open>qs\<close>, in the same order.\<close>

abbreviation same_keys :: "(string \<times> nat) list \<Rightarrow> mq_queue_list \<Rightarrow> bool" where
  "same_keys l qs \<equiv> map fst l = map fst qs"

lemma hash_find_map_of:
  "distinct (map fst l) \<Longrightarrow> same_keys l qs \<Longrightarrow> map_of l key = map_option (\<lambda>i. snd (l ! i)) (hash_find key qs)"
proof (induction qs arbitrary: l)
  case (Cons q qs)
  then obtain e l' where l: "l = e # l'" "fst e = fst q" "same_keys l' qs" by (cases l) auto
  have IH: "map_of l' key = map_option (\<lambda>i. snd (l' ! i)) (hash_find key qs)" using Cons.IH [of l'] Cons.prems l by simp
  have "map_of l' key = None" if "fst e = key" using Cons.prems(1) l(1) that by (auto simp: map_of_eq_None_iff)
  then show ?case using IH l by (cases e) (auto split: option.splits)
qed simp

lemma hash_del_filter: "distinct (map fst qs) \<Longrightarrow> hash_del_queue key qs = filter (\<lambda>e. fst e \<noteq> key) qs"
proof (induction qs)
  case (Cons q qs)
  then have IH: "hash_del_queue key qs = filter (\<lambda>e. fst e \<noteq> key) qs" by simp
  show ?case
  proof (cases "hash_find key qs")
    case None
    then have "filter (\<lambda>e. fst e \<noteq> key) qs = qs" by (intro filter_True) (auto simp: hash_find_None)
    then show ?thesis using None by (simp add: hash_del_queue_def)
  next
    case (Some i)
    then have "key \<in> fst ` set qs" using hash_find_None [of key qs] by auto
    then have "fst q \<noteq> key" using Cons.prems by auto
    then show ?thesis using IH Some by (simp add: hash_del_queue_def)
  qed
qed (simp add: hash_del_queue_def)

lemma map_fst_filter: "map fst (filter (\<lambda>e. fst e \<noteq> key) l) = filter (\<lambda>x. x \<noteq> key) (map fst l)"
  by (simp add: filter_map comp_def)

lemma del_same_keys:
  assumes "distinct (map fst l)" and "same_keys l qs"
  shows "same_keys (filter (\<lambda>e. fst e \<noteq> key) l) (hash_del_queue key qs)"
  using assms hash_del_filter [of qs key] by (simp add: map_fst_filter)

section \<open>Properties\<close>

text \<open>An empty table.\<close>

definition ut_empty :: ut_state where
  "ut_empty = \<lparr>ut_head = None, ut_tbl = HASH_MAKE_TABLE 0, ut_nodes = Map.empty\<rparr>"

lemma empty_rep: "table_rep ut_empty []"
  by (simp add: table_rep_def ut_rep_def ut_empty_def)

lemma empty_room: "length key < 2 ^ 32 \<Longrightarrow> ut_room key ut_empty" "ut_fresh a ut_empty"
  by (simp_all add: ut_room_def ut_fresh_def ut_empty_def)

text \<open>A table with one queue, for examples.\<close>

lemma one_queue:
  obtains s where "table_rep s [(''q'', 7)]" "table_reach HASH_FIND HASH_ADD_STR hash_del_node ut_fresh ut_room ut_empty s"
proof -
  have n: "HASH_FIND ut_empty ''q'' = Some None" using table_find [OF empty_rep, of "''q''"] by simp
  have r: "ut_room ''q'' ut_empty" by (rule empty_room) simp
  obtain s where s: "HASH_ADD_STR ut_empty 7 ''q'' = Some s" "table_rep s ([] @ [(''q'', 7)])"
    using ut.add_find [OF empty_rep n empty_room(2) r, of 7] by blast
  have "table_reach HASH_FIND HASH_ADD_STR hash_del_node ut_fresh ut_room ut_empty s"
    by (rule table_reach.added [where s = ut_empty, OF table_reach.start]) (rule n, rule empty_room(2), rule r, rule s(1))
  then show ?thesis using that s(2) by simp
qed

text \<open>
  C38. Searching one bucket of the hash table finds the node that a search of the whole list of the queue manager
  finds, or nothing when the list has no such queue.
\<close>

theorem table_find_agrees:
  assumes "table_rep s l" and "same_keys l qs" and "length qname < 2 ^ 32"
  shows "HASH_FIND s qname = Some (map_option (\<lambda>i. snd (l ! i)) (hash_find_queue_by_key qname qs))"
  using table_find [OF assms(1,3)] hash_find_map_of [OF table_repD(1) [OF assms(1)] assms(2), of qname]
  by (simp add: hash_find_queue_by_key_def)

theorem table_find_agrees_witness:
  "\<exists>s. table_rep s [(''q'', 7)] \<and> HASH_FIND s ''q'' = Some (Some 7) \<and> HASH_FIND s ''p'' = Some None"
proof -
  obtain s where s: "table_rep s [(''q'', 7)]" by (rule one_queue)
  have e: "hash_find_queue_by_key ''q'' [(''q'', zero_queue)] = Some 0" "hash_find_queue_by_key ''p'' [(''q'', zero_queue)] = None"
    by (simp_all add: hash_find_queue_by_key_def)
  show ?thesis
    using s table_find_agrees [OF s, of "[(''q'', zero_queue)]" "''q''"] table_find_agrees [OF s, of "[(''q'', zero_queue)]" "''p''"]
    by (auto simp: e)
qed

text \<open>
  C12. Adding a queue whose name is not in the table: the table, with its doubly linked lists, its buckets and their
  expansion, stays well formed and its nodes are those of the list of the queue manager after \<^verbatim>\<open>hash_add_queue_kv\<close>,
  the new node last; its pointer is the one the list model returns.
\<close>

theorem table_add_refines:
  assumes "table_rep s l" and "same_keys l qs" and "HASH_FIND s qname = Some None" and "ut_fresh a s" and "ut_room qname s"
    and "hash_add_queue_kv qname q qs w = Some (Some i, qs', w')"
  shows "\<exists>s'. HASH_ADD_STR s a qname = Some s' \<and> table_rep s' (l @ [(qname, a)]) \<and> same_keys (l @ [(qname, a)]) qs' \<and> snd ((l @ [(qname, a)]) ! i) = a"
proof -
  have "qs' = qs @ [(qname, q)]" "i = length qs"
    using assms(6) by (auto simp: hash_add_queue_kv_def Let_def split: prod.splits if_splits)
  moreover have "length l = length qs" using arg_cong [OF assms(2), of length] by simp
  moreover obtain s' where "HASH_ADD_STR s a qname = Some s'" "table_rep s' (l @ [(qname, a)])"
    using ut.add_find [OF assms(1,3-5)] by blast
  ultimately show ?thesis using assms(2) by (auto simp: nth_append)
qed

theorem table_add_refines_witness:
  "\<exists>s'. HASH_ADD_STR ut_empty 7 ''q'' = Some s' \<and> table_rep s' [(''q'', 7)]"
proof -
  have n: "HASH_FIND ut_empty ''q'' = Some None" using table_find [OF empty_rep, of "''q''"] by simp
  have r: "ut_room ''q'' ut_empty" by (rule empty_room) simp
  have a: "hash_add_queue_kv ''q'' zero_queue [] data_world = Some (Some 0, [(''q'', zero_queue)], data_world)"
    by (simp add: hash_add_queue_kv_def sys_malloc_def next_outcome_def data_world_def store_consts)
  show ?thesis using table_add_refines [OF empty_rep _ n empty_room(2) r a, of 7] by simp
qed

text \<open>
  C13. Deleting a queue by name: the table stays well formed, the node leaves both of its linked lists and is freed,
  and what remains is the list of the queue manager after \<^verbatim>\<open>hash_del_queue\<close>; an unknown name changes nothing.
\<close>

theorem table_del_refines:
  assumes "table_rep s l" and "same_keys l qs" and "length qname < 2 ^ 32"
  shows "\<exists>s'. hash_del_node qname s = Some s' \<and> table_rep s' (filter (\<lambda>e. fst e \<noteq> qname) l)
     \<and> same_keys (filter (\<lambda>e. fst e \<noteq> qname) l) (hash_del_queue qname qs)"
  using table_del [OF assms(1,3)] del_same_keys [OF table_repD(1) [OF assms(1)] assms(2)] by blast

theorem table_del_refines_witness:
  "\<exists>s s'. table_rep s [(''q'', 7)] \<and> hash_del_node ''q'' s = Some s' \<and> table_rep s' [] \<and> hash_del_queue ''q'' [(''q'', zero_queue)] = []"
proof -
  obtain s where s: "table_rep s [(''q'', 7)]" by (rule one_queue)
  show ?thesis using s table_del_refines [OF s, of "[(''q'', zero_queue)]" "''q''"] by auto
qed

text \<open>
  C40. Clearing the table ends, with every node deleted and freed: the iteration reads the next node before the body
  frees the current one.
\<close>

theorem table_clear_returns:
  assumes "table_rep s l"
  shows "\<exists>s'. hash_clear_nodes s = Some s' \<and> table_rep s' [] \<and> ut_nodes s' = Map.empty"
proof -
  obtain k where "ut_rep s k (map snd l)" using table_repD(6) [OF assms] by blast
  then obtain s' where s': "hash_clear_nodes s = Some s'" "ut_head s' = None" "dom (ut_nodes s') = dom (ut_nodes s) - set (map snd l)"
    using clear_empties by blast
  then have "ut_nodes s' = Map.empty" using table_repD(4) [OF assms] unfolding dom_eq_empty_conv [symmetric] by simp
  then show ?thesis using s'(1,2) by (simp add: table_rep_def ut_rep_def)
qed

theorem table_clear_returns_witness:
  "\<exists>s s'. table_rep s [(''q'', 7)] \<and> hash_clear_nodes s = Some s' \<and> ut_nodes s' = Map.empty"
proof -
  obtain s where s: "table_rep s [(''q'', 7)]" by (rule one_queue)
  show ?thesis using s table_clear_returns [OF s] by blast
qed

text \<open>
  C39. Whatever queues are added and deleted, from the empty table, the table is well formed: the nodes of some list
  with distinct names, each in the bucket of its hash value, in \<open>2 ^ k\<close> buckets, so every search returns (no bucket
  index is out of range and no pointer dangles).
\<close>

theorem reached_table_well_formed:
  assumes "table_reach HASH_FIND HASH_ADD_STR hash_del_node ut_fresh ut_room ut_empty s"
  shows "\<exists>l. table_rep s l \<and> (\<forall>qname. length qname < 2 ^ 32 \<longrightarrow> HASH_FIND s qname = Some (map_of l qname))"
  using ut.reach_rep [OF assms empty_rep] table_find by blast

theorem reached_table_well_formed_witness:
  "\<exists>s. table_reach HASH_FIND HASH_ADD_STR hash_del_node ut_fresh ut_room ut_empty s \<and> (\<exists>l. table_rep s l)"
proof -
  obtain s where s: "table_reach HASH_FIND HASH_ADD_STR hash_del_node ut_fresh ut_room ut_empty s" by (rule one_queue)
  show ?thesis using s reached_table_well_formed [OF s] by blast
qed

end
