(* ===== verification/Reopen_Scan.thy ===== *)
theory Reopen_Scan
  imports Fifo_Rep Store_File
begin

text \<open>
  Finding the files of a queue again: \<^verbatim>\<open>find_handle_file\<close> on a directory that holds the data files of a range of
  indices and one tag file of each kind recovers the first and the last index, in whatever order the directory
  lists the names.
\<close>

section \<open>Names are ordered like their indices\<close>

lemma dec_value_Cons: "dec_value (d # ds) = d * 10 ^ length ds + dec_value ds"
proof (induction ds rule: rev_induct)
  case (snoc x xs)
  have "dec_value (d # xs @ [x]) = dec_value (d # xs) * 10 + x" using dec_value_snoc [of "d # xs" x] by simp
  then show ?case using snoc by (simp add: algebra_simps)
qed (simp add: dec_value_def)

lemma dec_value_lt: "\<forall>d \<in> set ds. d < 10 \<Longrightarrow> dec_value ds < 10 ^ length ds"
proof (induction ds)
  case (Cons d ds)
  then have "dec_value ds < 10 ^ length ds" "d \<le> 9" by auto
  moreover have "d * 10 ^ length ds \<le> 9 * 10 ^ length ds" using calculation(2) by (rule mult_le_mono1)
  ultimately have "dec_value (d # ds) < 9 * 10 ^ length ds + 10 ^ length ds" unfolding dec_value_Cons by linarith
  then show ?case by simp
qed simp

lemma of_digit_char: "d < 10 \<Longrightarrow> (of_char (digit_char d) :: nat) = 48 + d"
  by (simp add: digit_char_def of_char_of)

lemma strcmp_digits:
  "length xs = length ys \<Longrightarrow> \<forall>d \<in> set xs. d < 10 \<Longrightarrow> \<forall>d \<in> set ys. d < 10 \<Longrightarrow>
   strcmp (map digit_char xs) (map digit_char ys) = (if dec_value xs < dec_value ys then -1 else if dec_value ys < dec_value xs then 1 else 0)"
proof (induction xs ys rule: list_induct2)
  case (Cons x xs y ys)
  have b: "dec_value xs < 10 ^ length xs" "dec_value ys < 10 ^ length xs"
    using dec_value_lt [of xs] dec_value_lt [of ys] Cons by auto
  have less: "a * 10 ^ n + u < b * 10 ^ n + v" if "a < b" "u < 10 ^ n" for a b u v n :: nat
  proof -
    have "a * 10 ^ n + u < Suc a * 10 ^ n" using that(2) by simp
    also have "\<dots> \<le> b * 10 ^ n" using that(1) by (intro mult_le_mono1) simp
    finally show ?thesis by simp
  qed
  consider "x < y" | "y < x" | "x = y" by linarith
  then show ?case
  proof cases
    case 1
    then show ?thesis using Cons.hyps Cons.prems less [OF 1 b(1), of "dec_value ys"] by (simp add: of_digit_char dec_value_Cons)
  next
    case 2
    then show ?thesis using Cons.hyps Cons.prems less [OF 2 b(2), of "dec_value xs"] by (simp add: of_digit_char dec_value_Cons)
  next
    case 3
    then show ?thesis using Cons by (simp add: dec_value_Cons)
  qed
qed simp

lemma strcmp_prefix: "strcmp (p @ a) (p @ b) = strcmp a b"
  by (induction p) auto

definition index_ok :: "u64 \<Rightarrow> bool" where
  "index_ok i \<longleftrightarrow> unat i < 10 ^ 12"

lemma strcmp_index:
  assumes "index_ok i" "index_ok j"
  shows "strcmp (fmt_index i) (fmt_index j) = (if i < j then -1 else if j < i then 1 else 0)"
proof -
  have l: "length (pad_digits 12 (unat i)) = length (pad_digits 12 (unat j))"
    using assms length_pad_digits [of "unat i" 11] length_pad_digits [of "unat j" 11] by (simp add: index_ok_def)
  show ?thesis
    using strcmp_digits [OF l] pad_digits_lt_10 by (auto simp: fmt_index_def dec_simps word_less_nat_alt)
qed

lemma strcmp_db_name: "index_ok i \<Longrightarrow> index_ok j \<Longrightarrow> strcmp (db_name i) (db_name j) = (if i < j then -1 else if j < i then 1 else 0)"
  unfolding db_name_def strcmp_prefix by (rule strcmp_index)

section \<open>The index of a name\<close>

lemma atoll_digits_map: "\<forall>d \<in> set ds. d < 10 \<Longrightarrow> atoll_digits a (map digit_char ds) = foldl (\<lambda>acc d. acc * 10 + d) a ds"
  by (induction ds arbitrary: a) (auto simp: char_digit_def of_digit_char)

lemma atoll_sign_digits:
  assumes "\<forall>d \<in> set ds. d < 10"
  shows "atoll_sign (map digit_char ds) = int (atoll_digits 0 (map digit_char ds))"
proof (cases ds)
  case (Cons d ds')
  then have "(of_char (digit_char d) :: nat) = 48 + d" "d < 10" using assms of_digit_char by auto
  then have "digit_char d \<noteq> CHR ''-''" "digit_char d \<noteq> CHR ''+''" by auto
  then show ?thesis using Cons by (cases "digit_char d # map digit_char ds'" rule: atoll_sign.cases) auto
qed simp

lemma atoll_index:
  assumes "index_ok i"
  shows "atoll (fmt_index i) = int (unat i)"
proof -
  let ?ds = "pad_digits 12 (unat i)"
  have ds: "\<forall>d \<in> set ?ds. d < 10" using pad_digits_lt_10 by blast
  have "\<not> is_space (digit_char d)" if "d < 10" for d using that by (auto simp: is_space_def of_digit_char)
  then have "dropWhile is_space (map digit_char ?ds) = map digit_char ?ds" using ds by (cases ?ds) auto
  then have "atoll_sign (dropWhile is_space (fmt_index i)) = int (dec_value ?ds)"
    using atoll_sign_digits [OF ds] atoll_digits_map [OF ds, of 0] by (simp add: fmt_index_def dec_value_def)
  moreover have "int (unat i) < 10 ^ 12" using assms by (simp add: index_ok_def del: of_nat_unat)
  ultimately show ?thesis by (simp add: atoll_def dec_simps del: of_nat_unat)
qed

lemma index_no_underscore: "c \<in> set (fmt_index i) \<Longrightarrow> c \<noteq> CHR ''_''"
proof
  assume "c \<in> set (fmt_index i)" "c = CHR ''_''"
  then obtain d where "d \<in> set (pad_digits 12 (unat i))" "digit_char d = CHR ''_''" by (auto simp: fmt_index_def)
  then have "d < 10" "digit_char d = CHR ''_''" using pad_digits_lt_10 by blast+
  then show False using of_digit_char [of d] by simp
qed

lemma tokens_two:
  assumes "p \<noteq> []" "CHR ''_'' \<notin> set p" "s \<noteq> []" "CHR ''_'' \<notin> set s"
  shows "tokens (CHR ''_'') (p @ CHR ''_'' # s) = [p, s]"
proof -
  have tw: "takeWhile ((\<noteq>) (CHR ''_'')) x = x" "dropWhile ((\<noteq>) (CHR ''_'')) x = []" if "CHR ''_'' \<notin> set x" for x
    using that by (auto simp: takeWhile_eq_all_conv dropWhile_eq_Nil_conv)
  have e: "tokens (CHR ''_'') [] = []" by (subst tokens.simps) simp
  have s: "tokens (CHR ''_'') s = [s]"
  proof (cases s)
    case (Cons c cs)
    then have d: "dropWhile ((=) (CHR ''_'')) s = c # cs" using assms(4) by auto
    have t: "takeWhile ((\<noteq>) (CHR ''_'')) (c # cs) = s" "dropWhile ((\<noteq>) (CHR ''_'')) cs = []"
      using Cons assms(4) tw [of s] tw [of cs] by simp_all
    show ?thesis unfolding tokens.simps [of _ s] d list.case t e ..
  qed (use assms(3) in simp)
  have u: "tokens (CHR ''_'') (CHR ''_'' # s) = tokens (CHR ''_'') s"
    unfolding tokens.simps [of _ "CHR ''_'' # s"] tokens.simps [of _ s] by simp
  obtain c cs where c: "p = c # cs" using assms(1) by (cases p) auto
  then have d: "dropWhile ((=) (CHR ''_'')) (p @ CHR ''_'' # s) = c # (cs @ CHR ''_'' # s)" using assms(2) by auto
  have t: "takeWhile ((\<noteq>) (CHR ''_'')) (c # (cs @ CHR ''_'' # s)) = p" "dropWhile ((\<noteq>) (CHR ''_'')) (cs @ CHR ''_'' # s) = CHR ''_'' # s"
    using assms(2) c by (auto simp: takeWhile_append dropWhile_append)
  show ?thesis unfolding tokens.simps [of _ "p @ CHR ''_'' # s"] d list.case t u s ..
qed

lemma get_id_names:
  assumes "index_ok i"
  shows "get_id_by_fname (db_name i) = Some i" "get_id_by_fname (rtag_name i) = Some i" "get_id_by_fname (wtag_name i) = Some i"
proof -
  have l: "length (fmt_index i) \<le> 20" "fmt_index i \<noteq> []" "CHR ''_'' \<notin> set (fmt_index i)"
    using length_fmt_index index_no_underscore by (auto simp: fmt_index_def pad_digits_def Let_def)
  have t: "tokens (CHR ''_'') (p @ CHR ''_'' # fmt_index i) = [p, fmt_index i]" if "p \<noteq> []" "CHR ''_'' \<notin> set p" for p
    using tokens_two [OF that] l by blast
  show "get_id_by_fname (db_name i) = Some i" "get_id_by_fname (rtag_name i) = Some i" "get_id_by_fname (wtag_name i) = Some i"
    using l t [of "''db''"] t [of "''rtag''"] t [of "''wtag''"]
    by (simp_all add: get_id_by_fname_def db_name_def rtag_name_def wtag_name_def atoll_index [OF assms])
qed

section \<open>Scanning the directory\<close>

text \<open>
  \<open>scanned D r wt s\<close>: the names seen so far are the data files with the indices \<open>D\<close> and, if any, the tag files with the
  indices \<open>r\<close> and \<open>wt\<close>; the world has not changed.
\<close>

definition scanned :: "world \<Rightarrow> u64 set \<Rightarrow> u64 option \<Rightarrow> u64 option \<Rightarrow> scan_state \<Rightarrow> bool" where
  "scanned w D r wt s \<longleftrightarrow>
     sc_w s = w \<and> finite D \<and> (\<forall>i \<in> D. index_ok i)
     \<and> (if D = {} then sc_i s = 1 else sc_i s > 1 \<and> read_fname (sc_qf s) = db_name (Min D) \<and> write_fname (sc_qf s) = db_name (Max D))
     \<and> (case r of None \<Rightarrow> sc_j s = 1 | Some i \<Rightarrow> sc_j s > 1 \<and> rtag_fname (sc_qf s) = rtag_name i)
     \<and> (case wt of None \<Rightarrow> sc_k s = 1 | Some i \<Rightarrow> sc_k s > 1 \<and> wtag_fname (sc_qf s) = wtag_name i)"

lemma scan_entry_names:
  "scan_entry (db_name i, RegN n) s = Some (scan_db (db_name i) s)"
  "scan_entry (rtag_name i, RegN n) s = Some (snd (scan_rtag (rtag_name i) s))"
  "scan_entry (wtag_name i, RegN n) s = Some (scan_wtag (wtag_name i) s)"
proof -
  have l: "\<not> 64 < length (db_name i)" "\<not> 64 < length (rtag_name i)" "\<not> 64 < length (wtag_name i)"
    using length_fmt_index [of i] by (simp_all add: db_name_def rtag_name_def wtag_name_def)
  show "scan_entry (db_name i, RegN n) s = Some (scan_db (db_name i) s)"
    "scan_entry (rtag_name i, RegN n) s = Some (snd (scan_rtag (rtag_name i) s))"
    "scan_entry (wtag_name i, RegN n) s = Some (scan_wtag (wtag_name i) s)"
    using l by (simp_all add: scan_entry_def db_name_def rtag_name_def wtag_name_def numeral_eq_Suc Let_def split: prod.split)
qed

lemma scan_db_name:
  assumes "scanned w D r wt s" and i: "index_ok i"
  shows "\<exists>s'. scan_entry (db_name i, RegN n) s = Some s' \<and> scanned w (insert i D) r wt s'"
proof -
  have "scanned w (insert i D) r wt (scan_db (db_name i) s)"
  proof (cases "D = {}")
    case True
    then show ?thesis using assms by (cases r; cases wt; simp add: scanned_def scan_db_def Let_def)
  next
    case False
    define a b where "a = Min D" and "b = Max D"
    have D: "sc_w s = w" "finite D" "\<forall>i \<in> D. index_ok i" "sc_i s > 1" "read_fname (sc_qf s) = db_name a" "write_fname (sc_qf s) = db_name b"
      "case r of None \<Rightarrow> sc_j s = 1 | Some i \<Rightarrow> sc_j s > 1 \<and> rtag_fname (sc_qf s) = rtag_name i"
      "case wt of None \<Rightarrow> sc_k s = 1 | Some i \<Rightarrow> sc_k s > 1 \<and> wtag_fname (sc_qf s) = wtag_name i"
      using assms(1) False by (simp_all add: scanned_def a_def b_def)
    have ok: "index_ok a" "index_ok b" using D(2,3) False by (simp_all add: a_def b_def)
    have mm: "Min (insert i D) = min i a" "Max (insert i D) = max i b" using D(2) False by (simp_all add: a_def b_def)
    have e: "scan_db (db_name i) s = s\<lparr>sc_qf := (sc_qf s)\<lparr>read_fname := db_name (min i a), write_fname := db_name (max i b)\<rparr>, sc_i := Suc (sc_i s)\<rparr>"
      using D(4-6) by (simp add: scan_db_def Let_def strcmp_db_name [OF i ok(1)] strcmp_db_name [OF i ok(2)] min_def max_def)
    show ?thesis
      unfolding scanned_def e mm using D i by (cases r; cases wt; simp)
  qed
  then show ?thesis by (simp add: scan_entry_names)
qed

lemma scan_tag_names:
  "scanned w D None wt s \<Longrightarrow> \<exists>s'. scan_entry (rtag_name i, RegN n) s = Some s' \<and> scanned w D (Some i) wt s'"
  "scanned w D r None s \<Longrightarrow> \<exists>s'. scan_entry (wtag_name i, RegN n) s = Some s' \<and> scanned w D r (Some i) s'"
  by (cases r; cases wt; cases "D = {}"; simp add: scan_entry_names scanned_def scan_rtag_def scan_wtag_def)+

definition reg_names :: "(string \<times> node) list \<Rightarrow> string set" where
  "reg_names es = {c. \<exists>n. (c, RegN n) \<in> set es}"

lemma reg_names_Cons: "reg_names (e # es) = (case snd e of RegN n \<Rightarrow> insert (fst e) (reg_names es) | DirN \<Rightarrow> reg_names es)"
  by (cases e) (auto simp: reg_names_def split: node.splits)

lemma names_distinct [simp]:
  "db_name i \<noteq> rtag_name j" "db_name i \<noteq> wtag_name j" "rtag_name i \<noteq> wtag_name j"
  "rtag_name j \<noteq> db_name i" "wtag_name j \<noteq> db_name i" "wtag_name j \<noteq> rtag_name i" "db_name i = db_name j \<longleftrightarrow> i = j"
  by (auto simp: db_name_def rtag_name_def wtag_name_def dest: fmt_index_inj)

lemma scan_entries_names:
  assumes "\<And>c. c \<in> reg_names es \<Longrightarrow> c = rtag_name a \<or> c = wtag_name b \<or> (\<exists>i. index_ok i \<and> c = db_name i)"
    and "distinct (map fst es)" and "scanned w D r wt s"
    and "rtag_name a \<in> reg_names es \<Longrightarrow> r = None" and "wtag_name b \<in> reg_names es \<Longrightarrow> wt = None"
  shows "\<exists>s'. scan_entries es s = Some s' \<and> scanned w (D \<union> {i. db_name i \<in> reg_names es})
     (if rtag_name a \<in> reg_names es then Some a else r) (if wtag_name b \<in> reg_names es then Some b else wt) s'"
  using assms
proof (induction es arbitrary: D r wt s)
  case Nil
  then show ?case by (simp add: reg_names_def)
next
  case (Cons e es)
  obtain c k where e: "e = (c, k)" by (cases e)
  have sub: "reg_names es \<subseteq> reg_names (e # es)" by (auto simp: reg_names_def)
  have new: "c \<notin> reg_names es" using Cons.prems(2) e by (force simp: reg_names_def)
  have nm: "c = rtag_name a \<or> c = wtag_name b \<or> (\<exists>i. index_ok i \<and> c = db_name i)" if "c \<in> reg_names es" for c
    using Cons.prems(1) sub that by blast
  have dst: "distinct (map fst es)" using Cons.prems(2) by simp
  have IH: "\<exists>s''. scan_entries es s' = Some s'' \<and> scanned w (D' \<union> {i. db_name i \<in> reg_names es})
     (if rtag_name a \<in> reg_names es then Some a else r') (if wtag_name b \<in> reg_names es then Some b else wt') s''"
    if "scanned w D' r' wt' s'" "rtag_name a \<in> reg_names es \<Longrightarrow> r' = None" "wtag_name b \<in> reg_names es \<Longrightarrow> wt' = None" for D' r' wt' s'
    using nm dst that by (rule Cons.IH)
  show ?case
  proof (cases k)
    case DirN
    then show ?thesis using IH [OF Cons.prems(3)] Cons.prems(4,5) sub e by (auto simp: scan_entry_def reg_names_Cons)
  next
    case (RegN n)
    then have R: "reg_names (e # es) = insert c (reg_names es)" using e by (simp add: reg_names_Cons)
    have "c = rtag_name a \<or> c = wtag_name b \<or> (\<exists>i. index_ok i \<and> c = db_name i)" using Cons.prems(1) R by blast
    then consider (r) "c = rtag_name a" | (w) "c = wtag_name b" | (d) i where "index_ok i" "c = db_name i" by blast
    then show ?thesis
    proof cases
      case r
      then obtain s1 where "scan_entry e s = Some s1" "scanned w D (Some a) wt s1"
        using scan_tag_names(1) [of w D wt s a n] Cons.prems(3,4) R e RegN by auto
      then show ?thesis using IH [of D "Some a" wt s1] Cons.prems(5) R r new by auto
    next
      case w
      then obtain s1 where "scan_entry e s = Some s1" "scanned w D r (Some b) s1"
        using scan_tag_names(2) [of w D r s b n] Cons.prems(3,5) R e RegN by auto
      then show ?thesis using IH [of D r "Some b" s1] Cons.prems(4) R w new by auto
    next
      case d
      then obtain s1 where s1: "scan_entry e s = Some s1" "scanned w (insert i D) r wt s1"
        using scan_db_name [OF Cons.prems(3) d(1), of n] e RegN by auto
      have "insert i D \<union> {j. db_name j \<in> reg_names es} = D \<union> {j. db_name j \<in> reg_names (e # es)}" using R d(2) by auto
      then show ?thesis using IH [OF s1(2)] Cons.prems(4,5) R d s1(1) by auto
    qed
  qed
qed

text \<open>The names that a directory lists are those of the paths below it.\<close>

lemma child_of_Some: "child_of d p = Some c \<longleftrightarrow> p = d @ ''/'' @ c \<and> c \<noteq> [] \<and> CHR ''/'' \<notin> set c"
proof
  assume "child_of d p = Some c"
  then have c: "take (Suc (length d)) p = d @ ''/''" "c = drop (Suc (length d)) p" "c \<noteq> []" "CHR ''/'' \<notin> set c"
    by (auto simp: child_of_def Let_def split: if_splits)
  then have "p = (d @ ''/'') @ c" by (metis append_take_drop_id)
  then show "p = d @ ''/'' @ c \<and> c \<noteq> [] \<and> CHR ''/'' \<notin> set c" using c(3,4) by simp
qed (simp add: child_of_def Let_def)

lemma in_map_filter: "y \<in> set (List.map_filter f xs) \<longleftrightarrow> (\<exists>x \<in> set xs. f x = Some y)"
  by (induction xs) (auto simp: List.map_filter_simps split: option.splits)

lemma dir_entries_set: "(c, k) \<in> set (dir_entries w d) \<longleftrightarrow> (d @ ''/'' @ c, k) \<in> set (w_fs w) \<and> c \<noteq> [] \<and> CHR ''/'' \<notin> set c"
proof -
  have "(c, k) \<in> set (dir_entries w d) \<longleftrightarrow> (\<exists>p. (p, k) \<in> set (w_fs w) \<and> child_of d p = Some c)"
    unfolding dir_entries_def in_map_filter by (force simp: split_beta)
  then show ?thesis by (auto simp: child_of_Some)
qed

lemma dir_entries_distinct:
  assumes "distinct (map fst (w_fs w))"
  shows "distinct (map fst (dir_entries w d))"
proof -
  let ?f = "\<lambda>(p, n). map_option (\<lambda>c. (c, n)) (child_of d p)"
  have "distinct (map fst (List.map_filter ?f xs))" if "distinct (map fst xs)" for xs :: "(path \<times> node) list"
    using that
  proof (induction xs)
    case (Cons x xs)
    obtain p n where x: "x = (p, n)" by (cases x)
    show ?case
    proof (cases "child_of d p")
      case (Some c)
      have "c \<notin> fst ` set (List.map_filter ?f xs)"
      proof
        assume "c \<in> fst ` set (List.map_filter ?f xs)"
        then obtain m where "(c, m) \<in> set (List.map_filter ?f xs)" by auto
        then obtain p' where "(p', m) \<in> set xs" "child_of d p' = Some c" unfolding in_map_filter by auto
        moreover have "p' = p" using calculation(2) Some by (simp add: child_of_Some)
        ultimately show False using Cons.prems x by force
      qed
      then show ?thesis using Cons x Some by (simp add: List.map_filter_simps)
    qed (use Cons x in \<open>simp add: List.map_filter_simps\<close>)
  qed (simp add: List.map_filter_simps)
  then show ?thesis using assms by (simp add: dir_entries_def)
qed

section \<open>Finding the files\<close>

text \<open>The directory of a queue holds the data files of the indices \<open>ri\<close> to \<open>wi\<close>, one tag file of each kind, and no other name.\<close>

definition only_files :: "ucmq_conf \<Rightarrow> string \<Rightarrow> world \<Rightarrow> nat \<Rightarrow> nat \<Rightarrow> bool" where
  "only_files cf nm w ri wi \<longleftrightarrow>
     distinct (map fst (w_fs w))
     \<and> (\<forall>c. CHR ''/'' \<notin> set c \<longrightarrow> lookup_path w (queue_dir cf nm @ ''/'' @ c) \<noteq> None \<longrightarrow>
          c = [] \<or> c = rtag_name (of_nat ri) \<or> c = wtag_name (of_nat wi) \<or> (\<exists>n \<in> {ri..wi}. c = db_name (of_nat n)))"

lemma index_ok_nat: "n < 10 ^ 12 \<Longrightarrow> index_ok (of_nat n)" "n < 10 ^ 12 \<Longrightarrow> unat (of_nat n :: u64) = n"
  by (simp_all add: index_ok_def unat_of_nat)

lemma listed_names:
  assumes path: "path_ok cf nm" and only: "only_files cf nm w ri wi"
    and db: "\<And>n. n \<in> {ri..wi} \<Longrightarrow> \<exists>i. lookup_path w (db_path cf nm n) = Some (RegN i)"
    and rt: "\<exists>i. lookup_path w (rtag_path cf nm ri) = Some (RegN i)" and wt: "\<exists>i. lookup_path w (wtag_path cf nm wi) = Some (RegN i)"
  defines "N \<equiv> {rtag_name (of_nat ri), wtag_name (of_nat wi)} \<union> (\<lambda>n. db_name (of_nat n)) ` {ri..wi}"
  shows "fst ` set (dir_entries w (queue_dir cf nm)) \<subseteq> N" "reg_names (dir_entries w (queue_dir cf nm)) = N"
proof -
  have d: "distinct (map fst (w_fs w))" using only by (simp add: only_files_def)
  have en: "(c, k) \<in> set (dir_entries w (queue_dir cf nm)) \<longleftrightarrow> lookup_path w (queue_dir cf nm @ ''/'' @ c) = Some k \<and> c \<noteq> [] \<and> CHR ''/'' \<notin> set c" for c k
    unfolding dir_entries_set lookup_path_def using map_of_eq_Some_iff [OF d] by simp
  show sub: "fst ` set (dir_entries w (queue_dir cf nm)) \<subseteq> N"
  proof
    fix c
    assume "c \<in> fst ` set (dir_entries w (queue_dir cf nm))"
    then obtain k where "(c, k) \<in> set (dir_entries w (queue_dir cf nm))" by auto
    then have "lookup_path w (queue_dir cf nm @ ''/'' @ c) \<noteq> None" "c \<noteq> []" "CHR ''/'' \<notin> set c" by (simp_all add: en)
    then show "c \<in> N" using only unfolding only_files_def N_def by blast
  qed
  have reg: "\<exists>i. (c, RegN i) \<in> set (dir_entries w (queue_dir cf nm))" if "c \<in> N" for c
  proof -
    have "c \<noteq> []" "CHR ''/'' \<notin> set c" using that names_no_slash by (auto simp: N_def db_name_def rtag_name_def wtag_name_def)
    moreover have "\<exists>i. lookup_path w (queue_dir cf nm @ ''/'' @ c) = Some (RegN i)"
      using that db rt wt by (auto simp: N_def full_paths [OF path])
    ultimately show ?thesis by (simp add: en)
  qed
  show "reg_names (dir_entries w (queue_dir cf nm)) = N"
    using sub reg unfolding reg_names_def by force
qed

lemma find_files:
  assumes path: "path_ok cf nm" and w: "w_faults w = []" and dir: "has_dir w (queue_dir cf nm)"
    and only: "only_files cf nm w ri wi" and le: "ri \<le> wi" "wi < 10 ^ 12"
    and db: "\<And>n. n \<in> {ri..wi} \<Longrightarrow> \<exists>i. lookup_path w (db_path cf nm n) = Some (RegN i)"
    and rt: "\<exists>i. lookup_path w (rtag_path cf nm ri) = Some (RegN i)" and wt: "\<exists>i. lookup_path w (wtag_path cf nm wi) = Some (RegN i)"
  shows "find_handle_file cf qf nm w = Some (True, qf\<lparr>rtag_fname := rtag_name (of_nat ri), wtag_fname := wtag_name (of_nat wi),
     read_fname := db_name (of_nat ri), write_fname := db_name (of_nat wi),
     rtag_fid := of_nat ri, wtag_fid := of_nat wi, read_fid := of_nat ri, write_fid := of_nat wi\<rparr>, w)"
proof -
  let ?es = "[(''.'', DirN), (''..'', DirN)] @ dir_entries w (queue_dir cf nm)"
  note N = listed_names [OF path only db rt wt]
  have reg: "reg_names ?es = {rtag_name (of_nat ri), wtag_name (of_nat wi)} \<union> (\<lambda>n. db_name (of_nat n)) ` {ri..wi}"
    using N(2) by (simp add: reg_names_Cons)
  have dots: "''.'' \<notin> fst ` set (dir_entries w (queue_dir cf nm))" "''..'' \<notin> fst ` set (dir_entries w (queue_dir cf nm))"
    using N(1) by (auto simp: db_name_def rtag_name_def wtag_name_def)
  have dist: "distinct (map fst ?es)"
    using dots dir_entries_distinct [of w "queue_dir cf nm"] only by (simp add: only_files_def)
  let ?s = "\<lparr>sc_i = 1, sc_j = 1, sc_k = 1, sc_qf = qf, sc_w = w\<rparr>"
  have ini: "scanned w {} None None ?s" by (simp add: scanned_def)
  have kinds: "c = rtag_name (of_nat ri) \<or> c = wtag_name (of_nat wi) \<or> (\<exists>i. index_ok i \<and> c = db_name i)" if "c \<in> reg_names ?es" for c
    using that le index_ok_nat(1) unfolding reg by auto
  define D :: "u64 set" where "D = of_nat ` {ri..wi}"
  have D: "{i. db_name i \<in> reg_names ?es} = D" unfolding reg D_def by auto
  obtain s where s: "scan_entries ?es ?s = Some s" "scanned w D (Some (of_nat ri)) (Some (of_nat wi)) s"
  proof -
    have m: "rtag_name (of_nat ri) \<in> reg_names ?es" "wtag_name (of_nat wi) \<in> reg_names ?es" unfolding reg by auto
    have "\<exists>s. scan_entries ?es ?s = Some s \<and> scanned w D (Some (of_nat ri)) (Some (of_nat wi)) s"
      using scan_entries_names [OF kinds dist ini] by (simp only: m if_True D Un_empty_left simp_thms)
    then show thesis using that by blast
  qed
  have "(of_nat ri :: u64) \<le> of_nat n" "(of_nat n :: u64) \<le> of_nat wi" if "n \<in> {ri..wi}" for n
    using that le(2) index_ok_nat(2) by (auto simp: word_le_nat_alt)
  then have mm: "Min D = of_nat ri" "Max D = of_nat wi" using le(1) by (auto simp: D_def intro!: Min_eqI Max_eqI)
  have ok: "index_ok (of_nat ri)" "index_ok (of_nat wi)" using le index_ok_nat(1) by simp_all
  have S: "sc_w s = w" "sc_i s > 1" "sc_j s > 1" "sc_k s > 1" "read_fname (sc_qf s) = db_name (of_nat ri)" "write_fname (sc_qf s) = db_name (of_nat wi)"
      "rtag_fname (sc_qf s) = rtag_name (of_nat ri)" "wtag_fname (sc_qf s) = wtag_name (of_nat wi)"
    using s(2) le(1) mm by (auto simp: scanned_def D_def split: if_splits)
  have o: "sys_opendir (queue_dir cf nm) w = (Some ?es, w)" using w dir by (simp add: sys_opendir_def next_outcome_def)
  show ?thesis
    unfolding find_handle_file_def full_paths(4) [OF path] o
    using s(1) S get_id_names [OF ok(1)] get_id_names [OF ok(2)] by (simp add: Let_def)
qed

end
