(* ===== verification/Reopen.thy ===== *)
theory Reopen
  imports Fifo_Queue Queue_Manage Reopen_Scan
begin

text \<open>
  Closing and opening a queue again: when the tag files end with the current record of the queue, the queue that
  \<^verbatim>\<open>mq_qm_open_store\<close> builds from the directory represents the same messages as the one that was closed.
\<close>

section \<open>What a closed queue leaves behind\<close>

definition tag_ends :: "world \<Rightarrow> path \<Rightarrow> byte list \<Rightarrow> bool" where
  "tag_ends w p ln \<longleftrightarrow>
     (\<exists>i. lookup_path w p = Some (RegN i) \<and> f_size (w_files w i) < 2 ^ 31 \<and> length ln \<le> f_size (w_files w i)
        \<and> bytes_at (f_data (w_files w i)) (f_size (w_files w i) - length ln) (length ln) = ln)"

text \<open>The names and the two tag files of the queue, as far as they matter to opening it again.\<close>

definition recorded :: "ucmq_conf \<Rightarrow> mq_queue \<Rightarrow> world \<Rightarrow> bool" where
  "recorded cf q w \<longleftrightarrow>
     wi_of q < 10 ^ 12 \<and> length (q_name q) \<le> MAX_QUEUE_NAME_LEN
     \<and> only_files cf (q_name q) w (ri_of q) (wi_of q)
     \<and> tag_ends w (rtag_path cf (q_name q) (ri_of q)) (rtag_line q) \<and> tag_ends w (wtag_path cf (q_name q) (wi_of q)) (wtag_line q)"

text \<open>\<open>rep_at\<close> without the handles.\<close>

definition files_at :: "ucmq_conf \<Rightarrow> mq_queue \<Rightarrow> world \<Rightarrow> (nat \<Rightarrow> nat) \<Rightarrow> (nat \<Rightarrow> message list) \<Rightarrow> bool" where
  "files_at cf q w ino seg \<longleftrightarrow>
     conf_ok cf \<and> path_ok cf (q_name q) \<and> wf_world w \<and> w_faults w = [] \<and> has_dir w (queue_dir cf (q_name q))
     \<and> ri_of q \<le> wi_of q \<and> rpos_of q \<le> max_db cf \<and> free_names cf (q_name q) w (ri_of q) (wi_of q)
     \<and> data_rep cf (q_name q) w (ri_of q) (wi_of q) (rpos_of q) (wpos_of q) ino seg"

lemma rep_at_files: "rep_at cf q w ino seg \<longleftrightarrow> files_at cf q w ino seg \<and> handles_ok cf q w (ri_of q) (wi_of q) ino"
  by (auto simp: rep_at_def files_at_def)

text \<open>Both depend on the names and the files only.\<close>

definition same_files :: "world \<Rightarrow> world \<Rightarrow> bool" where
  "same_files w w' \<longleftrightarrow> w_fs w' = w_fs w \<and> w_files w' = w_files w \<and> w_faults w' = w_faults w
     \<and> w_bavail w' = w_bavail w \<and> w_bsize w' = w_bsize w"

lemma same_files_lookup: "same_files w w' \<Longrightarrow> lookup_path w' p = lookup_path w p"
  by (simp add: same_files_def lookup_path_def)

lemma recorded_cong: "same_files w w' \<Longrightarrow> recorded cf q w' = recorded cf q w"
  by (simp add: recorded_def only_files_def tag_ends_def same_files_lookup) (simp add: same_files_def)

lemma files_at_cong: "same_files w w' \<Longrightarrow> wf_world w' \<Longrightarrow> files_at cf q w ino seg \<Longrightarrow> files_at cf q w' ino seg"
proof -
  assume s: "same_files w w'" and wf: "wf_world w'" and f: "files_at cf q w ino seg"
  have fl: "w_files w' = w_files w" "w_faults w' = w_faults w" using s by (simp_all add: same_files_def)
  show ?thesis
    using f wf unfolding files_at_def has_dir_def free_names_def data_rep_def same_files_lookup [OF s] fl by blast
qed

lemma close_same_files: "same_files w (close_queue q w)"
  by (simp add: same_files_def close_queue_def mq_sm_rtag_close_file_def mq_sm_wtag_close_file_def mq_sm_close_db_def
      mq_sm_close_db_file_def sys_close_def sys_munmap_def Let_def split: option.splits)

lemma wf_close_queue: "wf_world w \<Longrightarrow> wf_world (close_queue q w)"
  by (simp add: close_queue_def mq_sm_rtag_close_file_def mq_sm_wtag_close_file_def mq_sm_close_db_def
      mq_sm_close_db_file_def Let_def wf_effects)

section \<open>Opening the tag files\<close>

lemma fname_paths:
  "GEN_DATA_FULL_PATH_BY_FNAME cf nm (rtag_name i) = GEN_RTAG_FULL_PATH_BY_QNAME_INDEX cf nm i"
  "GEN_DATA_FULL_PATH_BY_FNAME cf nm (wtag_name i) = GEN_WTAG_FULL_PATH_BY_QNAME_INDEX cf nm i"
  "GEN_DATA_FULL_PATH_BY_FNAME cf nm (db_name i) = GEN_DATA_FULL_PATH_BY_QNAME_INDEX cf nm i"
  by (simp_all add: GEN_DATA_FULL_PATH_BY_FNAME_def GEN_RTAG_FULL_PATH_BY_QNAME_INDEX_def
      GEN_WTAG_FULL_PATH_BY_QNAME_INDEX_def GEN_DATA_FULL_PATH_BY_QNAME_INDEX_def)

lemma size_of_tag:
  assumes "lookup_path w p = Some (RegN i)" "f_size (w_files w i) < 2 ^ 31" "0 < f_size (w_files w i)"
  shows "\<not> get_file_size p w \<le> 0"
  using assms by (simp add: get_file_size_def sys_stat_size_def to_int_id)

lemma tag_endsE:
  assumes "tag_ends w p ln" "0 < length ln"
  obtains i where "lookup_path w p = Some (RegN i)" "f_size (w_files w i) < 2 ^ 31" "0 < f_size (w_files w i)"
    "length ln \<le> f_size (w_files w i)" "bytes_at (f_data (w_files w i)) (f_size (w_files w i) - length ln) (length ln) = ln"
  using assms unfolding tag_ends_def by auto

lemma rtag_read_last:
  assumes w: "w_faults w = []" "w_fds w (rtag_fd p) = Some d" "o_nonblock d"
    and f: "f_size (w_files w (o_ino d)) < 2 ^ 31" "length (rtag_line v) \<le> f_size (w_files w (o_ino d))"
      "bytes_at (f_data (w_files w (o_ino d))) (f_size (w_files w (o_ino d)) - length (rtag_line v)) (length (rtag_line v)) = rtag_line v"
    and v: "check_rtag_item cf v"
  shows "\<exists>w' n. mq_sm_rtag_read_item cf p w = (True, rtag_recall v p, w') \<and> same_store w w'
     \<and> w_fds w' = (w_fds w)(rtag_fd p \<mapsto> d\<lparr>o_off := n\<rparr>)"
proof -
  have "\<exists>w' n. tag_read_loop RTAG_ITEM_LEN (parse_rtag_item cf) cf (rtag_fd p) 1 (replicate (2 * (RTAG_ITEM_LEN + 1) + 1) 0) p w
      = (Some True, rtag_recall v p, w')
      \<and> same_store w w' \<and> w_fds w' = (w_fds w)(rtag_fd p \<mapsto> d\<lparr>o_off := n\<rparr>)"
    using f by (intro rtag.read_last [OF v w]) (simp_all add: rtag.line_at_def rtag.length_line)
  then show ?thesis by (auto simp: mq_sm_rtag_read_item_def)
qed

lemma wtag_read_last:
  assumes w: "w_faults w = []" "w_fds w (wtag_fd p) = Some d" "o_nonblock d"
    and f: "f_size (w_files w (o_ino d)) < 2 ^ 31" "length (wtag_line v) \<le> f_size (w_files w (o_ino d))"
      "bytes_at (f_data (w_files w (o_ino d))) (f_size (w_files w (o_ino d)) - length (wtag_line v)) (length (wtag_line v)) = wtag_line v"
    and v: "check_wtag_item cf v"
  shows "\<exists>w' n. mq_sm_wtag_read_item cf p w = (True, wtag_recall v p, w') \<and> same_store w w'
     \<and> w_fds w' = (w_fds w)(wtag_fd p \<mapsto> d\<lparr>o_off := n\<rparr>)"
proof -
  have "\<exists>w' n. tag_read_loop WTAG_ITEM_LEN (parse_wtag_item cf) cf (wtag_fd p) 1 (replicate (2 * (WTAG_ITEM_LEN + 1) + 1) 0) p w
      = (Some True, wtag_recall v p, w')
      \<and> same_store w w' \<and> w_fds w' = (w_fds w)(wtag_fd p \<mapsto> d\<lparr>o_off := n\<rparr>)"
    using f by (intro wtag.read_last [OF v w]) (simp_all add: wtag.line_at_def wtag.length_line)
  then show ?thesis by (auto simp: mq_sm_wtag_read_item_def)
qed

text \<open>What the four steps on the tag files of \<^verbatim>\<open>mq_qm_open_store\<close> give.\<close>

lemma open_tags:
  assumes f: "w_faults w = []" "wf_world w" and nm: "q_name p = nm" and name: "rtag_fname qf = rtag_name ri" "wtag_fname qf = wtag_name wi"
    and r: "tag_ends w (GEN_RTAG_FULL_PATH_BY_QNAME_INDEX cf nm ri) (rtag_line q)"
    and t: "tag_ends w (GEN_WTAG_FULL_PATH_BY_QNAME_INDEX cf nm wi) (wtag_line q)"
    and ok: "check_rtag_item cf q" "check_wtag_item cf q"
  defines "fr \<equiv> int (w_next_fd w)" and "fw \<equiv> int (Suc (w_next_fd w))"
  obtains w1 w2 w3 w4 dr dw where
    "mq_sm_rtag_open_file cf p qf w = (True, p\<lparr>rtag_fd := fr\<rparr>, w1)"
    "mq_sm_wtag_open_file cf (p\<lparr>rtag_fd := fr\<rparr>) qf w1 = (True, p\<lparr>rtag_fd := fr, wtag_fd := fw\<rparr>, w2)"
    "mq_sm_rtag_read_item cf (p\<lparr>rtag_fd := fr, wtag_fd := fw\<rparr>) w2 = (True, rtag_recall q (p\<lparr>rtag_fd := fr, wtag_fd := fw\<rparr>), w3)"
    "mq_sm_wtag_read_item cf (rtag_recall q (p\<lparr>rtag_fd := fr, wtag_fd := fw\<rparr>)) w3
       = (True, wtag_recall q (rtag_recall q (p\<lparr>rtag_fd := fr, wtag_fd := fw\<rparr>)), w4)"
    "same_files w w4" "wf_world w4" "w_next_fd w4 = Suc (Suc (w_next_fd w))" "w_next_ino w4 = w_next_ino w"
    "w_maps w4 = w_maps w" "w_next_map w4 = w_next_map w"
    "w_fds w4 = (w_fds w)(fr \<mapsto> dr, fw \<mapsto> dw)" "o_nonblock dr" "o_append dr" "o_nonblock dw" "o_append dw"
    "lookup_path w (GEN_RTAG_FULL_PATH_BY_QNAME_INDEX cf nm ri) = Some (RegN (o_ino dr))"
    "lookup_path w (GEN_WTAG_FULL_PATH_BY_QNAME_INDEX cf nm wi) = Some (RegN (o_ino dw))"
proof -
  have pos: "0 < length (rtag_line q)" "0 < length (wtag_line q)" by (simp_all add: rtag.length_line wtag.length_line)
  obtain i where i: "lookup_path w (GEN_RTAG_FULL_PATH_BY_QNAME_INDEX cf nm ri) = Some (RegN i)" "f_size (w_files w i) < 2 ^ 31" "0 < f_size (w_files w i)"
    "length (rtag_line q) \<le> f_size (w_files w i)" "bytes_at (f_data (w_files w i)) (f_size (w_files w i) - length (rtag_line q)) (length (rtag_line q)) = rtag_line q"
    by (rule tag_endsE [OF r pos(1)])
  obtain j where j: "lookup_path w (GEN_WTAG_FULL_PATH_BY_QNAME_INDEX cf nm wi) = Some (RegN j)" "f_size (w_files w j) < 2 ^ 31" "0 < f_size (w_files w j)"
    "length (wtag_line q) \<le> f_size (w_files w j)" "bytes_at (f_data (w_files w j)) (f_size (w_files w j) - length (wtag_line q)) (length (wtag_line q)) = wtag_line q"
    by (rule tag_endsE [OF t pos(2)])
  let ?w1 = "open_old i True w"
  let ?w2 = "open_old j True ?w1" and ?p = "p\<lparr>rtag_fd := fr, wtag_fd := fw\<rparr>"
  let ?dr = "\<lparr>o_ino = i, o_off = 0, o_append = True, o_nonblock = True\<rparr>" and ?dw = "\<lparr>o_ino = j, o_off = 0, o_append = True, o_nonblock = True\<rparr>"
  have s1: "mq_sm_rtag_open_file cf p qf w = (True, p\<lparr>rtag_fd := fr\<rparr>, ?w1)"
    using size_of_tag [OF i(1-3)] sys_open_old [OF f(1) i(1)] nm by (simp add: mq_sm_rtag_open_file_def name fname_paths fr_def)
  have s2: "mq_sm_wtag_open_file cf (p\<lparr>rtag_fd := fr\<rparr>) qf ?w1 = (True, ?p, ?w2)"
    using size_of_tag [of ?w1 _ j] sys_open_old [of ?w1 _ j] f(1) j(1-3) nm by (simp add: mq_sm_wtag_open_file_def name fname_paths fw_def)
  have ne: "fr \<noteq> fw" by (simp add: fr_def fw_def)
  obtain w3 n where s3: "mq_sm_rtag_read_item cf ?p ?w2 = (True, rtag_recall q ?p, w3)" "same_store ?w2 w3" "w_fds w3 = (w_fds ?w2)(fr \<mapsto> ?dr\<lparr>o_off := n\<rparr>)"
    using rtag_read_last [of ?w2 ?p ?dr q cf] f(1) i ok(1) ne by (auto simp: fr_def fw_def)
  obtain w4 m where s4: "mq_sm_wtag_read_item cf (rtag_recall q ?p) w3 = (True, wtag_recall q (rtag_recall q ?p), w4)" "same_store w3 w4"
      "w_fds w4 = (w_fds w3)(fw \<mapsto> ?dw\<lparr>o_off := m\<rparr>)"
    using wtag_read_last [of w3 "rtag_recall q ?p" ?dw q cf] f(1) j ok(2) ne s3(2,3) by (auto simp: same_store_def fr_def fw_def rtag_recall_def)
  have fds: "w_fds w4 = (w_fds w)(fr \<mapsto> ?dr\<lparr>o_off := n\<rparr>, fw \<mapsto> ?dw\<lparr>o_off := m\<rparr>)"
    using s3(3) s4(3) ne by (auto simp: fr_def fw_def fun_eq_iff)
  have fs: "w_fs ?w2 = w_fs w" by (simp add: open_old_def alloc_fd_def)
  have "wf_world ?w2" using f(2) i(1) j(1) wf_world_lookup [OF f(2)] by (intro wf_open_old) auto
  then have "wf_world w4"
    by (rule wf_view) (use s3(2,3) s4(2,3) ne in \<open>auto simp: same_store_def lookup_path_def fr_def fw_def split: if_splits\<close>)
  then show ?thesis
    using that [OF s1 s2 s3(1) s4(1), of "?dr\<lparr>o_off := n\<rparr>" "?dw\<lparr>o_off := m\<rparr>"] s3(2) s4(2) fds fs i(1) j(1) by (simp add: same_store_def same_files_def)
qed

section \<open>Opening the data files\<close>

definition opened_db :: "mq_queue \<Rightarrow> u64 \<Rightarrow> u64 \<Rightarrow> nat \<Rightarrow> nat \<Rightarrow> mq_queue" where
  "opened_db p a b m n =
     p\<lparr>cur_wdb := (cur_wdb p)\<lparr>d_cur_index := b, d_map_mem := Some m, d_fd := int n, d_flag := 1\<rparr>,
       cur_rdb := (cur_rdb p)\<lparr>d_cur_index := a, d_map_mem := Some (if a = b then m else Suc m),
         d_fd := int (if a = b then n else Suc n), d_flag := 1\<rparr>\<rparr>"

definition opened_world :: "ucmq_conf \<Rightarrow> bool \<Rightarrow> nat \<Rightarrow> nat \<Rightarrow> world \<Rightarrow> world" where
  "opened_world cf same i j w = (if same then db_open cf j w else db_open cf i (db_open cf j w))"

lemma open_db_eval:
  assumes "conf_ok cf" "w_faults w = []" "q_name p = nm" "read_fid qf = a" "write_fid qf = b" "read_fname qf = db_name a" "write_fname qf = db_name b"
    and "lookup_path w (GEN_DATA_FULL_PATH_BY_QNAME_INDEX cf nm a) = Some (RegN i)" "f_size (w_files w i) = max_db cf"
    and "lookup_path w (GEN_DATA_FULL_PATH_BY_QNAME_INDEX cf nm b) = Some (RegN j)" "f_size (w_files w j) = max_db cf"
    and "d_flag (cur_rdb p) = 0" "d_flag (cur_wdb p) = 0"
  shows "mq_sm_open_db cf p qf w = (True, opened_db p a b (w_next_map w) (w_next_fd w), opened_world cf (a = b) i j w)"
proof -
  have o1: "mq_sm_open_db_file cf (GEN_DATA_FULL_PATH_BY_QNAME_INDEX cf nm b) FOPEN_FLAG_OPEN w = (Some (w_next_map w), int (w_next_fd w), db_open cf j w)"
    using assms by (intro open_db_file_open)
  have o2: "mq_sm_open_db_file cf (GEN_DATA_FULL_PATH_BY_QNAME_INDEX cf nm a) FOPEN_FLAG_OPEN (db_open cf j w)
      = (Some (Suc (w_next_map w)), int (Suc (w_next_fd w)), db_open cf i (db_open cf j w))"
    using open_db_file_open [OF assms(1), of "db_open cf j w" _ i] assms by simp
  show ?thesis
    using assms(3-7,12,13) o1 o2 by (simp add: mq_sm_open_db_def fname_paths Let_def opened_db_def opened_world_def)
qed

lemma opened_world_views:
  "w_fs (opened_world cf same i j w) = w_fs w" "w_files (opened_world cf same i j w) = w_files w"
  "w_faults (opened_world cf same i j w) = w_faults w" "w_bavail (opened_world cf same i j w) = w_bavail w"
  "w_bsize (opened_world cf same i j w) = w_bsize w" "w_next_ino (opened_world cf same i j w) = w_next_ino w"
  "w_next_map (opened_world cf same i j w) = (if same then Suc (w_next_map w) else Suc (Suc (w_next_map w)))"
  "m < w_next_map w \<Longrightarrow> w_maps (opened_world cf same i j w) m = w_maps w m"
  "w_next_fd (opened_world cf same i j w) = (if same then Suc (w_next_fd w) else Suc (Suc (w_next_fd w)))"
  "fd < int (w_next_fd w) \<Longrightarrow> w_fds (opened_world cf same i j w) fd = w_fds w fd"
  by (simp_all add: opened_world_def) (simp_all add: db_open_def map_new_def open_old_def alloc_fd_def)

lemma map_file_opened:
  assumes "f_size (w_files w i) = max_db cf" "f_size (w_files w j) = max_db cf" "i = j \<or> \<not> same"
  shows "maps_db cf (opened_world cf same i j w) (Some (w_next_map w)) j"
    "maps_db cf (opened_world cf same i j w) (Some (if same then w_next_map w else Suc (w_next_map w))) i"
  using assms by (auto simp: maps_db_def map_file_def opened_world_def)

lemma hash_add_ok:
  "w_faults w = [] \<Longrightarrow> length nm \<le> MAX_QUEUE_NAME_LEN \<Longrightarrow> hash_add_queue_kv nm q l w = Some (Some (length l), l @ [(nm, q)], w)"
  by (simp add: hash_add_queue_kv_def sys_malloc_def next_outcome_def)

lemma opened_handles:
  assumes fds: "w_fds w fr = Some dr" "w_fds w fw = Some dw" "fr < int (w_next_fd w)" "fw < int (w_next_fd w)" "fr \<noteq> fw"
    and d: "o_nonblock dr" "o_append dr" "o_nonblock dw" "o_append dw"
    and lk: "lookup_path w (rtag_path cf nm ri) = Some (RegN (o_ino dr))" "lookup_path w (wtag_path cf nm wi) = Some (RegN (o_ino dw))"
    and p: "rtag_fd p = fr" "wtag_fd p = fw" "q_name p = nm"
    and sz: "f_size (w_files w (ino ri)) = max_db cf" "f_size (w_files w (ino wi)) = max_db cf" and ab: "a = b \<longleftrightarrow> ri = wi"
  shows "handles_ok cf (opened_db p a b (w_next_map w) (w_next_fd w)) (opened_world cf (a = b) (ino ri) (ino wi) w) ri wi ino"
proof -
  let ?w = "opened_world cf (a = b) (ino ri) (ino wi) w"
  have "w_fds ?w fr = Some dr" "w_fds ?w fw = Some dw" using fds by (simp_all add: opened_world_views)
  moreover have "lookup_path ?w x = lookup_path w x" for x by (simp add: lookup_path_def opened_world_views)
  ultimately have t: "tag_fd ?w fr (rtag_path cf nm ri)" "tag_fd ?w fw (wtag_path cf nm wi)" using d lk by (auto simp: tag_fd_def)
  have m: "maps_db cf ?w (Some (w_next_map w)) (ino wi)" "maps_db cf ?w (Some (if a = b then w_next_map w else Suc (w_next_map w))) (ino ri)"
    using map_file_opened [of w "ino ri" cf "ino wi" "a = b"] sz ab by auto
  have f: "int (w_next_fd w) \<noteq> fr" "int (w_next_fd w) \<noteq> fw" "1 + int (w_next_fd w) \<noteq> fr" "1 + int (w_next_fd w) \<noteq> fw" using fds(3,4) by auto
  show ?thesis
    unfolding handles_ok_def using t m f p fds(5) by (simp add: opened_db_def opened_world_views ab)
qed

section \<open>Opening a queue\<close>

lemma recorded_checks:
  assumes f: "files_at cf q w ino seg"
  shows "check_rtag_item cf q" "check_wtag_item cf q"
proof -
  have "rpos_of q \<le> max_db cf" "data_rep cf (q_name q) w (ri_of q) (wi_of q) (rpos_of q) (wpos_of q) ino seg" "ri_of q \<le> wi_of q"
    using f by (simp_all add: files_at_def)
  moreover from this obtain start where "seg_ok cf (f_data (w_files w (ino (wi_of q)))) start (seg (wi_of q)) (wpos_of q)"
    unfolding data_rep_def by fastforce
  ultimately show "check_rtag_item cf q" "check_wtag_item cf q"
    using seg_ok_end by (fastforce simp: check_rtag_item_def check_wtag_item_def index_defs word_less_nat_alt)+
qed

text \<open>What opening needs of the files: the names and the sizes, and positions that the checks accept.\<close>

definition found_at :: "ucmq_conf \<Rightarrow> mq_queue \<Rightarrow> world \<Rightarrow> (nat \<Rightarrow> nat) \<Rightarrow> bool" where
  "found_at cf q w ino \<longleftrightarrow>
     conf_ok cf \<and> path_ok cf (q_name q) \<and> wf_world w \<and> w_faults w = [] \<and> has_dir w (queue_dir cf (q_name q)) \<and> ri_of q \<le> wi_of q
     \<and> (\<forall>n \<in> {ri_of q..wi_of q}. lookup_path w (db_path cf (q_name q) n) = Some (RegN (ino n)) \<and> f_size (w_files w (ino n)) = max_db cf)
     \<and> check_rtag_item cf q \<and> check_wtag_item cf q"

lemma files_at_found: "files_at cf q w ino seg \<Longrightarrow> found_at cf q w ino"
  using recorded_checks [of cf q w ino seg] by (auto simp: files_at_def found_at_def data_rep_def)

text \<open>The new queue has numbers of its own.\<close>

definition opens :: "mq_queue \<Rightarrow> world \<Rightarrow> world \<Rightarrow> bool" where
  "opens q w w' \<longleftrightarrow>
     same_files w w' \<and> wf_world w' \<and> w_next_ino w' = w_next_ino w \<and> w_next_fd w \<le> w_next_fd w' \<and> w_next_map w \<le> w_next_map w'
     \<and> (\<forall>fd < int (w_next_fd w). w_fds w' fd = w_fds w fd) \<and> (\<forall>m < w_next_map w. w_maps w' m = w_maps w m)
     \<and> own_fds q \<subseteq> {int (w_next_fd w)..} \<and> own_maps q \<subseteq> Some ` {w_next_map w..}"

lemma opened_opens:
  assumes s: "same_files w v" "wf_world v" "w_next_fd v = Suc (Suc (w_next_fd w))" "w_next_ino v = w_next_ino w"
    "w_maps v = w_maps w" "w_next_map v = w_next_map w" "w_fds v = (w_fds w)(int (w_next_fd w) \<mapsto> dr, int (Suc (w_next_fd w)) \<mapsto> dw)"
    and p: "rtag_fd p = int (w_next_fd w)" "wtag_fd p = int (Suc (w_next_fd w))" and i: "i < w_next_ino w" "j < w_next_ino w"
  shows "opens (opened_db p a b (w_next_map v) (w_next_fd v)) w (opened_world cf (a = b) i j v)"
proof -
  have "wf_world (opened_world cf (a = b) i j v)" unfolding opened_world_def using s i by (simp add: wf_db_open)
  moreover have "same_files w (opened_world cf (a = b) i j v)" using s(1) by (simp add: same_files_def opened_world_views)
  ultimately show ?thesis
    using s p by (auto simp: opens_def opened_world_views opened_db_def own_fds_def own_maps_def)
qed

definition same_record :: "mq_queue \<Rightarrow> mq_queue \<Rightarrow> bool" where
  "same_record q q' \<longleftrightarrow>
     q_name q' = q_name q \<and> get_num q' = get_num q \<and> put_num q' = put_num q \<and> maxque q' = maxque q
     \<and> ri_of q' = ri_of q \<and> wi_of q' = wi_of q \<and> rpos_of q' = rpos_of q \<and> wpos_of q' = wpos_of q"

definition found_file :: "mq_queue \<Rightarrow> queue_file" where
  "found_file q = zero_queue_file\<lparr>
     rtag_fname := rtag_name (d_cur_index (cur_rdb q)), wtag_fname := wtag_name (d_cur_index (cur_wdb q)),
     read_fname := db_name (d_cur_index (cur_rdb q)), write_fname := db_name (d_cur_index (cur_wdb q)),
     rtag_fid := d_cur_index (cur_rdb q), wtag_fid := d_cur_index (cur_wdb q),
     read_fid := d_cur_index (cur_rdb q), write_fid := d_cur_index (cur_wdb q)\<rparr>"

lemma found_files:
  assumes f: "found_at cf q w ino" and r: "recorded cf q w"
  shows "find_handle_file cf zero_queue_file (q_name q) w = Some (True, found_file q, w)"
proof -
  have ix: "of_nat (ri_of q) = d_cur_index (cur_rdb q)" "of_nat (wi_of q) = d_cur_index (cur_wdb q)" by (simp_all add: index_defs)
  have F: "path_ok cf (q_name q)" "w_faults w = []" "has_dir w (queue_dir cf (q_name q))" "ri_of q \<le> wi_of q"
    "\<And>n. n \<in> {ri_of q..wi_of q} \<Longrightarrow> \<exists>i. lookup_path w (db_path cf (q_name q) n) = Some (RegN i)"
    using f by (auto simp: found_at_def)
  show ?thesis
    using find_files [OF F(1-3) _ F(4) _ F(5), of zero_queue_file] r unfolding recorded_def tag_ends_def found_file_def ix by blast
qed

lemma open_queue_eval:
  assumes f: "found_at cf q w ino" and r: "recorded cf q w"
  obtains q' w' where "open_queue cf (q_name q) l w = Some (l @ [(q_name q, q')], w')" "same_record q q'" "\<not> q_mutex q'"
    "opens q' w w'" "handles_ok cf q' w' (ri_of q) (wi_of q) ino"
proof -
  let ?a = "d_cur_index (cur_rdb q)" and ?b = "d_cur_index (cur_wdb q)" and ?nm = "q_name q"
    and ?i = "ino (ri_of q)" and ?j = "ino (wi_of q)" and ?fr = "int (w_next_fd w)" and ?fw = "int (Suc (w_next_fd w))"
  have ix: "of_nat (ri_of q) = ?a" "of_nat (wi_of q) = ?b" by (simp_all add: index_defs)
  have F: "conf_ok cf" "wf_world w" "w_faults w = []" "check_rtag_item cf q" "check_wtag_item cf q"
    "lookup_path w (GEN_DATA_FULL_PATH_BY_QNAME_INDEX cf ?nm ?a) = Some (RegN ?i)" "f_size (w_files w ?i) = max_db cf"
    "lookup_path w (GEN_DATA_FULL_PATH_BY_QNAME_INDEX cf ?nm ?b) = Some (RegN ?j)" "f_size (w_files w ?j) = max_db cf"
    using f ix unfolding found_at_def by (metis atLeastAtMost_iff order_refl)+
  have R: "length ?nm \<le> MAX_QUEUE_NAME_LEN" "tag_ends w (GEN_RTAG_FULL_PATH_BY_QNAME_INDEX cf ?nm ?a) (rtag_line q)"
    "tag_ends w (GEN_WTAG_FULL_PATH_BY_QNAME_INDEX cf ?nm ?b) (wtag_line q)"
    using r by (simp_all add: recorded_def ix)
  have Qf: "rtag_fname (found_file q) = rtag_name ?a" "wtag_fname (found_file q) = wtag_name ?b" "read_fname (found_file q) = db_name ?a"
    "write_fname (found_file q) = db_name ?b" "read_fid (found_file q) = ?a" "write_fid (found_file q) = ?b"
    by (simp_all add: found_file_def)
  define p0 where "p0 = zero_queue\<lparr>q_name := ?nm\<rparr>"
  define p where "p = wtag_recall q (rtag_recall q (p0\<lparr>rtag_fd := ?fr, wtag_fd := ?fw\<rparr>))"
  have n0: "q_name p0 = ?nm" by (simp add: p0_def)
  obtain w1 w2 w3 w4 dr dw where S: "mq_sm_rtag_open_file cf p0 (found_file q) w = (True, p0\<lparr>rtag_fd := ?fr\<rparr>, w1)"
    "mq_sm_wtag_open_file cf (p0\<lparr>rtag_fd := ?fr\<rparr>) (found_file q) w1 = (True, p0\<lparr>rtag_fd := ?fr, wtag_fd := ?fw\<rparr>, w2)"
    "mq_sm_rtag_read_item cf (p0\<lparr>rtag_fd := ?fr, wtag_fd := ?fw\<rparr>) w2 = (True, rtag_recall q (p0\<lparr>rtag_fd := ?fr, wtag_fd := ?fw\<rparr>), w3)"
    "mq_sm_wtag_read_item cf (rtag_recall q (p0\<lparr>rtag_fd := ?fr, wtag_fd := ?fw\<rparr>)) w3 = (True, p, w4)"
    "same_files w w4" "wf_world w4" "w_next_fd w4 = Suc (Suc (w_next_fd w))" "w_next_ino w4 = w_next_ino w"
    "w_maps w4 = w_maps w" "w_next_map w4 = w_next_map w"
    "w_fds w4 = (w_fds w)(?fr \<mapsto> dr, ?fw \<mapsto> dw)" "o_nonblock dr" "o_append dr" "o_nonblock dw" "o_append dw"
    "lookup_path w (GEN_RTAG_FULL_PATH_BY_QNAME_INDEX cf ?nm ?a) = Some (RegN (o_ino dr))"
    "lookup_path w (GEN_WTAG_FULL_PATH_BY_QNAME_INDEX cf ?nm ?b) = Some (RegN (o_ino dw))"
    unfolding p_def by (rule open_tags [OF F(3,2) n0 Qf(1,2) R(2,3) F(4,5)])
  have P: "q_name p = ?nm" "rtag_fd p = ?fr" "wtag_fd p = ?fw" "\<not> q_mutex p" "get_num p = get_num q" "put_num p = put_num q" "maxque p = maxque q"
    "d_pos (cur_rdb p) = d_pos (cur_rdb q)" "d_pos (cur_wdb p) = d_pos (cur_wdb q)" "d_flag (cur_rdb p) = 0" "d_flag (cur_wdb p) = 0"
    by (simp_all add: p_def p0_def rtag_recall_def wtag_recall_def zero_queue_def zero_db_map_def)
  define q' where "q' = opened_db p ?a ?b (w_next_map w4) (w_next_fd w4)"
  define w' where "w' = opened_world cf (?a = ?b) ?i ?j w4"
  have fl: "w_files w4 = w_files w" "w_faults w4 = []" using S(5) F(3) by (simp_all add: same_files_def)
  have lk: "lookup_path w4 x = lookup_path w x" for x using S(5) by (rule same_files_lookup)
  have op: "mq_sm_open_db cf p (found_file q) w4 = (True, q', w')"
    unfolding q'_def w'_def using F(6-9) by (intro open_db_eval [OF F(1) fl(2) P(1) Qf(5,6,3,4) _ _ _ _ P(10,11)]) (simp_all add: lk fl)
  have "w_faults w' = []" using fl(2) by (simp add: w'_def opened_world_views)
  then have "open_queue cf ?nm l w = Some (l @ [(?nm, q')], w')"
    using found_files [OF f r] S(1-4) op R(1) hash_add_ok by (simp add: open_queue_def Let_def flip: p0_def)
  moreover have "same_record q q'" "\<not> q_mutex q'" using P by (simp_all add: same_record_def q'_def opened_db_def index_defs)
  moreover have "opens q' w w'"
    unfolding q'_def w'_def
    by (rule opened_opens [OF S(5-11) P(2,3) wf_world_lookup [OF F(2,6)] wf_world_lookup [OF F(2,8)]])
  moreover have "handles_ok cf q' w' (ri_of q) (wi_of q) ino"
    unfolding q'_def w'_def
  proof (rule opened_handles [OF _ _ _ _ _ S(12-15) _ _ P(2,3,1)])
    show "w_fds w4 ?fr = Some dr" "w_fds w4 ?fw = Some dw" using S(11) by simp_all
    show "lookup_path w4 (rtag_path cf ?nm (ri_of q)) = Some (RegN (o_ino dr))" "lookup_path w4 (wtag_path cf ?nm (wi_of q)) = Some (RegN (o_ino dw))"
      unfolding lk ix by (rule S(16), rule S(17))
    show "f_size (w_files w4 ?i) = max_db cf" "f_size (w_files w4 ?j) = max_db cf" unfolding fl by (rule F(7), rule F(9))
    show "?a = ?b \<longleftrightarrow> ri_of q = wi_of q" by (simp add: index_defs word_unat_eq_iff)
  qed (simp_all add: S(7))
  ultimately show ?thesis by (rule that)
qed

lemma open_queue_files:
  assumes f: "files_at cf q w ino seg" and r: "recorded cf q w"
  obtains q' w' where "open_queue cf (q_name q) l w = Some (l @ [(q_name q, q')], w')" "rep_at cf q' w' ino seg"
    "same_record q q'" "\<not> q_mutex q'" "opens q' w w'"
proof -
  obtain q' w' where o: "open_queue cf (q_name q) l w = Some (l @ [(q_name q, q')], w')" "same_record q q'" "\<not> q_mutex q'"
    "opens q' w w'" "handles_ok cf q' w' (ri_of q) (wi_of q) ino"
    by (rule open_queue_eval [OF files_at_found [OF f] r])
  have "files_at cf q w' ino seg" using o(4) f unfolding opens_def by (blast intro: files_at_cong)
  then have "rep_at cf q' w' ino seg" using o(2,5) by (simp add: rep_at_files files_at_def same_record_def)
  then show ?thesis by (rule that [OF o(1) _ o(2-4)])
qed

end
