(* ===== verification/Reopen_Keep.thy ===== *)
theory Reopen_Keep
  imports Reopen
begin

text \<open>
  What an operation on a queue keeps of the directory and of the tag file of the other end: a put leaves the reader's tag
  file alone, a get the writer's, and both leave the directory with the names of the queue only.
\<close>

section \<open>Each name once\<close>

definition names_once :: "world \<Rightarrow> bool" where
  "names_once w \<longleftrightarrow> distinct (map fst (w_fs w))"

lemma names_once_simps [simp]:
  "names_once (sys_close fd w) = names_once w" "names_once (sys_munmap m w) = names_once w" "names_once (tick w) = names_once w"
  "names_once (poke i off bs w) = names_once w" "names_once (fd_put fd d bs w) = names_once w" "names_once (open_old i app w) = names_once w"
  "names_once (tag_put fd bs w) = names_once w" "names_once (db_open cf i w) = names_once w"
  "names_once (w\<lparr>w_files := fs\<rparr>) = names_once w" "names_once (w\<lparr>w_fds := fds\<rparr>) = names_once w" "names_once (map_new n i w) = names_once w"
  by (simp_all add: names_once_def sys_close_def sys_munmap_def poke_def fd_put_def Let_def open_old_def alloc_fd_def tag_put_def
      db_open_def map_new_def split: option.split)

lemma names_once_open_new: "names_once w \<Longrightarrow> lookup_path w p = None \<Longrightarrow> names_once (open_new p app w)"
  by (auto simp: names_once_def open_new_def open_old_def alloc_fd_def new_inode_def lookup_path_def map_of_eq_None_iff)

lemma names_once_db_create: "names_once w \<Longrightarrow> lookup_path w p = None \<Longrightarrow> names_once (db_create cf p w)"
  using names_once_open_new [of w p False] by (simp add: db_create_def)

lemma names_once_unlink: "names_once w \<Longrightarrow> names_once (sys_unlink p w)"
proof -
  have "distinct (map fst (filter P xs))" if "distinct (map fst xs)" for P and xs :: "(path \<times> node) list"
    using that by (simp add: distinct_map_filter)
  then show "names_once w \<Longrightarrow> names_once (sys_unlink p w)"
    by (auto simp: names_once_def sys_unlink_def next_outcome_def split: list.splits outcome.splits option.splits node.splits)
qed

lemma only_files_iff:
  "only_files cf nm w ri wi \<longleftrightarrow> names_once w
     \<and> (\<forall>c. CHR ''/'' \<notin> set c \<longrightarrow> lookup_path w (queue_dir cf nm @ ''/'' @ c) \<noteq> None \<longrightarrow>
          c = [] \<or> c = rtag_name (of_nat ri) \<or> c = wtag_name (of_nat wi) \<or> (\<exists>n \<in> {ri..wi}. c = db_name (of_nat n)))"
  by (simp add: only_files_def names_once_def)

definition file_names :: "nat \<Rightarrow> nat \<Rightarrow> string set" where
  "file_names ri wi = {[], rtag_name (of_nat ri), wtag_name (of_nat wi)} \<union> (\<lambda>n. db_name (of_nat n)) ` {ri..wi}"

lemma only_files_names:
  "only_files cf nm w ri wi \<longleftrightarrow> names_once w
     \<and> (\<forall>c. CHR ''/'' \<notin> set c \<longrightarrow> lookup_path w (queue_dir cf nm @ ''/'' @ c) \<noteq> None \<longrightarrow> c \<in> file_names ri wi)"
  unfolding only_files_iff file_names_def by blast

lemma only_files_step:
  assumes "only_files cf nm w ri wi" and "names_once w \<Longrightarrow> names_once w'"
    and "\<And>c. lookup_path w' (queue_dir cf nm @ ''/'' @ c) \<noteq> None \<Longrightarrow>
       lookup_path w (queue_dir cf nm @ ''/'' @ c) \<noteq> None \<and> c \<notin> X \<or> c \<in> file_names ri' wi'"
    and "file_names ri wi - X \<subseteq> file_names ri' wi'"
  shows "only_files cf nm w' ri' wi'"
  using assms unfolding only_files_names by blast

lemma tag_ends_cong:
  assumes "tag_ends w p ln" and "lookup_path w' p = lookup_path w p"
    and "\<And>i. lookup_path w p = Some (RegN i) \<Longrightarrow> w_files w' i = w_files w i"
  shows "tag_ends w' p ln"
  using assms unfolding tag_ends_def by auto

definition tag_size :: "world \<Rightarrow> path \<Rightarrow> nat" where
  "tag_size w p = (case lookup_path w p of Some (RegN i) \<Rightarrow> f_size (w_files w i) | _ \<Rightarrow> 0)"

lemma tag_size_cong:
  assumes "lookup_path w' p = lookup_path w p" and "\<And>i. lookup_path w p = Some (RegN i) \<Longrightarrow> f_size (w_files w' i) = f_size (w_files w i)"
  shows "tag_size w' p = tag_size w p"
  using assms by (auto simp: tag_size_def split: option.splits node.splits)

section \<open>The writer\<close>

definition writer_keeps :: "ucmq_conf \<Rightarrow> mq_queue \<Rightarrow> world \<Rightarrow> mq_queue \<Rightarrow> world \<Rightarrow> bool" where
  "writer_keeps cf q w q' w' \<longleftrightarrow>
     q_name q' = q_name q \<and> cur_rdb q' = cur_rdb q \<and> get_num q' = get_num q \<and> maxque q' = maxque q
     \<and> tag_size w' (wtag_path cf (q_name q) (wi_of q')) \<le> max (tag_size w (wtag_path cf (q_name q) (wi_of q))) (Suc WTAG_ITEM_LEN)
     \<and> tag_size w' (rtag_path cf (q_name q) (ri_of q)) = tag_size w (rtag_path cf (q_name q) (ri_of q))
     \<and> (\<forall>ln. tag_ends w (rtag_path cf (q_name q) (ri_of q)) ln \<longrightarrow> tag_ends w' (rtag_path cf (q_name q) (ri_of q)) ln)
     \<and> (only_files cf (q_name q) w (ri_of q) (wi_of q) \<longrightarrow> only_files cf (q_name q) w' (ri_of q') (wi_of q'))"

lemma writer_keeps_trans: "writer_keeps cf q w q1 w1 \<Longrightarrow> writer_keeps cf q1 w1 q2 w2 \<Longrightarrow> writer_keeps cf q w q2 w2"
  by (auto simp: writer_keeps_def ri_of_def)

lemma rtag_ino:
  assumes "rep_at cf q w ino seg" and "lookup_path w (rtag_path cf (q_name q) (ri_of q)) = Some (RegN i)"
  shows "n \<in> {ri_of q..wi_of q} \<Longrightarrow> i \<noteq> ino n" and "i < w_next_ino w" and "i \<noteq> o_ino (the (w_fds w (wtag_fd q)))"
    and "i = o_ino (the (w_fds w (rtag_fd q)))"
proof -
  note D = rep_atD [OF assms(1)]
  show e: "i = o_ino (the (w_fds w (rtag_fd q)))" using handlesD(4) [OF assms(1)] assms(2) by (auto simp: tag_fd_def)
  show "n \<in> {ri_of q..wi_of q} \<Longrightarrow> i \<noteq> ino n" using tag_not_data(1) [OF assms(1)] unfolding e .
  show "i \<noteq> o_ino (the (w_fds w (wtag_fd q)))" using tag_not_data(3) [OF assms(1), of "wi_of q"] D(6) unfolding e by simp
  show "i < w_next_ino w" by (rule wf_world_lookup [OF D(3) assms(2)])
qed

lemma wtag_ino:
  assumes "rep_at cf q w ino seg" and "lookup_path w (wtag_path cf (q_name q) (wi_of q)) = Some (RegN i)"
  shows "i < w_next_ino w" and "i \<noteq> o_ino (the (w_fds w (rtag_fd q)))" and "i = o_ino (the (w_fds w (wtag_fd q)))"
proof -
  note D = rep_atD [OF assms(1)]
  show e: "i = o_ino (the (w_fds w (wtag_fd q)))" using handlesD(5) [OF assms(1)] assms(2) by (auto simp: tag_fd_def)
  show "i \<noteq> o_ino (the (w_fds w (rtag_fd q)))" using tag_not_data(3) [OF assms(1), of "wi_of q"] D(6) unfolding e by simp
  show "i < w_next_ino w" by (rule wf_world_lookup [OF D(3) assms(2)])
qed

lemma poke_keeps:
  assumes rep: "rep_at cf q w ino seg"
    and q: "q_name q' = q_name q" "cur_rdb q' = cur_rdb q" "wi_of q' = wi_of q" "get_num q' = get_num q" "maxque q' = maxque q"
  shows "writer_keeps cf q w q' (poke (ino (wi_of q)) off bs w)"
proof -
  let ?w = "poke (ino (wi_of q)) off bs w"
  have "tag_size ?w p = tag_size w p" for p by (rule tag_size_cong) simp_all
  then show ?thesis
    using rtag_ino(1) [OF rep, of _ "wi_of q"] rep_atD(6) [OF rep] q
    by (auto simp: writer_keeps_def only_files_iff ri_of_def intro: tag_ends_cong)
qed

lemma next_write_keeps:
  assumes rep: "rep_at cf q w ino seg" and lt: "Suc (wi_of q) < 2 ^ 64" and sp: "\<not> storage_short cf w"
    and ev: "get_next_write_file cf q w = Some (True, q', w')"
  shows "writer_keeps cf q w q' w'"
proof -
  note D = rep_atD [OF rep] and F = free_next [OF rep lt]
  obtain ln where w': "w' = writer_moved cf q ln (db_file_head 0) w" and ln: "length ln = Suc WTAG_ITEM_LEN"
    and q': "q_name q' = q_name q" "cur_rdb q' = cur_rdb q" "wi_of q' = Suc (wi_of q)" "get_num q' = get_num q" "maxque q' = maxque q"
    using get_next_write_file_eval [OF rep lt sp] ev next_write_index(2) [OF lt] wtag.length_line
    by (auto simp: index_defs simp del: of_nat_Suc)
  note V = writer_moved_views [OF rep lt, of ln "db_file_head 0", folded w']
  have rt: "rtag_path cf (q_name q) (ri_of q) \<noteq> db_path cf (q_name q) (Suc (wi_of q))"
      "rtag_path cf (q_name q) (ri_of q) \<noteq> wtag_path cf (q_name q) (Suc (wi_of q))"
      "rtag_path cf (q_name q) (ri_of q) \<noteq> wtag_path cf (q_name q) (wi_of q)"
    using D(2) by (simp_all del: of_nat_Suc)
  have tg: "tag_ends w' (rtag_path cf (q_name q) (ri_of q)) ln'" if "tag_ends w (rtag_path cf (q_name q) (ri_of q)) ln'" for ln'
    using that by (rule tag_ends_cong) (use rt rtag_ino(2) [OF rep] in \<open>auto simp: V(1,2) simp del: of_nat_Suc\<close>)
  have on: "names_once w'" if "names_once w"
    using that F D(2) unfolding w' writer_moved_def Let_def
    by (intro names_once_unlink) (simp add: names_once_open_new names_once_db_create writer_closed_def del: of_nat_Suc)
  have "only_files cf (q_name q) w' (ri_of q) (Suc (wi_of q))" if o: "only_files cf (q_name q) w (ri_of q) (wi_of q)"
  proof (rule only_files_step [OF o on])
    fix c
    assume "lookup_path w' (queue_dir cf (q_name q) @ ''/'' @ c) \<noteq> None"
    then show "lookup_path w (queue_dir cf (q_name q) @ ''/'' @ c) \<noteq> None \<and> c \<notin> {wtag_name (of_nat (wi_of q))}
        \<or> c \<in> file_names (ri_of q) (Suc (wi_of q))"
      using D(6) unfolding V(1) full_paths [OF D(2)] by (auto simp: file_names_def split: if_splits simp del: of_nat_Suc)
  qed (auto simp: file_names_def)
  moreover have "tag_size w' (wtag_path cf (q_name q) (Suc (wi_of q))) = Suc WTAG_ITEM_LEN"
    using D(2) ln by (simp add: tag_size_def V(1,2) file_write_def empty_file_def del: of_nat_Suc)
  moreover have "tag_size w' (rtag_path cf (q_name q) (ri_of q)) = tag_size w (rtag_path cf (q_name q) (ri_of q))"
    by (rule tag_size_cong) (use rt rtag_ino(2) [OF rep] in \<open>auto simp: V(1,2) simp del: of_nat_Suc\<close>)
  ultimately show ?thesis using tg q' by (simp add: writer_keeps_def ri_of_def)
qed

lemma write_here_keeps:
  assumes rep: "rep_at cf q w ino seg" and ev: "write_here q item w = Some (True, q', w')"
  shows "writer_keeps cf q w q' w'"
proof -
  let ?i = "ino (wi_of q)"
  have m: "map_file w (d_map_mem (cur_wdb q)) = Some (?i, max_db cf)" using handlesD(2) [OF rep] by (simp add: maps_db_def)
  have st: "\<exists>f. v' = v\<lparr>w_files := (w_files v)(?i := f)\<rparr> \<and> f_size f = f_size (w_files v ?i) \<and> map_file v' (d_map_mem (cur_wdb q)) = Some (?i, max_db cf)"
    if "mem_store (d_map_mem (cur_wdb q)) off bs v = Some v'" "map_file v (d_map_mem (cur_wdb q)) = Some (?i, max_db cf)" for off bs v v'
    using that by (auto simp: mem_store_def map_file_def split: option.splits if_splits)
  obtain w1 body where s: "mem_store (d_map_mem (cur_wdb q)) (unat (d_pos (cur_wdb q))) (msg_head_bytes item) w = Some w1"
      "mem_store (d_map_mem (cur_wdb q)) (unat (d_pos (cur_wdb q)) + MSG_HEAD_LEN) body w1 = Some w'"
    and q': "q' = q\<lparr>cur_wdb := (cur_wdb q)\<lparr>d_pos := d_pos (cur_wdb q) + (len item + of_nat MSG_HEAD_LEN),
                                d_opt_count := d_opt_count (cur_wdb q) + 1\<rparr>, put_num := put_num q + 1\<rparr>"
    using ev unfolding write_here_def Let_def by (auto split: Option.bind_splits)
  obtain f where f: "w' = w\<lparr>w_files := (w_files w)(?i := f)\<rparr>" "f_size f = f_size (w_files w ?i)"
    using st [OF s(1) m] st [OF s(2)] by auto
  have lk: "lookup_path (w\<lparr>w_files := fs\<rparr>) p = lookup_path w p" for fs p by (simp add: lookup_path_def)
  have "tag_size w' p = tag_size w p" for p by (rule tag_size_cong) (simp_all add: f lk)
  then show ?thesis
    using rtag_ino(1) [OF rep, of _ "wi_of q"] rep_atD(6) [OF rep] lk f(1)
    by (auto simp: q' writer_keeps_def only_files_iff index_defs intro: tag_ends_cong)
qed

lemma write_msg_keeps:
  assumes rep: "rep_at cf q w ino seg" and mu: "\<not> q_mutex q" and it: "item_for item d b" and b: "body_ok cf b"
    and lt: "Suc (wi_of q) < 2 ^ 64" and sp: "\<not> storage_short cf w"
    and ev: "mq_sm_db_write_msg cf q item w = Some (True, q', w')"
  shows "writer_keeps cf q w q' w'"
proof (cases "max_db cf < wpos_of q + MSG_HEAD_LEN + length b")
  case False
  then have "write_here q item w = Some (True, q', w')"
    using ev room_test [OF rep b] by (simp add: write_msg_split item_for_bytes(3) [OF it])
  then show ?thesis by (rule write_here_keeps [OF rep])
next
  case True
  note D = rep_atD [OF rep] and H = handlesD [OF rep]
  obtain w1 q2 q1 w2 ino' where r: "mq_sm_db_write_file_head q w = Some (True, w1)" "mutex_lock q = Some q2"
      "get_next_write_file cf q2 w1 = Some (True, q1, w2)"
      "rep_at cf (mutex_unlock q1) w2 ino' (seg(Suc (wi_of q) := []))"
    by (rule roll_rep [OF rep mu lt sp])
  have "d_map_mem (cur_wdb q) \<noteq> None" using H(16) by auto
  then have h: "write_here (mutex_unlock q1) item w2 = Some (True, q', w')"
    using ev room_test [OF rep b] True r(1-3) by (simp add: write_msg_split item_for_bytes(3) [OF it])
  let ?h = "db_file_head (d_opt_count (cur_wdb q))"
  have q2: "q2 = q\<lparr>q_mutex := True\<rparr>" using r(2) mu by (simp add: mutex_lock_def)
  have w1: "w1 = poke (ino (wi_of q)) 0 ?h w"
    using H(2) max_db_lower [OF D(1)] r(1)
    by (simp add: mq_sm_db_write_file_head_def maps_db_def mem_store_poke db_file_head_facts DB_FILE_HEAD_LEN_def)
  have "rep_at cf q w1 ino (seg(wi_of q := seg (wi_of q)))"
    unfolding w1 by (rule rep_at_wfile [OF rep seg_ok_head]) (simp_all add: db_file_head_facts)
  then have "rep_at cf q2 w1 ino seg" "Suc (wi_of q2) < 2 ^ 64" "\<not> storage_short cf w1"
    using lt sp storage_short_cong [of w1 w] by (simp_all add: q2 index_defs w1)
  then have "writer_keeps cf q2 w1 q1 w2" using next_write_keeps r(3) by blast
  moreover have "writer_keeps cf q w q2 w1"
    unfolding w1 by (rule poke_keeps [OF rep]) (simp_all add: q2 index_defs)
  moreover have "writer_keeps cf q1 w2 (mutex_unlock q1) w2"
    by (simp add: writer_keeps_def mutex_unlock_def index_defs)
  ultimately show ?thesis using write_here_keeps [OF r(4) h] writer_keeps_trans by blast
qed

section \<open>The reader\<close>

definition reader_keeps :: "ucmq_conf \<Rightarrow> mq_queue \<Rightarrow> world \<Rightarrow> mq_queue \<Rightarrow> world \<Rightarrow> bool" where
  "reader_keeps cf q w q' w' \<longleftrightarrow>
     q_name q' = q_name q \<and> cur_wdb q' = cur_wdb q \<and> maxque q' = maxque q
     \<and> tag_size w' (rtag_path cf (q_name q) (ri_of q')) \<le> max (tag_size w (rtag_path cf (q_name q) (ri_of q))) (Suc RTAG_ITEM_LEN)
     \<and> tag_size w' (wtag_path cf (q_name q) (wi_of q)) = tag_size w (wtag_path cf (q_name q) (wi_of q))
     \<and> (\<forall>ln. tag_ends w (wtag_path cf (q_name q) (wi_of q)) ln \<longrightarrow> tag_ends w' (wtag_path cf (q_name q) (wi_of q)) ln)
     \<and> (only_files cf (q_name q) w (ri_of q) (wi_of q) \<longrightarrow> only_files cf (q_name q) w' (ri_of q') (wi_of q'))"

lemma reader_keeps_trans: "reader_keeps cf q w q1 w1 \<Longrightarrow> reader_keeps cf q1 w1 q2 w2 \<Longrightarrow> reader_keeps cf q w q2 w2"
  by (auto simp: reader_keeps_def wi_of_def)

lemma next_read_keeps:
  assumes rep: "rep_at cf q w ino seg" and lt: "ri_of q < wi_of q" and ev: "get_next_read_file cf q w = (True, q', w')"
  shows "reader_keeps cf q w q' w'" and "put_num q' = put_num q" and "get_num q' = get_num q"
proof -
  note D = rep_atD [OF rep]
  define ln where "ln = rtag_line (q\<lparr>cur_rdb := (cur_rdb q)\<lparr>d_pos := of_nat DB_FILE_HEAD_LEN\<rparr>\<rparr>)"
  define v where "v = reader_moved cf q ln w"
  note V = reader_moved_views [OF rep lt, of ln, folded v_def]
  have nf: "lookup_path v (db_path cf (q_name q) (Suc (ri_of q))) = Some (RegN (ino (Suc (ri_of q))))"
      "f_size (w_files v (ino (Suc (ri_of q)))) = max_db cf"
    using data_rep_lookup [OF data_rep_next [OF rep lt, of v ln], of "Suc (ri_of q)"] lt by (simp_all add: v_def del: of_nat_Suc)
  have free: "lookup_path w (rtag_path cf (q_name q) (Suc (ri_of q))) = None"
    using D(8) lt index_range(2) [of q] unfolding free_names_def by (simp del: of_nat_Suc)
  have w': "w' = v \<or> w' = db_open cf (ino (Suc (ri_of q))) v"
    and q': "q_name q' = q_name q" "cur_wdb q' = cur_wdb q" "maxque q' = maxque q" "put_num q' = put_num q" "get_num q' = get_num q"
      "d_cur_index (cur_rdb q') = of_nat (Suc (ri_of q))"
    using ev get_next_read_file_eval [OF D(1,2,4,5) lt free _ ln_def V(8) [unfolded v_def], of "ino (Suc (ri_of q))"] nf
    by (auto simp: v_def Let_def simp del: of_nat_Suc split: if_splits)
  show "put_num q' = put_num q" "get_num q' = get_num q" by (rule q')+
  have ix: "ri_of q' = Suc (ri_of q)" "wi_of q' = wi_of q"
    using q'(2,6) next_read_index(2) [OF lt] next_read_index(1) [OF lt] by (simp_all add: index_defs del: of_nat_Suc)
  have lk: "lookup_path w' p = lookup_path v p" "w_files w' = w_files v" "names_once w' = names_once v" for p using w' by auto
  have tg: "tag_ends w' (wtag_path cf (q_name q) (wi_of q)) l" if "tag_ends w (wtag_path cf (q_name q) (wi_of q)) l" for l
    using that by (rule tag_ends_cong) (use D(2) wtag_ino(1) [OF rep] in \<open>auto simp: lk V(1,2) simp del: of_nat_Suc\<close>)
  have on: "names_once w'" if "names_once w"
    unfolding lk v_def reader_moved_def Let_def using names_once_open_new [OF that free] by (simp add: names_once_unlink del: of_nat_Suc)
  have "only_files cf (q_name q) w' (Suc (ri_of q)) (wi_of q)" if o: "only_files cf (q_name q) w (ri_of q) (wi_of q)"
  proof (rule only_files_step [OF o on])
    fix c
    assume "lookup_path w' (queue_dir cf (q_name q) @ ''/'' @ c) \<noteq> None"
    then show "lookup_path w (queue_dir cf (q_name q) @ ''/'' @ c) \<noteq> None
          \<and> c \<notin> {rtag_name (of_nat (ri_of q)), db_name (of_nat (ri_of q))}
        \<or> c \<in> file_names (Suc (ri_of q)) (wi_of q)"
      unfolding lk V(1) full_paths [OF D(2)] by (auto simp: file_names_def split: if_splits simp del: of_nat_Suc)
  next
    have "{ri_of q..wi_of q} = insert (ri_of q) {Suc (ri_of q)..wi_of q}" using lt by auto
    then show "file_names (ri_of q) (wi_of q) - {rtag_name (of_nat (ri_of q)), db_name (of_nat (ri_of q))}
        \<subseteq> file_names (Suc (ri_of q)) (wi_of q)"
      unfolding file_names_def by auto
  qed
  moreover have "tag_size w' (rtag_path cf (q_name q) (Suc (ri_of q))) = Suc RTAG_ITEM_LEN"
    using D(2) by (simp add: tag_size_def lk V(1,2) file_write_def empty_file_def ln_def rtag.length_line del: of_nat_Suc)
  moreover have "tag_size w' (wtag_path cf (q_name q) (wi_of q)) = tag_size w (wtag_path cf (q_name q) (wi_of q))"
    by (rule tag_size_cong) (use D(2) wtag_ino(1) [OF rep] in \<open>auto simp: lk V(1,2) simp del: of_nat_Suc\<close>)
  ultimately show "reader_keeps cf q w q' w'" using tg q' ix by (simp add: reader_keeps_def)
qed

lemma next_file_keeps:
  assumes rep: "rep_at cf q w ino seg" and lt: "ri_of q < wi_of q" and mu: "\<not> q_mutex q"
    and ev: "get_data_next_file cf q w = Some (True, q', w')"
  shows "reader_keeps cf q w q' w'"
proof -
  let ?q = "q\<lparr>q_mutex := True\<rparr>"
  obtain q1 where n: "get_next_read_file cf ?q w = (True, q1, w')" and q': "q' = mutex_unlock q1"
    using ev mu by (auto simp: get_data_next_file_def mutex_lock_def split: prod.splits)
  have "reader_keeps cf ?q w q1 w'"
    by (rule next_read_keeps [OF _ _ n]) (use rep lt in \<open>simp_all add: index_defs\<close>)
  then show ?thesis by (auto simp: q' mutex_unlock_def reader_keeps_def index_defs)
qed

text \<open>The two counters after a get, and the fields of the writer.\<close>

definition counted :: "mq_queue \<Rightarrow> mq_queue \<Rightarrow> bool" where
  "counted q q' \<longleftrightarrow>
     (if get_num q + 1 \<ge> ucast (maxque q)
      then get_num q' = get_num q + 1 - ucast (maxque q) \<and> put_num q' = put_num q - ucast (maxque q)
      else get_num q' = get_num q + 1 \<and> put_num q' = put_num q)"

definition same_writer :: "mq_queue \<Rightarrow> mq_queue \<Rightarrow> bool" where
  "same_writer q q' \<longleftrightarrow> q_name q' = q_name q \<and> cur_wdb q' = cur_wdb q \<and> maxque q' = maxque q"

lemma next_file_fields:
  assumes "get_data_next_file cf q w = Some (ok, q', w')"
  shows "put_num q' = put_num q \<and> get_num q' = get_num q \<and> same_writer q q'"
proof -
  have "put_num q' = put_num q \<and> get_num q' = get_num q \<and> same_writer q q'"
    if "get_next_read_file cf q w = (ok, q', w')" for q w ok q' w'
    using that by (auto simp: get_next_read_file_def Let_def same_writer_def split: if_splits prod.splits)
  then show ?thesis
    using assms by (fastforce simp: get_data_next_file_def mutex_lock_def mutex_unlock_def same_writer_def split: if_splits prod.splits)
qed

lemma get_data_counted:
  assumes "mq_sm_get_data cf item q w = Some (True, it, q', w')"
  shows "counted q q' \<and> same_writer q q'"
proof -
  let ?P = "\<lambda>q q'. counted q q' \<and> same_writer q q'"
  have "fst r \<longrightarrow> ?P q (fst (snd (snd r)))" if "mq_sm_get_data cf item q w = Some r" for item q w r
    using that
  proof (induction rule: mq_sm_get_data.raw_induct [rotated, consumes 1])
    case (1 get cf item q w r)
    have next_file: "?P q q'" if "get_data_next_file cf q w = Some (ok, q1, w1)" "?P q1 q'" for ok q1 w1 q'
      using next_file_fields [OF that(1)] that(2) by (simp add: counted_def same_writer_def)
    have adv: "?P q (get_data_advance i q)" for i by (simp add: get_data_advance_def counted_def same_writer_def Let_def)
    have pos: "?P (upd_rdb f q) q' \<longleftrightarrow> ?P q q'" for f q' by (simp add: counted_def same_writer_def)
    have step: "?P q (fst (snd (snd r)))" if "get cf i (upd_rdb f q) v = Some r" "fst r" for i f v
      using 1(1) [OF that(1)] that(2) unfolding pos by blast
    show ?case
    proof
      assume ok: "fst r"
      show "?P q (fst (snd (snd r)))"
        using 1(2) ok adv step next_file 1(1)
        by (simp split: if_splits Option.bind_splits prod.splits) (metis fst_conv snd_conv)+
    qed
  qed
  from this [OF assms] show ?thesis by simp
qed

lemma get_data_here_keeps:
  assumes rep: "rep_at cf q w ino seg" and sg: "seg (ri_of q) = (d, b) # ms"
    and ev: "mq_sm_get_data cf item q w = Some (True, it, q', w')"
  shows "reader_keeps cf q w q' w'"
proof -
  obtain it1 q1 where g: "mq_sm_get_data cf item q w = Some (True, it1, q1, w)" "ri_of q1 = ri_of q"
    by (rule get_data_here [OF rep sg])
  moreover have "same_writer q q'" using get_data_counted [OF ev] by simp
  ultimately show ?thesis using ev by (simp add: reader_keeps_def same_writer_def wi_of_def)
qed

lemma get_data_keeps:
  assumes "rep_at cf q w ino seg" and "\<not> q_mutex q" and "messages q seg = (d, b) # ms"
    and "mq_sm_get_data cf item q w = Some (True, it, q', w')"
  shows "reader_keeps cf q w q' w'"
  using assms
proof (induction "wi_of q - ri_of q" arbitrary: q w)
  case (0 q w)
  then have "ri_of q = wi_of q" using rep_atD(6) [OF 0(2)] by simp
  then show ?case using 0(4) by (intro get_data_here_keeps [OF 0(2) _ 0(5)]) simp
next
  case (Suc n q w)
  note D = rep_atD [OF Suc(3)] and H = handlesD [OF Suc(3)]
  have lt: "ri_of q < wi_of q" using Suc(2) by simp
  show ?case
  proof (cases "seg (ri_of q)")
    case (Cons m ms')
    then have "m = (d, b)" using messages_upd_head [of q seg, OF D(6) Cons] Suc(5) by simp
    then show ?thesis using Cons by (intro get_data_here_keeps [OF Suc(3) _ Suc(6)]) simp
  next
    case Nil
    have ne: "d_cur_index (cur_rdb q) \<noteq> d_cur_index (cur_wdb q)" using lt by (auto simp: index_defs)
    obtain e where "seg_ok cf (f_data (w_files w (ino (ri_of q)))) (rpos_of q) [] e"
      using bspec [OF D(9) [unfolded data_rep_def], of "ri_of q"] D(6) Nil by auto
    then have nm: "\<forall>j. rpos_of q \<le> j \<and> j + MSG_HEAD_LEN < max_db cf \<longrightarrow> no_magic (f_data (w_files w (ino (ri_of q)))) j"
      using seg_ok_empty by blast
    obtain p where p: "mq_sm_get_data cf item q w = do {
        (ok, q', w') \<leftarrow> get_data_next_file cf (at_pos q p) w;
        if \<not> ok then Some (False, item, q', w') else mq_sm_get_data cf item q' w' }"
      by (rule get_data_end_of_file [OF D(1) ne H(1) D(7) nm])
    obtain q1 w1 where n: "\<forall>p. get_data_next_file cf (at_pos q p) w = Some (True, q1, w1)"
        "rep_at cf q1 w1 ino seg" "ri_of q1 = Suc (ri_of q)" "wi_of q1 = wi_of q" "evolves cf q w q1 w1"
      by (rule next_file_rep [OF Suc(3) lt Suc(4)])
    have "at_pos q (d_pos (cur_rdb q)) = q" by simp
    then have "get_data_next_file cf q w = Some (True, q1, w1)" using n(1) by metis
    then have k: "reader_keeps cf q w q1 w1" by (rule next_file_keeps [OF Suc(3) lt Suc(4)])
    have "mq_sm_get_data cf item q1 w1 = Some (True, it, q', w')" using p n(1) Suc(6) by simp
    moreover have "messages q1 seg = (d, b) # ms" using messages_empty_seg [of seg, OF Nil lt] Suc(5) n(3,4) by simp
    moreover have "\<not> q_mutex q1" using evolvesD(3) [OF n(5)] Suc(4) by simp
    moreover have "n = wi_of q1 - ri_of q1" using n(3,4) Suc(2) by simp
    ultimately show ?thesis using Suc(1) [of q1 w1] n(2) reader_keeps_trans [OF k] by blast
  qed
qed

end
