(* ===== verification/Durable.thy ===== *)
theory Durable
  imports Reopen_Keep Samples
begin

text \<open>
  Queues that survive a restart: the invariant \<open>durable\<close> says that the queue represents a list of messages and that its
  directory is enough to find them again. Putting and getting messages keep it, and closing and opening the queue gives a
  durable queue with the same messages.
\<close>

section \<open>The invariant\<close>

text \<open>A queue that was just created has recorded the position 0 of its reader, in front of the head of the first data file.\<close>

definition durable :: "ucmq_conf \<Rightarrow> mq_queue \<Rightarrow> world \<Rightarrow> message list \<Rightarrow> bool" where
  "durable cf q w ms \<longleftrightarrow> queue_rep cf q w ms
     \<and> (recorded cf q w \<or> d_pos (cur_rdb q) = of_nat DB_FILE_HEAD_LEN \<and> recorded cf (at_pos q 0) w)"

lemma rep_at_rewind:
  assumes rep: "rep_at cf q w ino seg" and pos: "d_pos (cur_rdb q) = of_nat DB_FILE_HEAD_LEN"
  shows "rep_at cf (at_pos q 0) w ino seg"
proof -
  note D = rep_atD [OF rep]
  let ?f = "f_data (w_files w (ino (ri_of q)))"
  have rp: "rpos_of q = DB_FILE_HEAD_LEN" using pos by (simp add: rpos_of_def DB_FILE_HEAD_LEN_def)
  obtain e where e: "ri_of q = wi_of q \<longrightarrow> e = wpos_of q" "seg_ok cf ?f DB_FILE_HEAD_LEN (seg (ri_of q)) e"
    using bspec [OF D(9) [unfolded data_rep_def], of "ri_of q"] D(6) rp by auto
  have sk: "skips ?f 0 s" if "skips ?f DB_FILE_HEAD_LEN s" "\<forall>i < DB_FILE_HEAD_LEN. ?f i \<noteq> MSG_HEAD_OF_FIRST_MAGIC_NUM" for s
    using that unfolding skips_def no_magic_def by (metis le0 linorder_not_less)
  have "seg_ok cf ?f 0 (seg (ri_of q)) e" using e(2) sk unfolding seg_ok_def by blast
  from rep_at_advance [OF rep e(1) this] show ?thesis by (simp add: rpos_of_def)
qed

lemma queue_rep_rewind:
  assumes "queue_rep cf q w ms" and "d_pos (cur_rdb q) = of_nat DB_FILE_HEAD_LEN"
  shows "queue_rep cf (at_pos q 0) w ms"
proof -
  obtain ino seg where r: "rep_at cf q w ino seg" "ms = messages q seg" "\<not> q_mutex q"
      "put_num q - get_num q = of_nat (length ms)" "length ms < 2 ^ 63"
    by (rule queue_repD [OF assms(1)])
  show ?thesis
    by (rule queue_repI [OF rep_at_rewind [OF r(1) assms(2)]]) (use r in \<open>simp_all add: index_defs\<close>)
qed

section \<open>Closing and opening\<close>

lemma recorded_same:
  assumes "same_record q q'"
  shows "recorded cf q' w = recorded cf q w"
proof -
  have r: "q_name q' = q_name q" "get_num q' = get_num q" "put_num q' = put_num q" "maxque q' = maxque q"
      "ri_of q' = ri_of q" "wi_of q' = wi_of q" "rpos_of q' = rpos_of q" "wpos_of q' = wpos_of q"
    using assms by (simp_all add: same_record_def)
  have "rtag_line q' = rtag_line q" "wtag_line q' = wtag_line q"
    using r unfolding rtag_line_def wtag_line_def rpos_of_def wpos_of_def by simp_all
  then show ?thesis unfolding recorded_def using r by simp
qed

text \<open>Opening the queue in any world with the files of the closed one.\<close>

lemma open_rep:
  assumes rep: "queue_rep cf q w ms" and rec: "recorded cf q w" and v: "same_files w v" "wf_world v"
  obtains q' w' where "open_queue cf (q_name q) l v = Some (l @ [(q_name q, q')], w')" "queue_rep cf q' w' ms" "recorded cf q' w'"
    "same_record q q'" "opens q' v w'"
proof -
  obtain ino seg where r: "rep_at cf q w ino seg" "ms = messages q seg" "\<not> q_mutex q"
      "put_num q - get_num q = of_nat (length ms)" "length ms < 2 ^ 63"
    by (rule queue_repD [OF rep])
  have f: "files_at cf q v ino seg" using r(1) files_at_cong [OF v] by (simp add: rep_at_files)
  have rc: "recorded cf q v" using rec recorded_cong [OF v(1)] by simp
  obtain q' w' where o: "open_queue cf (q_name q) l v = Some (l @ [(q_name q, q')], w')" "rep_at cf q' w' ino seg"
      "same_record q q'" "\<not> q_mutex q'" "opens q' v w'"
    by (rule open_queue_files [OF f rc])
  have "queue_rep cf q' w' ms"
    by (rule queue_repI [OF o(2) _ o(4)]) (use o(3) r in \<open>simp_all add: same_record_def\<close>)
  moreover have "recorded cf q' w'"
    unfolding recorded_same [OF o(3)] using rc recorded_cong [of v w'] o(5) by (simp add: opens_def)
  ultimately show ?thesis by (rule that [OF o(1) _ _ o(3,5)])
qed

text \<open>The record that counts is that of the queue, or that of the queue with its reader before the head of the file.\<close>

lemma durable_record:
  assumes "durable cf q w ms"
  obtains p where "queue_rep cf (at_pos q p) w ms" "recorded cf (at_pos q p) w" "p = d_pos (cur_rdb q) \<or> p = 0"
proof -
  have "at_pos q (d_pos (cur_rdb q)) = q" by simp
  then show ?thesis
    using assms queue_rep_rewind [of cf q w ms] that [of "d_pos (cur_rdb q)"] that [of 0] by (auto simp: durable_def)
qed

lemma close_at_pos: "close_queue (at_pos q p) w = close_queue q w"
  by (simp add: close_queue_def mq_sm_rtag_close_file_def mq_sm_wtag_close_file_def mq_sm_close_db_def Let_def)

lemma reopen_durable:
  assumes "durable cf q w ms"
  obtains q' w' where "open_queue cf (q_name q) l (close_queue q w) = Some (l @ [(q_name q, q')], w')" "durable cf q' w' ms"
    "q_name q' = q_name q" "maxque q' = maxque q" "get_num q' = get_num q" "put_num q' = put_num q"
    "ri_of q' = ri_of q" "wi_of q' = wi_of q" "same_files w w'"
proof -
  obtain p where p: "queue_rep cf (at_pos q p) w ms" "recorded cf (at_pos q p) w" by (rule durable_record [OF assms])
  have wf: "wf_world w" using p(1) by (auto elim: queue_repD dest: rep_atD(3))
  obtain q' w' where o: "open_queue cf (q_name (at_pos q p)) l (close_queue q w) = Some (l @ [(q_name (at_pos q p), q')], w')"
      "queue_rep cf q' w' ms" "recorded cf q' w'" "same_record (at_pos q p) q'" "opens q' (close_queue q w) w'"
    by (rule open_rep [OF p close_same_files wf_close_queue [OF wf]])
  have "same_files w w'" using o(5) close_same_files [of w q] by (simp add: opens_def same_files_def)
  then show ?thesis using o by (intro that [of q' w']) (simp_all add: durable_def same_record_def ri_of_def wi_of_def)
qed

section \<open>Putting and getting\<close>

lemma tag_put_ends:
  assumes "tag_fd w fd p" and "tag_size w p + length ln < 2 ^ 31"
  shows "tag_ends (tag_put fd ln w) p ln"
proof -
  obtain d where d: "w_fds w fd = Some d" "lookup_path w p = Some (RegN (o_ino d))"
      "o_append d \<or> o_off d = f_size (w_files w (o_ino d))"
    using assms(1) by (auto simp: tag_fd_def)
  let ?f = "w_files w (o_ino d)"
  have "w_files (tag_put fd ln w) (o_ino d) = file_write ?f (f_size ?f) ln" using d(1,3) by (auto simp: tag_put_def fd_put_def Let_def)
  then show ?thesis
    using d(2) assms(2) unfolding tag_ends_def tag_size_def
    by (intro exI [of _ "o_ino d"]) (simp add: file_write_def bytes_at_put_same)
qed

lemma tag_put_keeps:
  assumes "tag_ends w p ln" and "\<And>i. lookup_path w p = Some (RegN i) \<Longrightarrow> i \<noteq> o_ino (the (w_fds w fd))"
  shows "tag_ends (tag_put fd ln' w) p ln"
  by (rule tag_ends_cong [OF assms(1)]) (use assms(2) in auto)

lemma tag_put_size:
  assumes "tag_fd w fd p"
  shows "tag_size (tag_put fd ln w) p = tag_size w p + length ln"
  using assms unfolding tag_fd_def tag_size_def tag_put_def fd_put_def Let_def by (auto simp: file_write_def lookup_path_def)

lemma tag_put_size_other:
  assumes "\<And>i. lookup_path w p = Some (RegN i) \<Longrightarrow> i \<noteq> o_ino (the (w_fds w fd))"
  shows "tag_size (tag_put fd ln w) p = tag_size w p"
  by (rule tag_size_cong) (use assms in auto)

lemma only_files_tag_put [simp]: "only_files cf nm (tag_put fd ln w) ri wi = only_files cf nm w ri wi"
  by (simp add: only_files_iff)

lemma push_records:
  assumes rep: "queue_rep cf q w ms" and it: "put_item item d b" and b: "body_ok cf b"
    and room: "maxque q = 0 \<or> length ms < unat (maxque q)" "Suc (length ms) < 2 ^ 63"
    and lt: "Suc (wi_of q) < 2 ^ 64" and sp: "\<not> storage_short cf w"
    and tr: "tag_size w (wtag_path cf (q_name q) (wi_of q)) + Suc WTAG_ITEM_LEN < 2 ^ 31"
  obtains q' w' where "mq_qm_push_item cf q item w = Some (QUEUE_PUT_OK, q', w')"
    and "queue_rep cf q' w' (ms @ [(d, b)])" "wi_of q' \<le> Suc (wi_of q)"
    and "q_name q' = q_name q" "cur_rdb q' = cur_rdb q" "get_num q' = get_num q" "maxque q' = maxque q"
    and "evolves cf q w q' w'"
    and "tag_size w' (wtag_path cf (q_name q) (wi_of q')) \<le> tag_size w (wtag_path cf (q_name q) (wi_of q)) + 2 * Suc WTAG_ITEM_LEN"
    and "tag_size w' (rtag_path cf (q_name q) (ri_of q)) = tag_size w (rtag_path cf (q_name q) (ri_of q))"
    and "tag_ends w' (wtag_path cf (q_name q) (wi_of q')) (wtag_line q')"
    and "\<And>ln. tag_ends w (rtag_path cf (q_name q) (ri_of q)) ln \<Longrightarrow> tag_ends w' (rtag_path cf (q_name q) (ri_of q)) ln"
    and "only_files cf (q_name q) w (ri_of q) (wi_of q) \<Longrightarrow> only_files cf (q_name q) w' (ri_of q) (wi_of q')"
proof -
  obtain ino seg where r: "rep_at cf q w ino seg" "\<not> q_mutex q" by (rule queue_repD [OF rep])
  obtain q' w' where p: "mq_qm_push_item cf q item w = Some (QUEUE_PUT_OK, q', w')"
      "queue_rep cf q' w' (ms @ [(d, b)])" "wi_of q' \<le> Suc (wi_of q)" "evolves cf q w q' w'"
    by (rule push_room [OF rep it b room lt sp])
  obtain q1 w1 it' where s: "item_for it' d b" "mq_sm_db_write_msg cf q it' w = Some (True, q1, w1)"
      "mq_qm_push_item cf q item w = Some (QUEUE_PUT_OK, q1\<lparr>sync_intv := sync_countdown cf (sync_intv q1)\<rparr>,
         tag_put (wtag_fd q1) (wtag_line q1) w1)"
    by (rule push_steps [OF rep it b room(1) lt sp])
  have e: "q' = q1\<lparr>sync_intv := sync_countdown cf (sync_intv q1)\<rparr>" "w' = tag_put (wtag_fd q1) (wtag_line q1) w1"
    using p(1) s(3) by simp_all
  obtain ino' seg' where r1: "rep_at cf q1 w1 ino' seg'"
    using write_msg_rep [OF r s(1) b lt sp] s(2) by (metis option.inject prod.inject)
  have k: "writer_keeps cf q w q1 w1" by (rule write_msg_keeps [OF r s(1) b lt sp s(2)])
  then have K: "q_name q1 = q_name q" "cur_rdb q1 = cur_rdb q" "get_num q1 = get_num q" "ri_of q1 = ri_of q" "maxque q1 = maxque q"
    by (simp_all add: writer_keeps_def ri_of_def)
  have "tag_size w1 (wtag_path cf (q_name q) (wi_of q1)) + length (wtag_line q1) < 2 ^ 31"
    using k tr unfolding writer_keeps_def wtag.length_line by (auto simp: WTAG_ITEM_LEN_def)
  then have wt: "tag_ends w' (wtag_path cf (q_name q) (wi_of q1)) (wtag_line q1)"
    unfolding e(2) using handlesD(5) [OF r1] K(1) by (intro tag_put_ends) simp_all
  have rt: "tag_ends w' (rtag_path cf (q_name q) (ri_of q)) ln" if "tag_ends w (rtag_path cf (q_name q) (ri_of q)) ln" for ln
    unfolding e(2) using k that rtag_ino(3) [OF r1] K by (intro tag_put_keeps) (auto simp: writer_keeps_def)
  have "only_files cf (q_name q) w' (ri_of q) (wi_of q1)" if "only_files cf (q_name q) w (ri_of q) (wi_of q)"
    unfolding e(2) using k that K(4) by (simp add: writer_keeps_def)
  moreover have "wi_of q' = wi_of q1" "wtag_line q' = wtag_line q1" by (simp_all add: e(1) index_defs wtag_line_def)
  moreover have "tag_size w' (wtag_path cf (q_name q) (wi_of q1)) \<le> tag_size w (wtag_path cf (q_name q) (wi_of q)) + 2 * Suc WTAG_ITEM_LEN"
  proof -
    have "tag_size w1 (wtag_path cf (q_name q) (wi_of q1)) \<le> max (tag_size w (wtag_path cf (q_name q) (wi_of q))) (Suc WTAG_ITEM_LEN)"
      using k by (simp add: writer_keeps_def)
    then show ?thesis using tag_put_size [OF handlesD(5) [OF r1], of "wtag_line q1"] K(1) by (simp add: e(2) wtag.length_line max_def split: if_splits)
  qed
  moreover have "tag_size w' (rtag_path cf (q_name q) (ri_of q)) = tag_size w (rtag_path cf (q_name q) (ri_of q))"
    using tag_put_size_other [of w1 _ "wtag_fd q1", OF rtag_ino(3) [OF r1]] k K(1,4) unfolding e(2) writer_keeps_def by simp
  ultimately show ?thesis using wt rt K p by (intro that [OF p(1-3)]) (simp_all add: e(1))
qed

lemma pop_records:
  assumes rep: "queue_rep cf q w ((d, b) # ms)"
    and tr: "tag_size w (rtag_path cf (q_name q) (ri_of q)) + Suc RTAG_ITEM_LEN < 2 ^ 31"
  obtains it q' w' where "mq_qm_pop_item cf q item w = Some (QUEUE_GET_OK, it, q', w')"
    and "delay it = d" "load_msg w' (msg it) (unat (len it)) = Some b" "queue_rep cf q' w' ms"
    and "counted q q'" "same_writer q q'" "evolves cf q w q' w'"
    and "tag_size w' (rtag_path cf (q_name q) (ri_of q')) \<le> tag_size w (rtag_path cf (q_name q) (ri_of q)) + 2 * Suc RTAG_ITEM_LEN"
    and "tag_size w' (wtag_path cf (q_name q) (wi_of q)) = tag_size w (wtag_path cf (q_name q) (wi_of q))"
    and "tag_ends w' (rtag_path cf (q_name q) (ri_of q')) (rtag_line q')"
    and "\<And>ln. tag_ends w (wtag_path cf (q_name q) (wi_of q)) ln \<Longrightarrow> tag_ends w' (wtag_path cf (q_name q) (wi_of q)) ln"
    and "only_files cf (q_name q) w (ri_of q) (wi_of q) \<Longrightarrow> only_files cf (q_name q) w' (ri_of q') (wi_of q)"
proof -
  obtain ino seg where r: "rep_at cf q w ino seg" "(d, b) # ms = messages q seg" "\<not> q_mutex q" by (rule queue_repD [OF rep])
  obtain it q' w' where p: "mq_qm_pop_item cf q item w = Some (QUEUE_GET_OK, it, q', w')"
      "delay it = d" "load_msg w' (msg it) (unat (len it)) = Some b" "queue_rep cf q' w' ms" "evolves cf q w q' w'"
    by (rule pop_message [OF rep])
  obtain w1 i where s: "mq_sm_get_data cf i q w = Some (True, it, q', w1)" and w': "w' = tag_put (rtag_fd q') (rtag_line q') w1"
    using p(1) by (rule_tac pop_steps [OF rep, of item]) auto
  obtain seg' where r1: "rep_at cf q' w1 ino seg'"
    using get_data_rep [OF r(1,3) r(2) [symmetric], of i] s by (metis option.inject prod.inject)
  have k: "reader_keeps cf q w q' w1" by (rule get_data_keeps [OF r(1,3) r(2) [symmetric] s])
  then have K: "q_name q' = q_name q" "wi_of q' = wi_of q" by (simp_all add: reader_keeps_def wi_of_def)
  have c: "counted q q'" "same_writer q q'" using get_data_counted [OF s] by simp_all
  have "tag_size w1 (rtag_path cf (q_name q) (ri_of q')) + length (rtag_line q') < 2 ^ 31"
    using k tr unfolding reader_keeps_def rtag.length_line by (auto simp: RTAG_ITEM_LEN_def)
  then have rt: "tag_ends w' (rtag_path cf (q_name q) (ri_of q')) (rtag_line q')"
    unfolding w' using handlesD(4) [OF r1] K(1) by (intro tag_put_ends) simp_all
  have wt: "tag_ends w' (wtag_path cf (q_name q) (wi_of q)) ln" if "tag_ends w (wtag_path cf (q_name q) (wi_of q)) ln" for ln
    unfolding w' using k that wtag_ino(2) [OF r1] K by (intro tag_put_keeps) (auto simp: reader_keeps_def)
  have "only_files cf (q_name q) w' (ri_of q') (wi_of q)" if "only_files cf (q_name q) w (ri_of q) (wi_of q)"
    unfolding w' using k that K(2) by (simp add: reader_keeps_def)
  moreover have "tag_size w' (rtag_path cf (q_name q) (ri_of q')) \<le> tag_size w (rtag_path cf (q_name q) (ri_of q)) + 2 * Suc RTAG_ITEM_LEN"
  proof -
    have "tag_size w1 (rtag_path cf (q_name q) (ri_of q')) \<le> max (tag_size w (rtag_path cf (q_name q) (ri_of q))) (Suc RTAG_ITEM_LEN)"
      using k by (simp add: reader_keeps_def)
    then show ?thesis using tag_put_size [OF handlesD(4) [OF r1], of "rtag_line q'"] K(1) by (simp add: w' rtag.length_line max_def split: if_splits)
  qed
  moreover have "tag_size w' (wtag_path cf (q_name q) (wi_of q)) = tag_size w (wtag_path cf (q_name q) (wi_of q))"
    using tag_put_size_other [of w1 _ "rtag_fd q'", OF wtag_ino(2) [OF r1]] k K unfolding w' reader_keeps_def by simp
  ultimately show ?thesis using wt rt by (intro that [OF p(1-4) c p(5)]) simp_all
qed

text \<open>The invariant over a put and a get.\<close>

lemma push_durable:
  assumes dur: "durable cf q w ms" and it: "put_item item d b" and b: "body_ok cf b"
    and room: "maxque q = 0 \<or> length ms < unat (maxque q)" "Suc (length ms) < 2 ^ 63"
    and lt: "Suc (wi_of q) < 10 ^ 12" and sp: "\<not> storage_short cf w"
    and tr: "tag_size w (wtag_path cf (q_name q) (wi_of q)) + Suc WTAG_ITEM_LEN < 2 ^ 31"
  obtains q' w' where "mq_qm_push_item cf q item w = Some (QUEUE_PUT_OK, q', w')" "durable cf q' w' (ms @ [(d, b)])"
    and "wi_of q' \<le> Suc (wi_of q)" "ri_of q' = ri_of q" "get_num q' = get_num q" "evolves cf q w q' w'"
    and "tag_size w' (wtag_path cf (q_name q) (wi_of q')) \<le> tag_size w (wtag_path cf (q_name q) (wi_of q)) + 2 * Suc WTAG_ITEM_LEN"
    and "tag_size w' (rtag_path cf (q_name q) (ri_of q)) = tag_size w (rtag_path cf (q_name q) (ri_of q))"
proof -
  have rep: "queue_rep cf q w ms" using dur by (simp add: durable_def)
  have lt': "Suc (wi_of q) < 2 ^ 64" using lt by simp
  obtain q' w' where p: "mq_qm_push_item cf q item w = Some (QUEUE_PUT_OK, q', w')"
      "queue_rep cf q' w' (ms @ [(d, b)])" "wi_of q' \<le> Suc (wi_of q)"
      "q_name q' = q_name q" "cur_rdb q' = cur_rdb q" "get_num q' = get_num q" "maxque q' = maxque q" "evolves cf q w q' w'"
      "tag_size w' (wtag_path cf (q_name q) (wi_of q')) \<le> tag_size w (wtag_path cf (q_name q) (wi_of q)) + 2 * Suc WTAG_ITEM_LEN"
      "tag_size w' (rtag_path cf (q_name q) (ri_of q)) = tag_size w (rtag_path cf (q_name q) (ri_of q))"
      "tag_ends w' (wtag_path cf (q_name q) (wi_of q')) (wtag_line q')"
      "\<And>ln. tag_ends w (rtag_path cf (q_name q) (ri_of q)) ln \<Longrightarrow> tag_ends w' (rtag_path cf (q_name q) (ri_of q)) ln"
      "only_files cf (q_name q) w (ri_of q) (wi_of q) \<Longrightarrow> only_files cf (q_name q) w' (ri_of q) (wi_of q')"
    by (rule push_records [OF rep it b room lt' sp tr]) (assumption | blast)+
  have ri: "ri_of q' = ri_of q" using p(5) by (simp add: ri_of_def)
  have "recorded cf (at_pos q' x) w'" if "recorded cf (at_pos q x) w" for x
  proof -
    have "rtag_line (at_pos q' x) = rtag_line (at_pos q x)" "wtag_line (at_pos q' x) = wtag_line q'"
        "wi_of (at_pos q' x) = wi_of q'" "ri_of (at_pos q' x) = ri_of q" "wi_of (at_pos q x) = wi_of q" "ri_of (at_pos q x) = ri_of q"
      using p(5,6) by (simp_all add: rtag_line_def wtag_line_def index_defs)
    then show ?thesis using that p(3,4,11-13) lt by (simp add: recorded_def)
  qed
  moreover have "at_pos q (d_pos (cur_rdb q)) = q" "at_pos q' (d_pos (cur_rdb q')) = q'" by simp_all
  ultimately have "durable cf q' w' (ms @ [(d, b)])" using dur p(2,5) unfolding durable_def by metis
  then show ?thesis by (rule that [OF p(1) _ p(3) ri p(6,8-10)])
qed

lemma pop_durable:
  assumes dur: "durable cf q w ((d, b) # ms)" and nw: "maxque q = 0 \<or> get_num q + 1 < ucast (maxque q)"
    and tr: "tag_size w (rtag_path cf (q_name q) (ri_of q)) + Suc RTAG_ITEM_LEN < 2 ^ 31"
  obtains it q' w' where "mq_qm_pop_item cf q item w = Some (QUEUE_GET_OK, it, q', w')"
    and "delay it = d" "load_msg w' (msg it) (unat (len it)) = Some b" "durable cf q' w' ms"
    and "get_num q' = get_num q + 1" "wi_of q' = wi_of q" "evolves cf q w q' w'"
    and "tag_size w' (rtag_path cf (q_name q) (ri_of q')) \<le> tag_size w (rtag_path cf (q_name q) (ri_of q)) + 2 * Suc RTAG_ITEM_LEN"
    and "tag_size w' (wtag_path cf (q_name q) (wi_of q)) = tag_size w (wtag_path cf (q_name q) (wi_of q))"
proof -
  have rep: "queue_rep cf q w ((d, b) # ms)" using dur by (simp add: durable_def)
  obtain it q' w' where p: "mq_qm_pop_item cf q item w = Some (QUEUE_GET_OK, it, q', w')"
      "delay it = d" "load_msg w' (msg it) (unat (len it)) = Some b" "queue_rep cf q' w' ms"
      "counted q q'" "same_writer q q'" "evolves cf q w q' w'"
      "tag_size w' (rtag_path cf (q_name q) (ri_of q')) \<le> tag_size w (rtag_path cf (q_name q) (ri_of q)) + 2 * Suc RTAG_ITEM_LEN"
      "tag_size w' (wtag_path cf (q_name q) (wi_of q)) = tag_size w (wtag_path cf (q_name q) (wi_of q))"
      "tag_ends w' (rtag_path cf (q_name q) (ri_of q')) (rtag_line q')"
      "\<And>ln. tag_ends w (wtag_path cf (q_name q) (wi_of q)) ln \<Longrightarrow> tag_ends w' (wtag_path cf (q_name q) (wi_of q)) ln"
      "only_files cf (q_name q) w (ri_of q) (wi_of q) \<Longrightarrow> only_files cf (q_name q) w' (ri_of q') (wi_of q)"
    by (rule pop_records [OF rep tr]) (assumption | blast)+
  have c: "get_num q' = get_num q + 1" "put_num q' = put_num q" using p(5) nw by (auto simp: counted_def split: if_splits)
  have w: "q_name q' = q_name q" "cur_wdb q' = cur_wdb q" "maxque q' = maxque q" using p(6) by (simp_all add: same_writer_def)
  have wi: "wi_of q' = wi_of q" "wtag_line q' = wtag_line q" using w c by (simp_all add: wi_of_def wtag_line_def)
  obtain x where "recorded cf (at_pos q x) w" by (rule durable_record [OF dur])
  moreover have "wtag_line (at_pos q x) = wtag_line q" "wi_of (at_pos q x) = wi_of q" "ri_of (at_pos q x) = ri_of q"
    by (simp_all add: wtag_line_def index_defs)
  ultimately have "recorded cf q' w'" using p(10-12) w(1) wi by (simp add: recorded_def)
  then have "durable cf q' w' ms" using p(4) by (simp add: durable_def)
  then show ?thesis by (rule that [OF p(1-3) _ c(1) wi(1) p(7-9)])
qed

section \<open>A new queue\<close>

text \<open>The reader's tag file of a new queue records the position 0, and so does the writer's until the first put.\<close>

lemma ready_records:
  assumes cf: "conf_ok cf" and pk: "path_ok cf nm" and wf: "wf_world w" "w_faults w = []" and fr: "fresh_dir cf nm w"
    and on: "names_once w"
  defines "q \<equiv> made_queue cf nm w" and "v \<equiv> queue_ready cf nm w"
  shows "only_files cf nm v 1 1" and "tag_ends v (rtag_path cf nm 1) (rtag_line (at_pos q 0))"
    and "tag_ends v (wtag_path cf nm 1) (wtag_line (first_queue cf nm w))"
    and "tag_size v (rtag_path cf nm 1) = Suc RTAG_ITEM_LEN" and "tag_size v (wtag_path cf nm 1) = Suc WTAG_ITEM_LEN"
proof -
  note V = queue_made_views [OF pk fr] and rep = queue_made_rep [OF cf pk wf fr]
  let ?w0 = "queue_made cf nm w" and ?r = "rtag_line (first_queue cf nm w)" and ?t = "wtag_line (first_queue cf nm w)"
  define v1 where "v1 = tag_put (int (w_next_fd w)) ?r ?w0"
  have v: "v = tag_put (int (w_next_fd w + 1)) ?t v1" by (simp add: v_def v1_def queue_ready_def)
  have rep1: "rep_at cf (made_queue cf nm w) v1 (\<lambda>_. w_next_ino w + 2) (\<lambda>_. [])" unfolding v1_def by (rule tag_put_rep [OF rep]) simp
  have own: "own_path cf nm (queue_dir cf nm)" by (simp add: own_path_def)
  have free: "lookup_path w (queue_dir cf nm) = None" "lookup_path w (GEN_DATA_FULL_PATH_BY_QNAME_INDEX cf nm 1) = None"
      "lookup_path w (GEN_WTAG_FULL_PATH_BY_QNAME_INDEX cf nm 1) = None" "lookup_path w (GEN_RTAG_FULL_PATH_BY_QNAME_INDEX cf nm 1) = None"
    using fr pk own by (simp_all add: fresh_dir_def)
  have "names_once (dir_made (queue_dir cf nm) w)"
    using on free(1) by (auto simp: names_once_def dir_made_def lookup_path_def map_of_eq_None_iff)
  then have "names_once ?w0"
    unfolding queue_made_def using free paths_not_dir [OF pk] pk
    by (intro names_once_db_create names_once_open_new) simp_all
  moreover have "c \<in> file_names 1 1" if "CHR ''/'' \<notin> set c" "lookup_path ?w0 (queue_dir cf nm @ ''/'' @ c) \<noteq> None" for c
    using that fr unfolding V(1) full_paths [OF pk] fresh_dir_def own_path_def by (auto simp: file_names_def split: if_splits)
  ultimately show "only_files cf nm v 1 1" unfolding v v1_def only_files_tag_put only_files_names by simp
  have h0: "tag_fd ?w0 (int (w_next_fd w)) (rtag_path cf nm 1)" using handlesD(4) [OF rep] by simp
  have h1: "tag_fd v1 (int (w_next_fd w + 1)) (wtag_path cf nm 1)" using handlesD(5) [OF rep1] by simp
  have ne: "i \<noteq> o_ino (the (w_fds v1 (int (w_next_fd w + 1))))" if "lookup_path v1 (rtag_path cf nm 1) = Some (RegN i)" for i
    using rtag_ino(3) [OF rep1] that by simp
  have ne0: "i \<noteq> o_ino (the (w_fds ?w0 (int (w_next_fd w))))" if "lookup_path ?w0 (wtag_path cf nm 1) = Some (RegN i)" for i
    using wtag_ino(2) [OF rep] that by simp
  have z: "tag_size ?w0 (rtag_path cf nm 1) = 0" "tag_size ?w0 (wtag_path cf nm 1) = 0"
    using pk by (simp_all add: tag_size_def V(1,2) empty_file_def)
  have ln: "rtag_line (at_pos q 0) = ?r" by (simp add: q_def rtag_line_def first_queue_def made_queue_def zero_queue_def zero_db_map_def Let_def)
  show "tag_ends v (rtag_path cf nm 1) (rtag_line (at_pos q 0))"
    unfolding ln v v1_def [symmetric] using tag_put_ends [OF h0, of ?r] z(1) ne
    by (intro tag_put_keeps) (simp_all add: v1_def rtag.length_line RTAG_ITEM_LEN_def)
  show sz: "tag_size v (rtag_path cf nm 1) = Suc RTAG_ITEM_LEN"
    unfolding v using tag_put_size_other [of v1 "rtag_path cf nm 1" "int (w_next_fd w + 1)" ?t, OF ne] tag_put_size [OF h0, of ?r] z(1) by (simp add: v1_def rtag.length_line)
  have z1: "tag_size v1 (wtag_path cf nm 1) = 0" unfolding v1_def using tag_put_size_other [of ?w0 "wtag_path cf nm 1" "int (w_next_fd w)" ?r, OF ne0] z(2) by simp
  show "tag_ends v (wtag_path cf nm 1) ?t"
    unfolding v by (rule tag_put_ends [OF h1]) (use z1 in \<open>simp add: wtag.length_line WTAG_ITEM_LEN_def\<close>)
  show "tag_size v (wtag_path cf nm 1) = Suc WTAG_ITEM_LEN"
    unfolding v tag_put_size [OF h1] using z1 by (simp add: wtag.length_line)
qed

lemma first_put:
  assumes cf: "conf_ok cf" and pk: "path_ok cf nm" and wf: "wf_world w" "w_faults w = []" and fr: "fresh_dir cf nm w"
    and nm: "CHR ''/'' \<notin> set nm" "length nm \<le> MAX_QUEUE_NAME_LEN" and dp: "has_dir w (data_file_path cf)"
    and sp: "\<not> storage_short cf w" and lim: "int (length l) < max_qlist_itmes cf" and on: "names_once w"
    and it: "put_item item d b" and b: "body_ok cf b"
  obtains q w1 q' w' where "mq_qm_add_queue cf nm l w = Some (Some (length l), l @ [(nm, q)], w1)"
    and "mq_qm_push_item cf q item w1 = Some (QUEUE_PUT_OK, q', w')" "durable cf q' w' [(d, b)]" "q_name q' = nm"
    and "get_num q' = 0" "maxque q' = def_max_queue cf" "wi_of q' \<le> 2" "\<not> storage_short cf w'"
    and "tag_size w' (wtag_path cf nm (wi_of q')) \<le> 3 * Suc WTAG_ITEM_LEN" "tag_size w' (rtag_path cf nm (ri_of q')) \<le> Suc RTAG_ITEM_LEN"
    and "\<And>p. own_path cf nm p \<or> lookup_path w' p = lookup_path w p"
proof -
  let ?q = "made_queue cf nm w" and ?v = "queue_ready cf nm w"
  note A = add_queue_new [OF cf pk wf fr nm dp sp lim] and R = ready_records [OF cf pk wf fr on]
  have st: "storage_short cf ?v = storage_short cf w"
    using queue_made_views(9,10) [OF pk fr] by (intro storage_short_cong) (simp_all add: queue_ready_def)
  have tr: "tag_size ?v (wtag_path cf (q_name ?q) (wi_of ?q)) + Suc WTAG_ITEM_LEN < 2 ^ 31" using R(5) by (simp add: WTAG_ITEM_LEN_def)
  obtain q' w' where p: "mq_qm_push_item cf ?q item ?v = Some (QUEUE_PUT_OK, q', w')"
      "queue_rep cf q' w' ([] @ [(d, b)])" "wi_of q' \<le> Suc (wi_of ?q)"
      "q_name q' = q_name ?q" "cur_rdb q' = cur_rdb ?q" "get_num q' = get_num ?q" "maxque q' = maxque ?q" "evolves cf ?q ?v q' w'"
      "tag_size w' (wtag_path cf (q_name ?q) (wi_of q')) \<le> tag_size ?v (wtag_path cf (q_name ?q) (wi_of ?q)) + 2 * Suc WTAG_ITEM_LEN"
      "tag_size w' (rtag_path cf (q_name ?q) (ri_of ?q)) = tag_size ?v (rtag_path cf (q_name ?q) (ri_of ?q))"
      "tag_ends w' (wtag_path cf (q_name ?q) (wi_of q')) (wtag_line q')"
      "\<And>ln. tag_ends ?v (rtag_path cf (q_name ?q) (ri_of ?q)) ln \<Longrightarrow> tag_ends w' (rtag_path cf (q_name ?q) (ri_of ?q)) ln"
      "only_files cf (q_name ?q) ?v (ri_of ?q) (wi_of ?q) \<Longrightarrow> only_files cf (q_name ?q) w' (ri_of ?q) (wi_of q')"
    by (rule push_records [OF A(2) it b _ _ _ _ tr]) (use sp st in \<open>simp_all add: word_less_nat_alt unat_gt_0\<close>)
  have ri: "ri_of q' = 1" "d_pos (cur_rdb q') = of_nat DB_FILE_HEAD_LEN"
    using p(5) made_queue_simps(8) [of cf nm w] by (simp_all add: ri_of_def made_queue_def Let_def DB_FILE_HEAD_LEN_def)
  have "rtag_line (at_pos q' 0) = rtag_line (at_pos ?q 0)" using p(5,6) by (simp add: rtag_line_def)
  moreover have "wtag_line (at_pos q' 0) = wtag_line q'" "wi_of (at_pos q' 0) = wi_of q'" "ri_of (at_pos q' 0) = 1"
    using ri(1) by (simp_all add: wtag_line_def index_defs)
  ultimately have "recorded cf (at_pos q' 0) w'"
    using p(3,4) p(11-13) R(1,2) nm(2) by (simp add: recorded_def)
  then have "durable cf q' w' [(d, b)]" using p(2) ri(2) by (simp add: durable_def)
  moreover have "own_path cf nm x \<or> lookup_path w' x = lookup_path w x" for x
  proof -
    have "own_path cf nm (queue_dir cf nm)" by (simp add: own_path_def)
    then have "own_path cf nm x \<or> lookup_path ?v x = lookup_path w x"
      using pk by (auto simp: queue_ready_def queue_made_views(1) [OF pk fr])
    then show ?thesis using evolvesD(9) [OF p(8), of x] by auto
  qed
  moreover have "\<not> storage_short cf w'" using sp st storage_short_cong evolvesD(4,5) [OF p(8)] by blast
  ultimately show ?thesis
    using p R(4,5) ri(1) by (intro that [OF A(1) p(1)]) simp_all
qed

end
