(* ===== verification/Durable_Session.thy ===== *)
theory Durable_Session
  imports Durable
begin

text \<open>
  Sequences of puts, gets and restarts of one queue. The locale states what a persistent bounded queue promises and
  derives the replies to a sequence of operations; its interpretation is the queue of the library, restarted by closing
  it and opening it from its directory.
\<close>

section \<open>The contract of a persistent queue\<close>

datatype 'm persist_op = Push 'm | Pop | Restart

datatype 'm persist_reply = Pushed bool | Popped "'m option" | Restarted

fun spec_session :: "nat \<Rightarrow> 'm persist_op list \<Rightarrow> 'm list \<Rightarrow> 'm persist_reply list \<times> 'm list" where
  "spec_session lim [] ms = ([], ms)"
| "spec_session lim (Push m # ops) ms =
     (let room = (lim = 0 \<or> length ms < lim); (rs, ms') = spec_session lim ops (if room then ms @ [m] else ms)
      in (Pushed room # rs, ms'))"
| "spec_session lim (Pop # ops) ms =
     (let (rs, ms') = spec_session lim ops (drop 1 ms) in (Popped (if ms = [] then None else Some (ms ! 0)) # rs, ms'))"
| "spec_session lim (Restart # ops) ms = (let (rs, ms') = spec_session lim ops ms in (Restarted # rs, ms'))"

fun session :: "('m \<Rightarrow> 's \<Rightarrow> (bool \<times> 's) option) \<Rightarrow> ('s \<Rightarrow> ('m option \<times> 's) option) \<Rightarrow> ('s \<Rightarrow> 's option) \<Rightarrow>
    'm persist_op list \<Rightarrow> 's \<Rightarrow> ('m persist_reply list \<times> 's) option" where
  "session push pop restart [] s = Some ([], s)"
| "session push pop restart (Push m # ops) s =
     (case push m s of None \<Rightarrow> None
      | Some (b, s) \<Rightarrow> map_option (\<lambda>(rs, s). (Pushed b # rs, s)) (session push pop restart ops s))"
| "session push pop restart (Pop # ops) s =
     (case pop s of None \<Rightarrow> None
      | Some (r, s) \<Rightarrow> map_option (\<lambda>(rs, s). (Popped r # rs, s)) (session push pop restart ops s))"
| "session push pop restart (Restart # ops) s =
     (case restart s of None \<Rightarrow> None
      | Some s \<Rightarrow> map_option (\<lambda>(rs, s). (Restarted # rs, s)) (session push pop restart ops s))"

fun pushes_ok :: "('m \<Rightarrow> bool) \<Rightarrow> 'm persist_op list \<Rightarrow> bool" where
  "pushes_ok ok [] \<longleftrightarrow> True"
| "pushes_ok ok (Push m # ops) \<longleftrightarrow> ok m \<and> pushes_ok ok ops"
| "pushes_ok ok (_ # ops) \<longleftrightarrow> pushes_ok ok ops"

text \<open>How many replies hand out a message.\<close>

fun messages_got :: "'m persist_reply list \<Rightarrow> nat" where
  "messages_got [] = 0"
| "messages_got (Popped (Some m) # rs) = Suc (messages_got rs)"
| "messages_got (_ # rs) = messages_got rs"

text \<open>\<open>rep n g\<close> has room for \<open>n\<close> more operations, of which \<open>g\<close> may get a message.\<close>

locale persistent_queue =
  fixes lim :: nat and ok :: "'m \<Rightarrow> bool" and rep :: "nat \<Rightarrow> nat \<Rightarrow> 's \<Rightarrow> 'm list \<Rightarrow> bool"
    and push :: "'m \<Rightarrow> 's \<Rightarrow> (bool \<times> 's) option" and pop :: "'s \<Rightarrow> ('m option \<times> 's) option" and restart :: "'s \<Rightarrow> 's option"
  assumes push_law: "rep (Suc n) g s ms \<Longrightarrow> ok m \<Longrightarrow> lim = 0 \<or> length ms < lim \<Longrightarrow> \<exists>s'. push m s = Some (True, s') \<and> rep n g s' (ms @ [m])"
    and full_law: "rep (Suc n) g s ms \<Longrightarrow> ok m \<Longrightarrow> lim \<noteq> 0 \<Longrightarrow> lim \<le> length ms \<Longrightarrow> \<exists>s'. push m s = Some (False, s') \<and> rep n g s' ms"
    and pop_law: "rep (Suc n) (Suc g) s (m # ms) \<Longrightarrow> \<exists>s'. pop s = Some (Some m, s') \<and> rep n g s' ms"
    and empty_law: "rep (Suc n) g s [] \<Longrightarrow> \<exists>s'. pop s = Some (None, s') \<and> rep n g s' []"
    and restart_law: "rep (Suc n) g s ms \<Longrightarrow> \<exists>s'. restart s = Some s' \<and> rep n g s' ms"
begin

lemma session_refines:
  assumes "rep (length ops) (messages_got (fst (spec_session lim ops ms))) s ms" and "pushes_ok ok ops"
  shows "\<exists>s'. session push pop restart ops s = Some (fst (spec_session lim ops ms), s') \<and> rep 0 0 s' (snd (spec_session lim ops ms))"
  using assms
proof (induction ops arbitrary: ms s)
  case (Cons op ops)
  show ?case
  proof (cases op)
    case (Push m)
    let ?room = "lim = 0 \<or> length ms < lim" and ?ms = "if lim = 0 \<or> length ms < lim then ms @ [m] else ms"
    let ?g = "messages_got (fst (spec_session lim ops ?ms))"
    have "\<exists>s'. push m s = Some (?room, s') \<and> rep (length ops) ?g s' ?ms"
      using push_law [of "length ops" ?g s ms m] full_law [of "length ops" ?g s ms m] Cons.prems Push by (auto simp: split_beta Let_def)
    then obtain s' where "push m s = Some (?room, s')" "rep (length ops) ?g s' ?ms" by blast
    then show ?thesis using Cons.IH [of ?ms s'] Cons.prems(2) Push by (auto simp: split_beta Let_def)
  next
    case Pop
    let ?g = "messages_got (fst (spec_session lim ops (drop 1 ms)))"
    have "\<exists>s'. pop s = Some (if ms = [] then None else Some (ms ! 0), s') \<and> rep (length ops) ?g s' (drop 1 ms)"
      using pop_law [of "length ops" ?g s] empty_law [of "length ops" ?g s] Cons.prems(1) Pop by (cases ms) (auto simp: split_beta)
    then obtain s' where "pop s = Some (if ms = [] then None else Some (ms ! 0), s')" "rep (length ops) ?g s' (drop 1 ms)" by blast
    then show ?thesis using Cons.IH [of "drop 1 ms" s'] Cons.prems(2) Pop by (auto simp: split_beta)
  next
    case Restart
    let ?g = "messages_got (fst (spec_session lim ops ms))"
    obtain s' where "restart s = Some s'" "rep (length ops) ?g s' ms"
      using restart_law [of "length ops" ?g s ms] Cons.prems(1) Restart by (auto simp: split_beta)
    then show ?thesis using Cons.IH [of ms s'] Cons.prems(2) Restart by (auto simp: split_beta)
  qed
qed simp

end

section \<open>The queue of the library\<close>

text \<open>The queue and the world it lives in.\<close>

definition queue_push :: "ucmq_conf \<Rightarrow> message \<Rightarrow> mq_queue \<times> world \<Rightarrow> (bool \<times> mq_queue \<times> world) option" where
  "queue_push cf m s =
     (case mq_qm_push_item cf (fst s) (message_item m) (snd s) of
        Some (QUEUE_PUT_OK, q, w) \<Rightarrow> Some (True, q, w)
      | Some (QUEUE_FULL, q, w) \<Rightarrow> Some (False, q, w)
      | _ \<Rightarrow> None)"

definition queue_pop :: "ucmq_conf \<Rightarrow> mq_queue \<times> world \<Rightarrow> (message option \<times> mq_queue \<times> world) option" where
  "queue_pop cf s =
     (case mq_qm_pop_item cf (fst s) (message_item (0, [])) (snd s) of
        Some (QUEUE_GET_OK, it, q, w) \<Rightarrow>
          map_option (\<lambda>b. (Some (delay it, b), q, w)) (load_msg w (msg it) (unat (len it)))
      | Some (QUEUE_GET_END, it, q, w) \<Rightarrow> Some (None, q, w)
      | _ \<Rightarrow> None)"

definition queue_restart :: "ucmq_conf \<Rightarrow> mq_queue \<times> world \<Rightarrow> (mq_queue \<times> world) option" where
  "queue_restart cf s =
     (case open_queue cf (q_name (fst s)) [] (close_queue (fst s) (snd s)) of
        Some ([(_, q)], w) \<Rightarrow> Some (q, w)
      | _ \<Rightarrow> None)"

text \<open>A durable queue with room for \<open>n\<close> operations, in its two tag files and among the indices of data files, and for \<open>g\<close> messages
  before the counter of the messages got reaches the limit of the queue, where the code subtracts it.\<close>

definition session_rep :: "ucmq_conf \<Rightarrow> nat \<Rightarrow> nat \<Rightarrow> nat \<Rightarrow> mq_queue \<times> world \<Rightarrow> message list \<Rightarrow> bool" where
  "session_rep cf lim n g s ms \<longleftrightarrow>
     (let q = fst s; w = snd s in
      durable cf q w ms \<and> unat (maxque q) = lim \<and> \<not> storage_short cf w
      \<and> length ms + n < 2 ^ 63 \<and> wi_of q + n < 10 ^ 12 \<and> (lim = 0 \<or> unat (get_num q) + g < lim)
      \<and> tag_size w (wtag_path cf (q_name q) (wi_of q)) + 2 * n * Suc WTAG_ITEM_LEN < 2 ^ 31
      \<and> tag_size w (rtag_path cf (q_name q) (ri_of q)) + 2 * n * Suc RTAG_ITEM_LEN < 2 ^ 31)"

lemma session_repD:
  assumes "session_rep cf lim n g (q, w) ms"
  shows "durable cf q w ms" "unat (maxque q) = lim" "\<not> storage_short cf w" "length ms + n < 2 ^ 63" "wi_of q + n < 10 ^ 12"
    "lim = 0 \<or> unat (get_num q) + g < lim"
    "tag_size w (wtag_path cf (q_name q) (wi_of q)) + 2 * n * Suc WTAG_ITEM_LEN < 2 ^ 31"
    "tag_size w (rtag_path cf (q_name q) (ri_of q)) + 2 * n * Suc RTAG_ITEM_LEN < 2 ^ 31"
  using assms by (simp_all add: session_rep_def Let_def)

lemma session_repI:
  assumes "durable cf q w ms" "unat (maxque q) = lim" "\<not> storage_short cf w" "length ms + n < 2 ^ 63" "wi_of q + n < 10 ^ 12"
    "lim = 0 \<or> unat (get_num q) + g < lim"
    "tag_size w (wtag_path cf (q_name q) (wi_of q)) + 2 * n * Suc WTAG_ITEM_LEN < 2 ^ 31"
    "tag_size w (rtag_path cf (q_name q) (ri_of q)) + 2 * n * Suc RTAG_ITEM_LEN < 2 ^ 31"
  shows "session_rep cf lim n g (q, w) ms"
  using assms by (simp add: session_rep_def)

lemma session_rep_less: "session_rep cf lim (Suc n) g s ms \<Longrightarrow> session_rep cf lim n g s ms"
  by (auto simp: session_rep_def Let_def)

lemma durable_conf: "durable cf q w ms \<Longrightarrow> conf_ok cf"
  by (auto simp: durable_def elim!: queue_repD dest: rep_atD(1))

lemma session_push:
  assumes s: "session_rep cf lim (Suc n) g (q, w) ms" and ok: "body_ok cf (snd m)" and room: "lim = 0 \<or> length ms < lim"
  shows "\<exists>s'. queue_push cf m (q, w) = Some (True, s') \<and> session_rep cf lim n g s' (ms @ [m])"
proof -
  note D = session_repD [OF s]
  have it: "put_item (message_item m) (fst m) (snd m)" by (rule message_item_put [OF durable_conf [OF D(1)] ok])
  have rm: "maxque q = 0 \<or> length ms < unat (maxque q)" using room D(2) by (auto simp: unat_eq_0)
  have pre: "Suc (length ms) < 2 ^ 63" "Suc (wi_of q) < 10 ^ 12"
      "tag_size w (wtag_path cf (q_name q) (wi_of q)) + Suc WTAG_ITEM_LEN < 2 ^ 31"
    using D(4,5,7) by simp_all
  obtain q' w' where p: "mq_qm_push_item cf q (message_item m) w = Some (QUEUE_PUT_OK, q', w')" "durable cf q' w' (ms @ [(fst m, snd m)])"
      "wi_of q' \<le> Suc (wi_of q)" "ri_of q' = ri_of q" "get_num q' = get_num q" "evolves cf q w q' w'"
      "tag_size w' (wtag_path cf (q_name q) (wi_of q')) \<le> tag_size w (wtag_path cf (q_name q) (wi_of q)) + 2 * Suc WTAG_ITEM_LEN"
      "tag_size w' (rtag_path cf (q_name q) (ri_of q)) = tag_size w (rtag_path cf (q_name q) (ri_of q))"
    by (rule push_durable [OF D(1) it ok rm pre(1,2) D(3) pre(3)])
  note E = evolvesD(1,2,4,5) [OF p(6)]
  have "session_rep cf lim n g (q', w') (ms @ [m])"
  proof (rule session_repI)
    show "durable cf q' w' (ms @ [m])" using p(2) by simp
    show "\<not> storage_short cf w'" using D(3) storage_short_cong [OF E(3,4)] by simp
  qed (use D p(3-5,7,8) E(1,2) in \<open>auto simp: algebra_simps\<close>)
  then show ?thesis using p(1) by (simp add: queue_push_def)
qed

lemma session_full:
  assumes s: "session_rep cf lim (Suc n) g (q, w) ms" and full: "lim \<noteq> 0" "lim \<le> length ms"
  shows "\<exists>s'. queue_push cf m (q, w) = Some (False, s') \<and> session_rep cf lim n g s' ms"
proof -
  note D = session_repD [OF s]
  have "maxque q \<noteq> 0" "queue_rep cf q w ms" using D(1,2) full by (auto simp: durable_def)
  then have "mq_qm_push_item cf q (message_item m) w = Some (QUEUE_FULL, q, w)" using D(2) full by (intro push_full) simp_all
  then show ?thesis using session_rep_less [OF s] by (simp add: queue_push_def)
qed

lemma session_pop:
  assumes s: "session_rep cf lim (Suc n) (Suc g) (q, w) (m # ms)"
  shows "\<exists>s'. queue_pop cf (q, w) = Some (Some m, s') \<and> session_rep cf lim n g s' ms"
proof -
  note D = session_repD [OF s]
  have u: "unat (get_num q + 1) = Suc (unat (get_num q))" if "lim \<noteq> 0"
  proof -
    have "unat (get_num q) < lim" "lim < 2 ^ 32" using D(2,6) that unsigned_less [of "maxque q", where 'a = nat] by auto
    then show ?thesis by (simp add: unat_word_ariths)
  qed
  have nw: "maxque q = 0 \<or> get_num q + 1 < ucast (maxque q)"
    using u D(2,6) unat_maxque [of q] by (auto simp: word_less_nat_alt unat_eq_0)
  have tr: "tag_size w (rtag_path cf (q_name q) (ri_of q)) + Suc RTAG_ITEM_LEN < 2 ^ 31" using D(8) by simp
  have dur: "durable cf q w ((fst m, snd m) # ms)" using D(1) by simp
  obtain it q' w' where p: "mq_qm_pop_item cf q (message_item (0, [])) w = Some (QUEUE_GET_OK, it, q', w')"
      "delay it = fst m" "load_msg w' (msg it) (unat (len it)) = Some (snd m)" "durable cf q' w' ms"
      "get_num q' = get_num q + 1" "wi_of q' = wi_of q" "evolves cf q w q' w'"
      "tag_size w' (rtag_path cf (q_name q) (ri_of q')) \<le> tag_size w (rtag_path cf (q_name q) (ri_of q)) + 2 * Suc RTAG_ITEM_LEN"
      "tag_size w' (wtag_path cf (q_name q) (wi_of q)) = tag_size w (wtag_path cf (q_name q) (wi_of q))"
    by (rule pop_durable [OF dur nw tr])
  note E = evolvesD(1,2,4,5) [OF p(7)]
  have "session_rep cf lim n g (q', w') ms"
  proof (rule session_repI [OF p(4)])
    show "\<not> storage_short cf w'" using D(3) storage_short_cong [OF E(3,4)] by simp
  qed (use D p(5,6,8,9) E(1,2) u in \<open>auto simp: algebra_simps\<close>)
  then show ?thesis using p(1-3) by (simp add: queue_pop_def)
qed

lemma session_empty:
  assumes s: "session_rep cf lim (Suc n) g (q, w) []"
  shows "\<exists>s'. queue_pop cf (q, w) = Some (None, s') \<and> session_rep cf lim n g s' []"
proof -
  have "queue_rep cf q w []" using session_repD(1) [OF s] by (simp add: durable_def)
  then obtain it where "mq_qm_pop_item cf q (message_item (0, [])) w = Some (QUEUE_GET_END, it, q, w)" using pop_empty by blast
  then show ?thesis using session_rep_less [OF s] by (simp add: queue_pop_def)
qed

lemma session_restart:
  assumes s: "session_rep cf lim (Suc n) g (q, w) ms"
  shows "\<exists>s'. queue_restart cf (q, w) = Some s' \<and> session_rep cf lim n g s' ms"
proof -
  note D = session_repD [OF session_rep_less [OF s]]
  obtain q' w' where o: "open_queue cf (q_name q) [] (close_queue q w) = Some ([] @ [(q_name q, q')], w')" "durable cf q' w' ms"
      "q_name q' = q_name q" "maxque q' = maxque q" "get_num q' = get_num q" "put_num q' = put_num q"
      "ri_of q' = ri_of q" "wi_of q' = wi_of q" "same_files w w'"
    by (rule reopen_durable [OF D(1)])
  have t: "tag_size w' p = tag_size w p" for p
    using o(9) by (intro tag_size_cong) (simp_all add: same_files_lookup, simp add: same_files_def)
  have "\<not> storage_short cf w'" using D(3) o(9) storage_short_cong [of w' w] by (simp add: same_files_def)
  then have "session_rep cf lim n g (q', w') ms" using D o(2-8) by (intro session_repI) (simp_all add: t)
  then show ?thesis using o(1) by (simp add: queue_restart_def)
qed

interpretation sess: persistent_queue lim "\<lambda>m. body_ok cf (snd m)" "session_rep cf lim" "queue_push cf" "queue_pop cf" "queue_restart cf"
  for lim cf
  by unfold_locales (metis session_push surj_pair, metis session_full surj_pair, metis session_pop surj_pair, metis session_empty surj_pair,
      metis session_restart surj_pair)

end
