(* ===== verification/Restart_Properties.thy ===== *)
theory Restart_Properties
  imports Durable_Session
begin

text \<open>
  What is left of a queue after the process ended and the library was started again: the messages, for every sequence of
  puts, gets and restarts within the stated bounds; and the two cases in which the tag files do not hold what the queue held.
\<close>

section \<open>Counters that were reduced\<close>

text \<open>A get that reduces both counters by the limit writes the tag file of the reader only.\<close>

lemma rep_at_counters: "rep_at cf (q\<lparr>put_num := p\<rparr>) w ino seg = rep_at cf q w ino seg"
  by (simp add: rep_at_def handles_ok_def index_defs)

lemma wrap_reopened:
  assumes dur: "durable cf q w ((d, b) # ms)" and lim: "maxque q \<noteq> 0" and wrap: "ucast (maxque q) \<le> get_num q + 1"
    and tr: "tag_size w (rtag_path cf (q_name q) (ri_of q)) + Suc RTAG_ITEM_LEN < 2 ^ 31"
  obtains it q1 w1 q2 w2 where "mq_qm_pop_item cf q item w = Some (QUEUE_GET_OK, it, q1, w1)" "queue_rep cf q1 w1 ms"
    "open_queue cf (q_name q) l (close_queue q1 w1) = Some (l @ [(q_name q, q2)], w2)"
    "put_num q2 - get_num q2 = of_nat (length ms) + ucast (maxque q)" "maxque q2 = maxque q"
proof -
  have rep: "queue_rep cf q w ((d, b) # ms)" using dur by (simp add: durable_def)
  obtain it q1 w1 where p: "mq_qm_pop_item cf q item w = Some (QUEUE_GET_OK, it, q1, w1)" "queue_rep cf q1 w1 ms"
      "counted q q1" "same_writer q q1"
      "tag_ends w1 (rtag_path cf (q_name q) (ri_of q1)) (rtag_line q1)"
      "\<And>ln. tag_ends w (wtag_path cf (q_name q) (wi_of q)) ln \<Longrightarrow> tag_ends w1 (wtag_path cf (q_name q) (wi_of q)) ln"
      "only_files cf (q_name q) w (ri_of q) (wi_of q) \<Longrightarrow> only_files cf (q_name q) w1 (ri_of q1) (wi_of q)"
    by (rule pop_records [OF rep tr]) (assumption | blast)+
  have c: "get_num q1 = get_num q + 1 - ucast (maxque q)" "put_num q - get_num q = of_nat (Suc (length ms))"
    using p(3) wrap rep by (auto simp: counted_def queue_rep_def)
  have s: "q_name q1 = q_name q" "cur_wdb q1 = cur_wdb q" "maxque q1 = maxque q" using p(4) by (simp_all add: same_writer_def)
  define q0 where "q0 = q1\<lparr>put_num := put_num q\<rparr>"
  have q0: "q_name q0 = q_name q" "wi_of q0 = wi_of q" "ri_of q0 = ri_of q1" "rtag_line q0 = rtag_line q1" "wtag_line q0 = wtag_line q"
    using s by (simp_all add: q0_def index_defs rtag_line_def wtag_line_def)
  obtain x where "recorded cf (at_pos q x) w" by (rule durable_record [OF dur])
  moreover have "wtag_line (at_pos q x) = wtag_line q" "wi_of (at_pos q x) = wi_of q" "ri_of (at_pos q x) = ri_of q"
    by (simp_all add: wtag_line_def index_defs)
  ultimately have "recorded cf q0 w1" using p(5-7) q0 by (simp add: recorded_def)
  then have rc: "recorded cf q0 (close_queue q1 w1)" using recorded_cong [OF close_same_files] by simp
  obtain ino seg where "rep_at cf q1 w1 ino seg" by (rule queue_repD [OF p(2)])
  then have r: "rep_at cf q0 w1 ino seg" unfolding q0_def rep_at_counters .
  then have "files_at cf q0 (close_queue q1 w1) ino seg"
    using files_at_cong [OF close_same_files wf_close_queue [OF rep_atD(3) [OF r]]] by (simp add: rep_at_files)
  then obtain q2 w2 where o: "open_queue cf (q_name q0) l (close_queue q1 w1) = Some (l @ [(q_name q0, q2)], w2)" "same_record q0 q2"
    using rc by (rule open_queue_files)
  have "put_num q2 = put_num q" "get_num q2 = get_num q + 1 - ucast (maxque q)" "maxque q2 = maxque q"
    using o(2) c(1) s(3) by (simp_all add: same_record_def q0_def)
  moreover have "put_num q = get_num q + of_nat (Suc (length ms))" using c(2) by (simp add: algebra_simps)
  ultimately show ?thesis using that [OF p(1,2)] o(1) q0(1) by simp
qed

lemma wrap_full:
  assumes "put_num q - get_num q = of_nat n + ucast (maxque q)" and "maxque q \<noteq> 0" and "n < 2 ^ 63"
  shows "mq_qm_push_item cf q item w = Some (QUEUE_FULL, q, w)"
proof -
  let ?n = "n + unat (maxque q)"
  have m: "unat (maxque q) < 2 ^ 32" using unsigned_less [of "maxque q", where 'a = nat] by simp
  have "put_num q - get_num q + 1 = (of_nat (Suc ?n) :: u64)" using assms(1) by simp
  moreover have "unat (of_nat (Suc ?n) :: u64) = Suc ?n"
    using assms(3) m by (simp only: unat_of_nat) (simp add: take_bit_nat_eq_self)
  ultimately have "unat (put_num q - get_num q + 1) = Suc ?n" by (simp only:)
  then have "put_num q - get_num q + 1 > ucast (maxque q)" unfolding word_less_nat_alt unat_maxque by simp
  then show ?thesis using assms(2) by (simp add: mq_qm_push_item_def)
qed

section \<open>A queue without a put\<close>

text \<open>The tag files of a new queue are written before its positions are set: both record the position 0.\<close>

lemma new_reopened:
  assumes cf: "conf_ok cf" and pk: "path_ok cf nm" and wf: "wf_world w" "w_faults w = []" and fr: "fresh_dir cf nm w"
    and nm: "length nm \<le> MAX_QUEUE_NAME_LEN" and on: "names_once w"
  obtains q' w' where "open_queue cf nm l (close_queue (made_queue cf nm w) (queue_ready cf nm w)) = Some (l @ [(nm, q')], w')"
    "rpos_of q' = 0" "wpos_of q' = 0"
proof -
  let ?q = "made_queue cf nm w" and ?v = "queue_ready cf nm w" and ?ino = "\<lambda>_ :: nat. w_next_ino w + 2"
  let ?u = "close_queue ?q ?v"
  define q0 where "q0 = ?q\<lparr>cur_rdb := (cur_rdb ?q)\<lparr>d_pos := 0\<rparr>, cur_wdb := (cur_wdb ?q)\<lparr>d_pos := 0\<rparr>\<rparr>"
  note R = ready_records [OF cf pk wf fr on] and rep = queue_ready_rep [OF cf pk wf fr]
  have f: "files_at cf ?q ?u ?ino (\<lambda>_. [])"
    using rep files_at_cong [OF close_same_files wf_close_queue [OF rep_atD(3) [OF rep]]] by (simp add: rep_at_files)
  have q0: "q_name q0 = nm" "ri_of q0 = 1" "wi_of q0 = 1"
    using made_queue_simps(8,9) [of cf nm w] by (simp_all add: q0_def index_defs)
  have "check_rtag_item cf q0" "check_wtag_item cf q0" by (simp_all add: check_rtag_item_def check_wtag_item_def q0_def)
  then have fd: "found_at cf q0 ?u ?ino" using files_at_found [OF f] q0 by (simp add: found_at_def)
  have "rtag_line q0 = rtag_line (at_pos ?q 0)" "wtag_line q0 = wtag_line (first_queue cf nm w)"
    by (simp_all add: rtag_line_def wtag_line_def q0_def first_queue_def made_queue_def zero_queue_def zero_db_map_def Let_def)
  then have "recorded cf q0 ?v" using R(1-3) q0 nm by (simp add: recorded_def)
  then have rc: "recorded cf q0 ?u" using recorded_cong [OF close_same_files] by simp
  obtain q' w' where "open_queue cf (q_name q0) l ?u = Some (l @ [(q_name q0, q')], w')" "same_record q0 q'"
    by (rule open_queue_eval [OF fd rc])
  moreover have "rpos_of q0 = 0" "wpos_of q0 = 0" by (simp_all add: q0_def index_defs)
  ultimately show ?thesis using q0(1) by (intro that [of q' w']) (simp_all add: same_record_def)
qed

section \<open>Samples\<close>

text \<open>A queue with one message in the small world, with any limit.\<close>

definition limit_conf :: "u32 \<Rightarrow> ucmq_conf" where
  "limit_conf n = data_conf\<lparr>def_max_queue := n\<rparr>"

lemma limit_conf_ok:
  "conf_ok (limit_conf n)" "path_ok (limit_conf n) ''q''" "has_dir data_world (data_file_path (limit_conf n))"
  "fresh_dir (limit_conf n) nm data_world" "\<not> storage_short (limit_conf n) data_world" "0 < max_qlist_itmes (limit_conf n)"
  "body_ok (limit_conf n) [1, 2, 3]" "names_once data_world" "def_max_queue (limit_conf n) = n"
proof -
  show "conf_ok (limit_conf n)" "path_ok (limit_conf n) ''q''"
    using g_mq_conf_ok by (simp_all add: limit_conf_def data_conf_def conf_ok_def path_ok_def)
  show "has_dir data_world (data_file_path (limit_conf n))" "fresh_dir (limit_conf n) nm data_world" "\<not> storage_short (limit_conf n) data_world"
    using data_world_ok(3-5) by (simp_all add: limit_conf_def fresh_dir_def own_path_def queue_dir_def storage_short_def)
  show "0 < max_qlist_itmes (limit_conf n)" by (simp add: limit_conf_def data_conf_def g_mq_conf_def)
  show "body_ok (limit_conf n) [1, 2, 3]" using first_item_put(2) by (simp add: body_ok_def limit_conf_def MAX_DB_FILE_SIZE_def)
  show "names_once data_world" by (simp add: names_once_def data_world_def)
  show "def_max_queue (limit_conf n) = n" by (simp add: limit_conf_def)
qed

lemma one_durable:
  obtains q w where "durable (limit_conf n) q w [(7, [1, 2, 3])]" "get_num q = 0" "maxque q = n" "wi_of q \<le> 2"
    "\<not> storage_short (limit_conf n) w"
    "tag_size w (wtag_path (limit_conf n) (q_name q) (wi_of q)) + Suc WTAG_ITEM_LEN < 2 ^ 31"
    "tag_size w (rtag_path (limit_conf n) (q_name q) (ri_of q)) + Suc RTAG_ITEM_LEN < 2 ^ 31"
    "q_name q = ''q''" "\<And>p. own_path (limit_conf n) ''q'' p \<or> lookup_path w p = lookup_path data_world p"
proof -
  obtain q w where "durable (limit_conf n) q w [(7, [1, 2, 3])]" "q_name q = ''q''" "get_num q = 0"
      "maxque q = def_max_queue (limit_conf n)" "wi_of q \<le> 2" "\<not> storage_short (limit_conf n) w"
      "tag_size w (wtag_path (limit_conf n) ''q'' (wi_of q)) \<le> 3 * Suc WTAG_ITEM_LEN"
      "tag_size w (rtag_path (limit_conf n) ''q'' (ri_of q)) \<le> Suc RTAG_ITEM_LEN"
      "\<And>p. own_path (limit_conf n) ''q'' p \<or> lookup_path w p = lookup_path data_world p"
    by (rule first_put [OF limit_conf_ok(1,2) [of n] data_world_ok(1,2) limit_conf_ok(4) _ _ limit_conf_ok(3,5) _ limit_conf_ok(8) first_item_put(1)
          limit_conf_ok(7), where l = "[]"]) (simp_all add: limit_conf_ok(6) store_consts)
  then show ?thesis by (intro that [of q w]) (simp_all add: limit_conf_ok(9) WTAG_ITEM_LEN_def RTAG_ITEM_LEN_def)
qed

section \<open>Properties\<close>

text \<open>C9. A queue whose tag files are up to date survives a restart: closing it and opening its directory again gives a
  queue, added under the same name with the same limit, that holds the same messages in the same order and is
  again up to date on disk.\<close>

theorem reopen_keeps_messages:
  assumes "durable cf q w ms"
  shows "\<exists>q' w'. open_queue cf (q_name q) l (close_queue q w) = Some (l @ [(q_name q, q')], w')
     \<and> durable cf q' w' ms \<and> q_name q' = q_name q \<and> maxque q' = maxque q"
  by (rule reopen_durable [OF assms, of l]) blast

theorem reopen_keeps_messages_witness:
  "\<exists>q w q' w'. durable (limit_conf 0) q w [(7, [1, 2, 3])]
     \<and> open_queue (limit_conf 0) (q_name q) [] (close_queue q w) = Some ([(q_name q, q')], w')
     \<and> durable (limit_conf 0) q' w' [(7, [1, 2, 3])]"
proof -
  obtain q w where "durable (limit_conf 0) q w [(7, [1, 2, 3])]" by (rule one_durable)
  then show ?thesis using reopen_keeps_messages [of "limit_conf 0" q w "[(7, [1, 2, 3])]" "[]"] by auto
qed

text \<open>C10. A put that is accepted leaves the queue up to date on disk with the message at its end, whether or not the writer
  moved to a new data file.\<close>

theorem put_stays_durable:
  assumes "durable cf q w ms" and "put_item item d b" and "body_ok cf b"
    and "maxque q = 0 \<or> length ms < unat (maxque q)" and "Suc (length ms) < 2 ^ 63"
    and "Suc (wi_of q) < 10 ^ 12" and "\<not> storage_short cf w"
    and "tag_size w (wtag_path cf (q_name q) (wi_of q)) + Suc WTAG_ITEM_LEN < 2 ^ 31"
  shows "\<exists>q' w'. mq_qm_push_item cf q item w = Some (QUEUE_PUT_OK, q', w') \<and> durable cf q' w' (ms @ [(d, b)])"
  by (rule push_durable [OF assms]) blast

theorem put_stays_durable_witness:
  "\<exists>q w q' w'. durable (limit_conf 0) q w [(7, [1, 2, 3])]
     \<and> mq_qm_push_item (limit_conf 0) q first_item w = Some (QUEUE_PUT_OK, q', w')
     \<and> durable (limit_conf 0) q' w' [(7, [1, 2, 3]), (7, [1, 2, 3])]"
proof -
  obtain q w where q: "durable (limit_conf 0) q w [(7, [1, 2, 3])]" "maxque q = 0" "wi_of q \<le> 2" "\<not> storage_short (limit_conf 0) w"
      "tag_size w (wtag_path (limit_conf 0) (q_name q) (wi_of q)) + Suc WTAG_ITEM_LEN < 2 ^ 31"
    by (rule one_durable)
  have "\<exists>q' w'. mq_qm_push_item (limit_conf 0) q first_item w = Some (QUEUE_PUT_OK, q', w')
      \<and> durable (limit_conf 0) q' w' ([(7, [1, 2, 3])] @ [(7, [1, 2, 3])])"
    by (rule put_stays_durable [OF q(1) first_item_put(1) limit_conf_ok(7) _ _ _ q(4,5)]) (use q(2,3) in simp_all)
  then show ?thesis using q(1) by auto
qed

text \<open>C11. A get leaves the queue up to date on disk without its oldest message, as long as it does not reduce the counters.\<close>

theorem get_stays_durable:
  assumes "durable cf q w ((d, b) # ms)" and "maxque q = 0 \<or> get_num q + 1 < ucast (maxque q)"
    and "tag_size w (rtag_path cf (q_name q) (ri_of q)) + Suc RTAG_ITEM_LEN < 2 ^ 31"
  shows "\<exists>it q' w'. mq_qm_pop_item cf q item w = Some (QUEUE_GET_OK, it, q', w') \<and> delay it = d
     \<and> load_msg w' (msg it) (unat (len it)) = Some b \<and> durable cf q' w' ms"
  by (rule pop_durable [OF assms, of item]) blast

theorem get_stays_durable_witness:
  "\<exists>q w it q' w'. durable (limit_conf 2) q w [(7, [1, 2, 3])]
     \<and> mq_qm_pop_item (limit_conf 2) q first_item w = Some (QUEUE_GET_OK, it, q', w')
     \<and> load_msg w' (msg it) (unat (len it)) = Some [1, 2, 3] \<and> durable (limit_conf 2) q' w' []"
proof -
  obtain q w where q: "durable (limit_conf 2) q w [(7, [1, 2, 3])]" "get_num q = 0" "maxque q = 2"
      "tag_size w (rtag_path (limit_conf 2) (q_name q) (ri_of q)) + Suc RTAG_ITEM_LEN < 2 ^ 31"
    by (rule one_durable)
  have "maxque q = 0 \<or> get_num q + 1 < ucast (maxque q)" using q(2,3) by simp
  from get_stays_durable [OF q(1) this q(4), of first_item] show ?thesis using q(1) by blast
qed

text \<open>C4. A new queue is a persistent FIFO: after its first put, every sequence of fewer than ten million puts, gets and restarts
  gets the replies of a list in memory that refuses a put at the limit of the queue. The queue has no limit, or fewer messages
  are got in the sequence than its limit; puts, refused puts, empty gets and restarts are not bounded by the limit.\<close>

theorem new_queue_sessions:
  assumes "conf_ok cf" "path_ok cf nm" "wf_world w" "w_faults w = []" "fresh_dir cf nm w" "CHR ''/'' \<notin> set nm"
    and "length nm \<le> MAX_QUEUE_NAME_LEN" "has_dir w (data_file_path cf)" "\<not> storage_short cf w"
    and "int (length l) < max_qlist_itmes cf" "names_once w" and "body_ok cf (snd m)" "pushes_ok (\<lambda>m. body_ok cf (snd m)) ops"
    and "length ops < 10 ^ 7" "def_max_queue cf = 0
      \<or> messages_got (fst (spec_session (unat (def_max_queue cf)) ops [m])) < unat (def_max_queue cf)"
  shows "\<exists>q w1 s s'. mq_qm_add_queue cf nm l w = Some (Some (length l), l @ [(nm, q)], w1)
     \<and> queue_push cf m (q, w1) = Some (True, s)
     \<and> session (queue_push cf) (queue_pop cf) (queue_restart cf) ops s
       = Some (fst (spec_session (unat (def_max_queue cf)) ops [m]), s')
     \<and> durable cf (fst s') (snd s') (snd (spec_session (unat (def_max_queue cf)) ops [m]))"
proof -
  let ?L = "unat (def_max_queue cf)"
  have it: "put_item (message_item m) (fst m) (snd m)" by (rule message_item_put [OF assms(1,12)])
  obtain q w1 q' w' where p: "mq_qm_add_queue cf nm l w = Some (Some (length l), l @ [(nm, q)], w1)"
      "mq_qm_push_item cf q (message_item m) w1 = Some (QUEUE_PUT_OK, q', w')" "durable cf q' w' [(fst m, snd m)]" "q_name q' = nm"
      "get_num q' = 0" "maxque q' = def_max_queue cf" "wi_of q' \<le> 2" "\<not> storage_short cf w'"
      "tag_size w' (wtag_path cf nm (wi_of q')) \<le> 3 * Suc WTAG_ITEM_LEN" "tag_size w' (rtag_path cf nm (ri_of q')) \<le> Suc RTAG_ITEM_LEN"
    by (rule first_put [OF assms(1-11) it assms(12)])
  have "session_rep cf ?L (length ops) (messages_got (fst (spec_session ?L ops [m]))) (q', w') [m]"
    using p(3-10) assms(14,15) by (intro session_repI) (auto simp: WTAG_ITEM_LEN_def RTAG_ITEM_LEN_def unat_eq_0)
  from sess.session_refines [OF this assms(13)] obtain s' where
    "session (queue_push cf) (queue_pop cf) (queue_restart cf) ops (q', w') = Some (fst (spec_session ?L ops [m]), s')"
    "session_rep cf ?L 0 0 s' (snd (spec_session ?L ops [m]))" by blast
  moreover have "queue_push cf m (q, w1) = Some (True, q', w')" using p(2) by (simp add: queue_push_def)
  moreover have "durable cf (fst s') (snd s') (snd (spec_session ?L ops [m]))" using calculation(2) by (simp add: session_rep_def Let_def)
  ultimately show ?thesis using p(1) by blast
qed

theorem new_queue_sessions_witness:
  "\<exists>q w1 s s'. mq_qm_add_queue (limit_conf 3) ''q'' [] data_world = Some (Some 0, [(''q'', q)], w1)
     \<and> queue_push (limit_conf 3) (7, [1, 2, 3]) (q, w1) = Some (True, s)
     \<and> session (queue_push (limit_conf 3)) (queue_pop (limit_conf 3)) (queue_restart (limit_conf 3))
         [Push (8, [1, 2, 3]), Push (9, [1, 2, 3]), Push (4, [1, 2, 3]), Restart, Pop, Restart, Pop] s
       = Some ([Pushed True, Pushed True, Pushed False, Restarted, Popped (Some (7, [1, 2, 3])), Restarted, Popped (Some (8, [1, 2, 3]))], s')"
proof -
  let ?ops = "[Push (8, [1, 2, 3]), Push (9, [1, 2, 3]), Push (4, [1, 2, 3]), Restart, Pop, Restart, Pop]"
  have "\<exists>q w1 s s'. mq_qm_add_queue (limit_conf 3) ''q'' [] data_world = Some (Some (length ([] :: mq_queue_list)), [] @ [(''q'', q)], w1)
     \<and> queue_push (limit_conf 3) (7, [1, 2, 3]) (q, w1) = Some (True, s)
     \<and> session (queue_push (limit_conf 3)) (queue_pop (limit_conf 3)) (queue_restart (limit_conf 3)) ?ops s
       = Some (fst (spec_session (unat (def_max_queue (limit_conf 3))) ?ops [(7, [1, 2, 3])]), s')
     \<and> durable (limit_conf 3) (fst s') (snd s') (snd (spec_session (unat (def_max_queue (limit_conf 3))) ?ops [(7, [1, 2, 3])]))"
    by (rule new_queue_sessions [OF limit_conf_ok(1,2) data_world_ok(1,2) limit_conf_ok(4) _ _ limit_conf_ok(3,5) _ limit_conf_ok(8)])
      (simp_all add: limit_conf_ok store_consts)
  then show ?thesis by (simp add: limit_conf_ok(9)) blast
qed

text \<open>C20. When a get reduces both counters by the limit of the queue, only the reader's tag file is written. After a restart the
  queue counts \<^verbatim>\<open>maxque\<close> messages more than its files hold, and rejects every put as if it were full.\<close>

theorem reduced_counters_lost:
  assumes "durable cf q w ((d, b) # ms)" and "maxque q \<noteq> 0" and "ucast (maxque q) \<le> get_num q + 1" and "length ms < 2 ^ 62"
    and "tag_size w (rtag_path cf (q_name q) (ri_of q)) + Suc RTAG_ITEM_LEN < 2 ^ 31"
  shows "\<exists>it q1 w1 q2 w2. mq_qm_pop_item cf q item w = Some (QUEUE_GET_OK, it, q1, w1) \<and> queue_rep cf q1 w1 ms
     \<and> open_queue cf (q_name q) l (close_queue q1 w1) = Some (l @ [(q_name q, q2)], w2)
     \<and> put_num q2 - get_num q2 = of_nat (length ms) + ucast (maxque q)
     \<and> (\<forall>item. mq_qm_push_item cf q2 item w2 = Some (QUEUE_FULL, q2, w2))"
proof -
  obtain it q1 w1 q2 w2 where p: "mq_qm_pop_item cf q item w = Some (QUEUE_GET_OK, it, q1, w1)" "queue_rep cf q1 w1 ms"
    "open_queue cf (q_name q) l (close_queue q1 w1) = Some (l @ [(q_name q, q2)], w2)"
    "put_num q2 - get_num q2 = of_nat (length ms) + ucast (maxque q)" "maxque q2 = maxque q"
    by (rule wrap_reopened [OF assms(1-3,5)])
  have "mq_qm_push_item cf q2 it w2 = Some (QUEUE_FULL, q2, w2)" for it
    using wrap_full [of q2 "length ms"] p(4,5) assms(2,4) by simp
  then show ?thesis using p by blast
qed

theorem reduced_counters_lost_witness:
  "\<exists>q w it q1 w1 q2 w2. durable (limit_conf 1) q w [(7, [1, 2, 3])]
     \<and> mq_qm_pop_item (limit_conf 1) q first_item w = Some (QUEUE_GET_OK, it, q1, w1) \<and> queue_rep (limit_conf 1) q1 w1 []
     \<and> open_queue (limit_conf 1) (q_name q) [] (close_queue q1 w1) = Some ([(q_name q, q2)], w2)
     \<and> put_num q2 - get_num q2 = 1 \<and> mq_qm_push_item (limit_conf 1) q2 first_item w2 = Some (QUEUE_FULL, q2, w2)"
proof -
  obtain q w where q: "durable (limit_conf 1) q w [(7, [1, 2, 3])]" "get_num q = 0" "maxque q = 1"
      "tag_size w (rtag_path (limit_conf 1) (q_name q) (ri_of q)) + Suc RTAG_ITEM_LEN < 2 ^ 31"
    by (rule one_durable)
  have "\<exists>it q1 w1 q2 w2. mq_qm_pop_item (limit_conf 1) q first_item w = Some (QUEUE_GET_OK, it, q1, w1)
     \<and> queue_rep (limit_conf 1) q1 w1 []
     \<and> open_queue (limit_conf 1) (q_name q) [] (close_queue q1 w1) = Some ([] @ [(q_name q, q2)], w2)
     \<and> put_num q2 - get_num q2 = of_nat (length ([] :: message list)) + ucast (maxque q)
     \<and> (\<forall>item. mq_qm_push_item (limit_conf 1) q2 item w2 = Some (QUEUE_FULL, q2, w2))"
    by (rule reduced_counters_lost [OF q(1) _ _ _ q(4)]) (simp_all add: q(2,3))
  then show ?thesis using q(1) unfolding q(3) by simp blast
qed

text \<open>C21. A new queue that is closed before its first put comes back with both positions at 0, in front of the head of the data
  file, while the queue that was created stood behind it.\<close>

theorem new_queue_reopened_at_zero:
  assumes "conf_ok cf" "path_ok cf nm" "wf_world w" "w_faults w = []" "fresh_dir cf nm w" "CHR ''/'' \<notin> set nm"
    and "length nm \<le> MAX_QUEUE_NAME_LEN" "has_dir w (data_file_path cf)" "\<not> storage_short cf w"
    and "int (length l) < max_qlist_itmes cf" "names_once w"
  shows "\<exists>q w1 q' w'. mq_qm_add_queue cf nm l w = Some (Some (length l), l @ [(nm, q)], w1)
     \<and> open_queue cf nm l (close_queue q w1) = Some (l @ [(nm, q')], w')
     \<and> wpos_of q = DB_FILE_HEAD_LEN \<and> wpos_of q' = 0 \<and> rpos_of q' = 0"
proof -
  obtain q' w' where "open_queue cf nm l (close_queue (made_queue cf nm w) (queue_ready cf nm w)) = Some (l @ [(nm, q')], w')"
    "rpos_of q' = 0" "wpos_of q' = 0"
    by (rule new_reopened [OF assms(1-5,7,11)])
  then show ?thesis using add_queue_new(1) [OF assms(1-10)] by simp
qed

theorem new_queue_reopened_at_zero_witness:
  "\<exists>q w1 q' w'. mq_qm_add_queue (limit_conf 0) ''q'' [] data_world = Some (Some 0, [(''q'', q)], w1)
     \<and> open_queue (limit_conf 0) ''q'' [] (close_queue q w1) = Some ([(''q'', q')], w') \<and> wpos_of q = 128 \<and> wpos_of q' = 0"
proof -
  have "\<exists>q w1 q' w'. mq_qm_add_queue (limit_conf 0) ''q'' [] data_world = Some (Some (length ([] :: mq_queue_list)), [] @ [(''q'', q)], w1)
     \<and> open_queue (limit_conf 0) ''q'' [] (close_queue q w1) = Some ([] @ [(''q'', q')], w')
     \<and> wpos_of q = DB_FILE_HEAD_LEN \<and> wpos_of q' = 0 \<and> rpos_of q' = 0"
    by (rule new_queue_reopened_at_zero [OF limit_conf_ok(1,2) data_world_ok(1,2) limit_conf_ok(4) _ _ limit_conf_ok(3,5) _ limit_conf_ok(8)])
      (simp_all add: limit_conf_ok store_consts)
  then show ?thesis by (auto simp: DB_FILE_HEAD_LEN_def)
qed

end
