(* ===== verification/Store_Restart.thy ===== *)
theory Store_Restart
  imports Restart_Properties Api_Fifo
begin

text \<open>
  Restarting the whole store: \<^verbatim>\<open>mq_qm_close_store\<close> closes every queue, and \<^verbatim>\<open>mq_qm_open_store\<close> finds them again in the
  directories of the data path. Opening one queue takes new descriptors and mappings only, so that the queues that are
  already open keep what they represent.
\<close>

section \<open>Opening one more queue\<close>

lemma opens_frame:
  assumes rep: "queue_rep cf r w ms" and op: "opens q w w'" and q: "q_name q \<noteq> q_name r" "CHR ''/'' \<notin> set (q_name q)" "CHR ''/'' \<notin> set (q_name r)"
  shows "queue_rep cf r w' ms" and "apart r q"
proof -
  obtain ino seg where r: "rep_at cf r w ino seg" "ms = messages r seg" "\<not> q_mutex r"
      "put_num r - get_num r = of_nat (length ms)" "length ms < 2 ^ 63"
    by (rule queue_repD [OF rep])
  note H = handlesD [OF r(1)]
  have O: "same_files w w'" "wf_world w'" "w_next_fd w \<le> w_next_fd w'" "w_next_map w \<le> w_next_map w'"
      "\<And>fd. fd < int (w_next_fd w) \<Longrightarrow> w_fds w' fd = w_fds w fd" "\<And>m. m < w_next_map w \<Longrightarrow> w_maps w' m = w_maps w m"
      "own_fds q \<subseteq> {int (w_next_fd w)..}" "own_maps q \<subseteq> Some ` {w_next_map w..}"
    using op by (simp_all add: opens_def)
  have fl: "w_files w' = w_files w" using O(1) by (simp add: same_files_def)
  have mp: "maps_db cf w' m i" if "maps_db cf w m i" "\<exists>k. m = Some k \<and> k < w_next_map w" for m i
    using that O(6) by (auto simp: maps_db_def map_file_def fl split: option.splits)
  have tf: "tag_fd w' fd p" if "tag_fd w fd p" "fd < int (w_next_fd w)" for fd p
    using that O(5) by (auto simp: tag_fd_def fl same_files_lookup [OF O(1)])
  have "handles_ok cf r w' (ri_of r) (wi_of r) ino"
    unfolding handles_ok_def using H O(3) mp tf by auto
  moreover have "files_at cf r w' ino seg" using r(1) files_at_cong [OF O(1,2)] by (simp add: rep_at_files)
  ultimately have "rep_at cf r w' ino seg" by (simp add: rep_at_files)
  then show "queue_rep cf r w' ms" using r by (intro queue_repI) simp_all
  have "own_fds r \<subseteq> {..<int (w_next_fd w)}" "own_maps r \<subseteq> Some ` {..<w_next_map w}"
    using H(11-16) by (auto simp: own_fds_def own_maps_def)
  moreover have "own_fds q \<inter> own_fds r = {}" using calculation(1) O(7) by fastforce
  moreover have "own_maps q \<inter> own_maps r = {}" using calculation(2) O(8) by fastforce
  ultimately show "apart r q" using q by (auto simp: apart_def)
qed

text \<open>What holds of the queues that are open already.\<close>

definition open_list :: "ucmq_conf \<Rightarrow> (string \<rightharpoonup> message list) \<Rightarrow> mq_queue_list \<Rightarrow> world \<Rightarrow> bool" where
  "open_list cf M l w \<longleftrightarrow> distinct (map fst l)
     \<and> (\<forall>(nm, q) \<in> set l. q_name q = nm \<and> CHR ''/'' \<notin> set nm \<and> queue_rep cf q w (the (M nm)) \<and> recorded cf q w)
     \<and> (\<forall>(nm, q) \<in> set l. \<forall>(nm', q') \<in> set l. nm \<noteq> nm' \<longrightarrow> apart q q')"

lemma open_list_snoc:
  assumes l: "open_list cf M l w" and op: "opens q w w'" and q: "queue_rep cf q w' (the (M nm))" "recorded cf q w'" "q_name q = nm"
    and nm: "nm \<notin> fst ` set l" "CHR ''/'' \<notin> set nm"
  shows "open_list cf M (l @ [(nm, q)]) w'"
proof -
  have old: "queue_rep cf r w' (the (M k)) \<and> apart r q \<and> recorded cf r w' \<and> q_name r = k \<and> CHR ''/'' \<notin> set k" if "(k, r) \<in> set l" for k r
  proof -
    have k: "q_name r = k" "CHR ''/'' \<notin> set k" "queue_rep cf r w (the (M k))" "recorded cf r w" using l that by (auto simp: open_list_def)
    moreover have "k \<noteq> nm" using nm(1) that by force
    moreover have "same_files w w'" using op by (simp add: opens_def)
    ultimately show ?thesis using opens_frame [OF k(3) op] q(3) nm(2) recorded_cong by auto
  qed
  show ?thesis
    unfolding open_list_def
  proof (intro conjI)
    show "distinct (map fst (l @ [(nm, q)]))" using l nm(1) by (simp add: open_list_def)
    show "\<forall>(k, r) \<in> set (l @ [(nm, q)]). q_name r = k \<and> CHR ''/'' \<notin> set k \<and> queue_rep cf r w' (the (M k)) \<and> recorded cf r w'"
      using old q nm(2) by auto
    show "\<forall>(k, r) \<in> set (l @ [(nm, q)]). \<forall>(k', r') \<in> set (l @ [(nm, q)]). k \<noteq> k' \<longrightarrow> apart r r'"
    proof (clarify)
      fix k r k' r'
      assume m: "(k, r) \<in> set (l @ [(nm, q)])" "(k', r') \<in> set (l @ [(nm, q)])" "k \<noteq> k'"
      consider "(k, r) \<in> set l" "(k', r') \<in> set l" | "(k, r) \<in> set l" "r' = q" | "r = q" "(k', r') \<in> set l" using m by auto
      then show "apart r r'"
      proof cases
        case 1
        then show ?thesis using l m(3) unfolding open_list_def by blast
      next
        case 2
        then show ?thesis using old by blast
      next
        case 3
        then have "apart r' r" using old by blast
        then show ?thesis using apart_sym by blast
      qed
    qed
  qed
qed

section \<open>The entries of the data path\<close>

lemma open_queues_all:
  assumes "\<And>c. (c, DirN) \<in> set es \<Longrightarrow> take 1 c \<noteq> ''.'' \<Longrightarrow>
      q_name (Q c) = c \<and> CHR ''/'' \<notin> set c \<and> queue_rep cf (Q c) w0 (the (M c)) \<and> recorded cf (Q c) w0"
    and "distinct (map fst es)" and "open_list cf M l w" and "same_files w0 w" "wf_world w"
    and "fst ` set l \<inter> fst ` set es = {}"
  shows "\<exists>l' w'. open_queues cf es l w = Some (l', w') \<and> open_list cf M l' w' \<and> same_files w0 w' \<and> wf_world w'
     \<and> fst ` set l' = fst ` set l \<union> {c. (c, DirN) \<in> set es \<and> take 1 c \<noteq> ''.''}"
  using assms
proof (induction es arbitrary: l w)
  case (Cons e es)
  obtain c k where e: "e = (c, k)" by (cases e)
  have Q: "q_name (Q c) = c \<and> CHR ''/'' \<notin> set c \<and> queue_rep cf (Q c) w0 (the (M c)) \<and> recorded cf (Q c) w0"
    if "(c, DirN) \<in> set es" "take 1 c \<noteq> ''.''" for c
    using Cons.prems(1) that by simp
  show ?case
  proof (cases "k \<noteq> DirN \<or> take 1 c = ''.''")
    case True
    have "\<exists>l' w'. open_queues cf es l w = Some (l', w') \<and> open_list cf M l' w' \<and> same_files w0 w' \<and> wf_world w'
       \<and> fst ` set l' = fst ` set l \<union> {c. (c, DirN) \<in> set es \<and> take 1 c \<noteq> ''.''}"
      by (rule Cons.IH [OF Q]) (use Cons.prems in auto)
    then show ?thesis using True e by auto
  next
    case False
    then have c: "q_name (Q c) = c" "CHR ''/'' \<notin> set c" "queue_rep cf (Q c) w0 (the (M c))" "recorded cf (Q c) w0"
      using Cons.prems(1) [of c] e by auto
    obtain q w' where o: "open_queue cf (q_name (Q c)) l w = Some (l @ [(q_name (Q c), q)], w')" "queue_rep cf q w' (the (M c))"
        "recorded cf q w'" "same_record (Q c) q" "opens q w w'"
      by (rule open_rep [OF c(3,4) Cons.prems(4,5)])
    have new: "c \<notin> fst ` set l" "c \<notin> fst ` set es" using Cons.prems(2,6) e by auto
    have "open_list cf M (l @ [(c, q)]) w'"
      using open_list_snoc [OF Cons.prems(3) o(5,2,3) _ new(1) c(2)] o(4) c(1) by (simp add: same_record_def)
    moreover have "same_files w0 w'" "wf_world w'" using o(5) Cons.prems(4) by (simp_all add: opens_def same_files_def)
    ultimately have "\<exists>l' w2. open_queues cf es (l @ [(c, q)]) w' = Some (l', w2) \<and> open_list cf M l' w2 \<and> same_files w0 w2 \<and> wf_world w2
       \<and> fst ` set l' = fst ` set (l @ [(c, q)]) \<union> {c. (c, DirN) \<in> set es \<and> take 1 c \<noteq> ''.''}"
      by (intro Cons.IH [OF Q]) (use Cons.prems(2,6) new e in auto)
    then show ?thesis using False e o(1) c(1) by auto
  qed
qed auto

section \<open>The whole store\<close>

lemma close_store_files:
  assumes "wf_world w"
  shows "same_files w (fold (\<lambda>(_, q) w. close_queue q w) l w) \<and> wf_world (fold (\<lambda>(_, q) w. close_queue q w) l w)"
  using assms
proof (induction l arbitrary: w)
  case (Cons e l)
  obtain nm q where e: "e = (nm, q)" by (cases e)
  show ?case
    using Cons.IH [OF wf_close_queue [OF Cons.prems, of q]] close_same_files [of w q] by (simp add: e same_files_def)
qed (simp add: same_files_def)

text \<open>Every directory below the data path is that of a queue, or its name starts with a dot and it is passed over.\<close>

definition only_queues :: "ucmq_conf \<Rightarrow> (string \<rightharpoonup> message list) \<Rightarrow> world \<Rightarrow> bool" where
  "only_queues cf M w \<longleftrightarrow>
     (\<forall>c. c \<noteq> [] \<and> CHR ''/'' \<notin> set c \<and> has_dir w (queue_dir cf c) \<longrightarrow> c \<in> dom M \<or> take 1 c = ''.'')"

lemma qname_no_dot: "qname_check (Some s) = 1 \<Longrightarrow> take 1 s \<noteq> ''.''"
  by (cases s) (auto simp: qname_check_iff name_char_def)

lemma queue_entries:
  assumes rep: "queues_rep cf l w M" and only: "only_queues cf M w" and once: "names_once w"
  shows "{c. (c, DirN) \<in> set (dir_entries w (data_file_path cf)) \<and> take 1 c \<noteq> ''.''} = dom M"
proof -
  have en: "(c, DirN) \<in> set (dir_entries w (data_file_path cf)) \<longleftrightarrow> has_dir w (queue_dir cf c) \<and> c \<noteq> [] \<and> CHR ''/'' \<notin> set c" for c
    unfolding dir_entries_set has_dir_def lookup_path_def queue_dir_def using map_of_eq_Some_iff [of "w_fs w"] once by (simp add: names_once_def)
  have "has_dir w (queue_dir cf nm) \<and> nm \<noteq> [] \<and> CHR ''/'' \<notin> set nm \<and> take 1 nm \<noteq> ''.''" if "nm \<in> dom M" for nm
  proof -
    have "\<exists>q. (nm, q) \<in> set l" using that rep by (force simp: queues_rep_def)
    then obtain q where q: "(nm, q) \<in> set l" ..
    then have r: "q_name q = nm" "qname_check (Some nm) = 1" "queue_rep cf q w (the (M nm))" using rep by (auto simp: queues_rep_def)
    obtain ino seg where "rep_at cf q w ino seg" by (rule queue_repD [OF r(3)])
    then have "has_dir w (queue_dir cf nm)" using rep_atD(5) r(1) by blast
    then show ?thesis using qname_no_dot [OF r(2)] qname_no_slash [OF r(2)] r(2) by (auto simp: qname_check_iff)
  qed
  then show ?thesis using only by (auto simp: en only_queues_def)
qed

lemma restart_store:
  assumes rep: "queues_rep cf l w M" and dur: "\<And>nm q. (nm, q) \<in> set l \<Longrightarrow> durable cf q w (the (M nm))"
    and only: "only_queues cf M w" and once: "names_once w"
    and w: "wf_world w" "w_faults w = []" "has_dir w (data_file_path cf)"
  obtains w1 l' w' where "mq_qm_close_store l w = (True, [], w1)" "mq_qm_open_store cf [] w1 = Some (True, l', w')"
    "queues_rep cf l' w' M" "\<And>nm q. (nm, q) \<in> set l' \<Longrightarrow> durable cf q w' (the (M nm))" "same_files w w'" "wf_world w'"
proof -
  have "\<forall>c \<in> dom M. \<exists>q. q_name q = c \<and> qname_check (Some c) = 1 \<and> queue_rep cf q w (the (M c)) \<and> recorded cf q w"
  proof
    fix c
    assume c: "c \<in> dom M"
    obtain q where q: "(c, q) \<in> set l" using c rep by (force simp: queues_rep_def)
    obtain p where "queue_rep cf (at_pos q p) w (the (M c))" "recorded cf (at_pos q p) w" by (rule durable_record [OF dur [OF q]])
    moreover have "q_name (at_pos q p) = c" "qname_check (Some c) = 1" using q rep by (auto simp: queues_rep_def)
    ultimately show "\<exists>q. q_name q = c \<and> qname_check (Some c) = 1 \<and> queue_rep cf q w (the (M c)) \<and> recorded cf q w" by blast
  qed
  then obtain Q where Q: "\<forall>c \<in> dom M. q_name (Q c) = c \<and> qname_check (Some c) = 1 \<and> queue_rep cf (Q c) w (the (M c)) \<and> recorded cf (Q c) w"
    by (rule bchoice [THEN exE])
  define w1 where "w1 = fold (\<lambda>(_, q) w. close_queue q w) l w"
  have c: "same_files w w1" "wf_world w1" unfolding w1_def using close_store_files [OF w(1), of l] by simp_all
  have f1: "w_faults w1 = []" "has_dir w1 (data_file_path cf)" "w_fs w1 = w_fs w"
    using c(1) w(2,3) by (simp_all add: same_files_def has_dir_def lookup_path_def)
  let ?es = "dir_entries w (data_file_path cf)"
  have es: "dir_entries w1 (data_file_path cf) = ?es" by (simp add: dir_entries_def f1(3))
  note E = queue_entries [OF rep only once]
  have "\<exists>l' w'. open_queues cf ?es [] w1 = Some (l', w') \<and> open_list cf M l' w' \<and> same_files w w' \<and> wf_world w'
     \<and> fst ` set l' = fst ` set ([] :: mq_queue_list) \<union> {c. (c, DirN) \<in> set ?es \<and> take 1 c \<noteq> ''.''}"
  proof (rule open_queues_all [OF _ _ _ c])
    show "q_name (Q c) = c \<and> CHR ''/'' \<notin> set c \<and> queue_rep cf (Q c) w (the (M c)) \<and> recorded cf (Q c) w"
      if "(c, DirN) \<in> set ?es" "take 1 c \<noteq> ''.''" for c
    proof -
      have "c \<in> dom M" using that unfolding E [symmetric] by simp
      then show ?thesis using Q qname_no_slash by blast
    qed
    show "distinct (map fst ?es)" using dir_entries_distinct once by (simp add: names_once_def)
  qed (simp_all add: open_list_def)
  then obtain l' w' where o: "open_queues cf ?es [] w1 = Some (l', w')" "open_list cf M l' w'" "same_files w w'" "wf_world w'" "fst ` set l' = dom M"
    unfolding E by auto
  have op: "mq_qm_open_store cf [] w1 = Some (True, l', w')"
    using f1 o(1) by (simp add: mq_qm_open_store_def touch_data_path_def sys_access_def is_dir_def has_dir_def sys_lstat_def sys_opendir_def
        next_outcome_def es)
  have cl: "mq_qm_close_store l w = (True, [], w1)" by (simp add: mq_qm_close_store_def hash_clear_queue_def w1_def)
  have "queues_rep cf l' w' M"
  proof -
    have "fresh_dir cf nm w'" if "qname_check (Some nm) = 1" "M nm = None" for nm
      using that rep same_files_lookup [OF o(3)] unfolding queues_rep_def fresh_dir_def by simp
    moreover have "qname_check (Some nm) = 1" if "(nm, q) \<in> set l'" for nm q using that bspec [OF Q, of nm] o(5) by force
    moreover have "q_name q = nm \<and> queue_rep cf q w' (the (M nm))" if "(nm, q) \<in> set l'" for nm q
      using that o(2) unfolding open_list_def by blast
    moreover have "apart q q'" if "(nm, q) \<in> set l'" "(nm', q') \<in> set l'" "nm \<noteq> nm'" for nm q nm' q'
      using that o(2) unfolding open_list_def by blast
    moreover have "distinct (map fst l')" using o(2) by (simp add: open_list_def)
    ultimately show ?thesis unfolding queues_rep_def using o(5) by simp
  qed
  moreover have "durable cf q w' (the (M nm))" if "(nm, q) \<in> set l'" for nm q
    using that o(2) unfolding open_list_def durable_def by blast
  ultimately show ?thesis by (rule that [OF cl op _ _ o(3,4)])
qed

text \<open>C3. Restarting the library keeps the store: when the queues are up to date on disk, closing the store and opening it again
  from the data path gives a store with the same queues, each with the same messages in the same order, and
  again up to date on disk.\<close>

theorem restart_keeps_store:
  assumes "api_rep s M" and "\<forall>(nm, q) \<in> set (st_qlist s). durable (st_conf s) q (st_world s) (the (M nm))"
    and "only_queues (st_conf s) M (st_world s)" and "names_once (st_world s)"
  shows "\<exists>w1 l' w'. mq_qm_close_store (st_qlist s) (st_world s) = (True, [], w1)
     \<and> mq_qm_open_store (st_conf s) [] w1 = Some (True, l', w')
     \<and> api_rep (s\<lparr>st_qlist := l', st_world := w'\<rparr>) M
     \<and> (\<forall>(nm, q) \<in> set l'. durable (st_conf s) q w' (the (M nm)))"
proof -
  have A: "queues_rep (st_conf s) (st_qlist s) (st_world s) M" "wf_world (st_world s)" "w_faults (st_world s) = []"
      "has_dir (st_world s) (data_file_path (st_conf s))"
    using assms(1) by (simp_all add: api_rep_def)
  obtain w1 l' w' where r: "mq_qm_close_store (st_qlist s) (st_world s) = (True, [], w1)"
      "mq_qm_open_store (st_conf s) [] w1 = Some (True, l', w')" "queues_rep (st_conf s) l' w' M"
      "\<And>nm q. (nm, q) \<in> set l' \<Longrightarrow> durable (st_conf s) q w' (the (M nm))" "same_files (st_world s) w'" "wf_world w'"
    by (rule restart_store [OF A(1) _ assms(3,4) A(2-4)]) (use assms(2) in \<open>assumption | blast\<close>)+
  have "length l' = length (st_qlist s)"
    using queues_repD(1,2) [OF A(1)] queues_repD(1,2) [OF r(3)] by (metis distinct_card length_map list.set_map)
  then have "api_rep (s\<lparr>st_qlist := l', st_world := w'\<rparr>) M"
    using assms(1) r(3,5,6) by (simp add: api_rep_def has_dir_def same_files_lookup [OF r(5)]) (simp add: same_files_def)
  then show ?thesis using r(1,2,4) by blast
qed

definition sample_state :: "mq_queue \<Rightarrow> world \<Rightarrow> mq_state" where
  "sample_state q w = \<lparr>st_conf = limit_conf 0, st_qlist = [(''q'', q)], st_info = zero_info,
     st_log = \<lparr>g_config = log_init_config None, g_has_init = LOG_NEED_INIT, g_has_fork = 0, g_pid = 0, g_sec = 0,
       g_time = \<lparr>ti_day = 0, ti_msec = 0, ti_hour = 0, ti_min = 0, ti_sec = 0\<rparr>, last_day = -1, log_fd = -1, current_tid = 0, t_tid = -1\<rparr>,
     st_world = w\<rparr>"

lemma sample_queue:
  obtains q w where "api_rep (sample_state q w) [''q'' \<mapsto> [(7, [1, 2, 3])]]" "durable (limit_conf 0) q w [(7, [1, 2, 3])]"
    "only_queues (limit_conf 0) [''q'' \<mapsto> [(7, [1, 2, 3])]] w" "names_once w"
    "maxque q = 0" "tag_size w (rtag_path (limit_conf 0) (q_name q) (ri_of q)) + Suc RTAG_ITEM_LEN < 2 ^ 31"
proof -
  let ?M = "[''q'' \<mapsto> [(7, [1, 2, 3])]] :: string \<rightharpoonup> message list" and ?cf = "limit_conf 0"
  obtain q w where q: "durable ?cf q w [(7, [1, 2, 3])]" "q_name q = ''q''"
      "\<And>p. own_path ?cf ''q'' p \<or> lookup_path w p = lookup_path data_world p"
      "maxque q = 0" "tag_size w (rtag_path ?cf (q_name q) (ri_of q)) + Suc RTAG_ITEM_LEN < 2 ^ 31"
    by (rule one_durable [of 0]) blast
  have rep: "queue_rep ?cf q w [(7, [1, 2, 3])]" using q(1) by (simp add: durable_def)
  obtain ino seg where r: "rep_at ?cf q w ino seg" by (rule queue_repD [OF rep])
  have own: "lookup_path w p = lookup_path data_world p" if "own_path ?cf c p" "c \<noteq> ''q''" "CHR ''/'' \<notin> set c" for c p
    using q(3) [of p] own_path_disjoint [OF that(1), of "''q''"] that(2,3) by auto
  have fr: "fresh_dir ?cf c w" if "c \<noteq> ''q''" "CHR ''/'' \<notin> set c" for c
    using limit_conf_ok(4) [of 0 c] own [OF _ that] by (simp add: fresh_dir_def)
  have "lookup_path w (data_file_path ?cf) = lookup_path data_world (data_file_path ?cf)" using q(3) data_dir_not_own by blast
  then have dir: "has_dir w (data_file_path ?cf)" using limit_conf_ok(3) by (simp add: has_dir_def)
  have "queues_rep ?cf [(''q'', q)] w ?M"
    using rep q(2) fr qname_no_slash by (auto simp: queues_rep_def qname_check_iff name_char_def store_consts)
  then have "api_rep (sample_state q w) ?M"
    using dir rep_atD(3,4) [OF r] limit_conf_ok(1) by (simp add: api_rep_def sample_state_def) (simp add: limit_conf_def data_conf_def store_consts)
  moreover have "only_queues ?cf ?M w"
  proof (unfold only_queues_def, intro allI impI)
    fix c
    assume c: "c \<noteq> [] \<and> CHR ''/'' \<notin> set c \<and> has_dir w (queue_dir ?cf c)"
    have "own_path ?cf c (queue_dir ?cf c)" by (simp add: own_path_def)
    then have "c = ''q''" using fr [of c] c unfolding fresh_dir_def has_dir_def by (metis option.distinct(1))
    then show "c \<in> dom ?M \<or> take 1 c = ''.''" by simp
  qed
  moreover have "names_once w" using q(1) by (auto simp: durable_def recorded_def only_files_iff)
  ultimately show ?thesis using that q(1,4,5) by blast
qed

lemma sample_state_simps:
  "st_conf (sample_state q w) = limit_conf 0" "st_qlist (sample_state q w) = [(''q'', q)]" "st_world (sample_state q w) = w"
  by (simp_all add: sample_state_def)

theorem restart_keeps_store_witness:
  "\<exists>q w w1 l' w'. durable (limit_conf 0) q w [(7, [1, 2, 3])]
     \<and> mq_qm_close_store [(''q'', q)] w = (True, [], w1) \<and> mq_qm_open_store (limit_conf 0) [] w1 = Some (True, l', w')
     \<and> api_rep ((sample_state q w)\<lparr>st_qlist := l', st_world := w'\<rparr>) [''q'' \<mapsto> [(7, [1, 2, 3])]]"
proof -
  obtain q w where q: "api_rep (sample_state q w) [''q'' \<mapsto> [(7, [1, 2, 3])]]" "durable (limit_conf 0) q w [(7, [1, 2, 3])]"
    "only_queues (limit_conf 0) [''q'' \<mapsto> [(7, [1, 2, 3])]] w" "names_once w"
    by (rule sample_queue)
  have "\<forall>(nm, q') \<in> set [(''q'', q)]. durable (limit_conf 0) q' w (the ([''q'' \<mapsto> [(7, [1, 2, 3])]] nm))" using q(2) by simp
  from restart_keeps_store [OF q(1), unfolded sample_state_simps, OF this q(3,4)] show ?thesis using q(2) by blast
qed

end
