(* ===== verification/Spec2Isabelle.thy ===== *)
theory Spec2Isabelle
  imports Prelude Posix Config Crc16 Store_Types Store_Msg Util File_IO Mq_Util Store_Names Store_Tag
    Store_File Store_Manage Queue_Manage Log Mq_Api Posix_Effects Store_Effects Fifo_Rep Queue_Frame
    Fifo_Read Fifo_Tags Fifo_Write Fifo_Queue Fifo_Create Api_Fifo Fifo_Spec Api_Refine Reader_Total
    Samples Queue_Limit Queue_Properties Store_Open Uthash Uthash_Rep Uthash_Ops Queue_Table
    Reopen_Scan Reopen Reopen_Keep Durable Durable_Session Restart_Properties Store_Restart "HOL-Library.Char_ord"
begin

text \<open>
  libucmq is a persistent message queue library (\<^verbatim>\<open>src/src\<close>). A program calls \<^verbatim>\<open>mq_store_init\<close>, \<^verbatim>\<open>mq_store_put\<close>,
  \<^verbatim>\<open>mq_store_get\<close> and \<^verbatim>\<open>mq_store_close\<close> (\<^verbatim>\<open>mq_api.c\<close>). The queues are found by name in a hash table
  (\<^verbatim>\<open>mq_queue_manage.c\<close> over \<^verbatim>\<open>uthash.h\<close>); each one owns a directory with memory-mapped data files of messages and two
  tag files that record how far reading and writing have come (\<^verbatim>\<open>mq_store_manage.c\<close>, \<^verbatim>\<open>mq_store_file.c\<close>,
  \<^verbatim>\<open>mq_store_rtag.c\<close>, \<^verbatim>\<open>mq_store_wtag.c\<close>, \<^verbatim>\<open>mq_store_msg.c\<close>); below them are bounded input and output (\<^verbatim>\<open>file.c\<close>),
  utilities (\<^verbatim>\<open>util.c\<close>, \<^verbatim>\<open>mq_util.c\<close>), the checksum (\<^verbatim>\<open>crc16.c\<close>), error numbers, configuration and a log.

  \<^bold>\<open>The model.\<close> Every function of the code is a function of the same name on explicit states. C structs are records,
  enums are datatypes, integers keep their width as words where they can wrap, and \<^verbatim>\<open>double\<close> arithmetic on times is
  exact. The result \<open>None\<close> stands for what a correct program never does: an access outside a live mapping, locking a mutex it holds, following a null or dangling pointer, a signed overflow, or a loop that does
  not end (\<open>partial_function (option)\<close>); ordinary errors are values, as in the code. The one \<^verbatim>\<open>assert\<close> of the library, in
  \<^verbatim>\<open>mq_store_get\<close>, is a result of its own (\<open>Aborts\<close> of \<open>mq_store_get_call\<close>), with the state in which the program stops.

  \<^item> \<open>Prelude\<close>: widths, byte strings, little-endian and decimal encodings.
  \<^item> \<open>Posix\<close>: the system calls on a \<open>world\<close> (names, inodes, descriptors, mappings, clock) with a script of failures;
    \<open>Posix_Effects\<close> and \<open>Store_Effects\<close>: their effects when nothing fails, as rewrite rules.
  \<^item> \<open>Config\<close>, \<open>Crc16\<close>, \<open>Util\<close>, \<open>File_IO\<close>, \<open>Mq_Util\<close>, \<open>Log\<close>: \<^verbatim>\<open>mq_config.c\<close>, \<^verbatim>\<open>crc16.c\<close>, \<^verbatim>\<open>util.c\<close> with
    \<^verbatim>\<open>mq_errno.c\<close>, \<^verbatim>\<open>file.c\<close>, \<^verbatim>\<open>mq_util.c\<close>, \<^verbatim>\<open>log.c\<close>.
  \<^item> \<open>Store_Types\<close>, \<open>Store_Msg\<close>, \<open>Store_Names\<close>, \<open>Store_Tag\<close>, \<open>Store_File\<close>, \<open>Store_Manage\<close>: the structs of
    \<^verbatim>\<open>mq_util.h\<close>, then \<^verbatim>\<open>mq_store_msg.c\<close>, the path macros of \<^verbatim>\<open>mq_store_file.h\<close>, the two tag files,
    \<^verbatim>\<open>mq_store_file.c\<close> and \<^verbatim>\<open>mq_store_manage.c\<close>.
  \<^item> \<open>Queue_Manage\<close>, \<open>Mq_Api\<close>: \<^verbatim>\<open>mq_queue_manage.c\<close> with the table as a list of nodes, and \<^verbatim>\<open>mq_api.c\<close>.
  \<^item> \<open>Uthash\<close>: the macros of \<^verbatim>\<open>uthash.h\<close> on a memory of linked nodes.

  \<^bold>\<open>What is shown.\<close>

  \<^item> \<open>Crc16\<close>: the table-driven checksum is the bit-serial one of \<open>X16 + X15 + X2 + 1\<close>, and detects every corruption of two adjacent bytes.
  \<^item> \<open>File_IO\<close>: for every script of failures the loops transfer a contiguous stretch once and report its length;
    a non-blocking write gets through every transient failure.
  \<^item> \<open>Store_Msg\<close>, \<open>Store_Tag\<close>: checking a message stays inside the mapping; counting is exact; a tag line that was
    written is read back, also behind a line that was cut short if two whole lines precede it, and not if only one does.
  \<^item> \<open>Reader_Total\<close>: for every content of the data files and every script of failures the reader ends and stays inside
    live mappings.
  \<^item> \<open>Fifo_Rep\<close> defines when the files of a queue represent a list of messages; \<open>Queue_Frame\<close> what an operation leaves
    alone; \<open>Fifo_Read\<close>, \<open>Fifo_Tags\<close>, \<open>Fifo_Write\<close>, \<open>Fifo_Queue\<close>, \<open>Fifo_Create\<close> show that reading takes the first
    message, writing appends, and creation gives the empty queue, across changes of the data file.
    \<open>Queue_Properties\<close> states this for \<^verbatim>\<open>mq_qm_push_item\<close>, \<^verbatim>\<open>mq_qm_pop_item\<close> and \<^verbatim>\<open>mq_qm_add_queue\<close>; \<open>Queue_Limit\<close> follows
    the limit of a queue over sequences of these calls and \<^verbatim>\<open>mq_qm_set_maxqueue\<close>.
  \<^item> \<open>Fifo_Spec\<close> is the specification of a set of bounded FIFO queues with a locale for stores that implement it;
    \<open>Api_Fifo\<close> and \<open>Api_Refine\<close> interpret the locale with \<^verbatim>\<open>mq_store_put\<close> and \<^verbatim>\<open>mq_store_get\<close>; \<open>Store_Open\<close> shows
    that \<^verbatim>\<open>mq_store_init\<close> on an empty data path opens the empty store.
  \<^item> \<open>Uthash_Rep\<close>, \<open>Uthash_Ops\<close>, \<open>Queue_Table\<close>: the linked nodes and buckets represent a list; finding, adding with
    expansion, deleting and clearing implement the list of nodes that \<open>Queue_Manage\<close> works on.
  \<^item> \<open>Reopen_Scan\<close>, \<open>Reopen\<close>: what \<^verbatim>\<open>find_handle_file\<close> finds in the directory of a queue, and that opening the files
    gives back the queue its tag files record. \<open>Reopen_Keep\<close>: a put leaves the reader's tag file and a get the writer's
    alone. \<open>Durable\<close>: the invariant of a queue that is up to date on disk, kept by puts, gets and restarts.
    \<open>Durable_Session\<close>: a locale for persistent bounded queues and the replies to sequences of operations, interpreted with
    \<^verbatim>\<open>mq_qm_push_item\<close>, \<^verbatim>\<open>mq_qm_pop_item\<close> and closing and opening. \<open>Restart_Properties\<close> states this from the creation of a
    queue on, with the two cases in which the tag files lag behind the queue; \<open>Store_Restart\<close> restarts the whole store.
  \<^item> This theory: the properties of the four calls, with a started store as their example.

  \<^bold>\<open>Bounds.\<close> The theorems about representation assume that no call of the environment fails; those of \<open>File_IO\<close>,
  \<open>Store_Msg\<close> and \<open>Reader_Total\<close> do not. A run of the library is bounded by a budget of fewer than \<open>2 ^ 62\<close> calls, so
  that file indices and 64-bit counters do not wrap. The configuration must leave room for one message in a data file
  (\<open>conf_ok\<close>), and its limit on the number of queues and that number are below \<open>2 ^ 31\<close>, as the code compares them as \<^verbatim>\<open>int\<close>. The
  recursion of \<^verbatim>\<open>delete_file\<close> takes the length of the longest name as fuel (\<open>fs_depth\<close>), with which it always returns
  (\<open>delete_file_returns\<close>). A session with restarts has fewer than ten million operations, so that a tag file stays below \<open>2 ^ 31\<close> bytes,
  and file indices below \<open>10 ^ 12\<close>, the width of the file names. The hash table has fewer than \<open>2 ^ 31\<close> buckets and \<open>2 ^ 32 - 1\<close> nodes.

  \<^bold>\<open>Abstractions.\<close> The model has one thread; a mutex is a flag. Numbers of descriptors, inodes and mappings are never
  reused. Free space is constant, and asking for it does not fail. Memory written by \<^verbatim>\<open>mmap\<close> is in the file at once, so \<^verbatim>\<open>fsync\<close> and \<^verbatim>\<open>msync\<close> have no
  effect and crashes of the machine are not modelled; log messages of the queue are left out. The uninitialised
  \<^verbatim>\<open>delay\<close> of a message and the uninitialised item of a read are parameters (\<open>d\<close>, \<open>junk\<close>).

  \<^bold>\<open>Not modelled.\<close> Concurrent calls; \<^verbatim>\<open>mq_qm_sync_store\<close> and \<^verbatim>\<open>mq_qm_db_sync\<close>, which only flush; \<^verbatim>\<open>atomic.h\<close>
  (compiler built-ins); the demonstration \<^verbatim>\<open>main.c\<close>; helpers that no other file calls (\<^verbatim>\<open>read_file\<close>, \<^verbatim>\<open>str_to_ll\<close>,
  \<^verbatim>\<open>get_page_size\<close>, \<^verbatim>\<open>set_rand\<close> and the like); the parts of \<^verbatim>\<open>uthash.h\<close> the table does not use. \<^verbatim>\<open>src/supex\<close> is a
  network server framework with vendored libraries that the queue library neither includes nor links.
\<close>

section \<open>A store for examples\<close>

definition start_state :: mq_state where
  "start_state = \<lparr>st_conf = g_mq_conf, st_qlist = [], st_info = zero_info,
     st_log = \<lparr>g_config = log_init_config None, g_has_init = LOG_NEED_INIT, g_has_fork = 0, g_pid = 0, g_sec = 0,
       g_time = \<lparr>ti_day = 0, ti_msec = 0, ti_hour = 0, ti_min = 0, ti_sec = 0\<rparr>, last_day = -1, log_fd = -1, current_tid = 0, t_tid = -1\<rparr>,
     st_world = data_world\<lparr>w_fs := []\<rparr>\<rparr>"

abbreviation start_conf :: ucmq_conf where
  "start_conf \<equiv> (st_conf start_state)\<lparr>data_file_path := ''/data'', output_log_path := ''/log''\<rparr>"

lemma start_ok:
  "can_start ''/log'' ''/data'' (st_world start_state)" "g_has_init (st_log start_state) \<noteq> LOG_INIT_ING"
  "st_qlist start_state = []" "conf_ok (st_conf start_state)" "\<not> storage_short (st_conf start_state) (st_world start_state)"
proof -
  show "can_start ''/log'' ''/data'' (st_world start_state)"
    by (simp add: can_start_def start_state_def data_world_def wf_world_def lookup_path_def nothing_below_def has_dir_def
        parent_ok_def parent_def)
  show "\<not> storage_short (st_conf start_state) (st_world start_state)"
    using data_world_ok(5) by (simp add: start_state_def storage_short_def get_storage_free_def data_conf_def)
qed (simp_all add: start_state_def g_mq_conf_ok)

lemma q_ok: "qname_check (Some ''q'') = 1"
  by (simp add: qname_check_def name_char_def store_consts)

lemma start_conf_ok: "conf_ok start_conf" "body_ok start_conf [1, 2, 3]"
  using start_ok(4) max_db_lower [of start_conf] by (simp_all add: conf_ok_def body_ok_def store_consts)

lemma started:
  obtains s where "mq_store_init 1 None ''/log'' ''/data'' start_state = Some (True, s)"
    "rep_for start_conf (\<lambda>_. 100000000) 9 s Map.empty"
proof -
  have "unat (def_max_queue (st_conf start_state)) = 100000000" by (simp add: start_state_def g_mq_conf_def)
  then show ?thesis
    using init_rep_for [OF start_ok(1-4) _ _ start_ok(5), of 9 1 None] that by (auto simp: store_consts)
qed

lemma started_rep:
  obtains s where "api_rep s Map.empty" "st_conf s = start_conf" "can_grow s ''q''" "st_qlist s = []"
proof -
  obtain s where s: "mq_store_init 1 None ''/log'' ''/data'' start_state = Some (True, s)"
      "rep_for start_conf (\<lambda>_. 100000000) 9 s Map.empty" by (rule started)
  obtain M where M: "api_rep s M" "Map.empty = bodies M" "st_conf s = start_conf" "\<not> storage_short start_conf (st_world s)"
    by (rule rep_forE [OF s(2)])
  have "M = Map.empty" using M(2) by (auto simp: bodies_def fun_eq_iff)
  then have e: "api_rep s Map.empty" "st_qlist s = []" using M(1) queues_repD(2) [OF api_repD(5) [OF M(1)]] by auto
  then have "can_grow s ''q''" using M(3,4) by (simp add: can_grow_def queue_of_def start_state_def g_mq_conf_def)
  then show ?thesis using that e M(3) by blast
qed

text \<open>The store after one message was put into the queue \<^verbatim>\<open>q\<close>.\<close>

lemma one_stored:
  obtains s where "api_rep s [''q'' \<mapsto> [(7, [1, 2, 3])]]" "st_conf s = start_conf" "can_grow s ''q''" "limit_of s ''q'' = 100000000"
proof -
  obtain s where s: "api_rep s Map.empty" "st_conf s = start_conf" "can_grow s ''q''" "st_qlist s = []" by (rule started_rep)
  obtain s' where p: "grows s s'" "api_rep s' [''q'' \<mapsto> [(7, [1, 2, 3])]]"
    using put_new [OF s(1) q_ok, of 3 "[1, 2, 3]" 7] s(2,3) start_conf_ok(2) by auto
  have g: "st_conf s' = start_conf" "limit_of s' ''q'' = limit_of s ''q''" "\<not> storage_short start_conf (st_world s')"
    using p(1) s(2,3) storage_short_cong unfolding grows_def can_grow_def by metis+
  obtain q where q: "map_of (st_qlist s') ''q'' = Some q"
    using queues_repD(2) [OF api_repD(5) [OF p(2)]] by (metis domI fun_upd_same map_of_eq_None_iff not_None_eq)
  have "wi_of q \<le> 2" using p(1) map_of_SomeD [OF q] s(4) unfolding grows_def by fastforce
  then have "can_grow s' ''q''" using g q by (simp add: can_grow_def queue_of_def)
  moreover have "limit_of s' ''q'' = 100000000" using g(2) s(2,4) by (simp add: limit_of_def queue_of_def start_state_def g_mq_conf_def)
  ultimately show ?thesis using that p(2) g(1) by blast
qed

section \<open>Runs of the interface\<close>

text \<open>
  C1. The library refines the specification of a set of bounded FIFO queues: from a state that
  represents the queues \<open>B\<close>, every sequence of \<^verbatim>\<open>mq_store_put\<close> and \<^verbatim>\<open>mq_store_get\<close> calls gets
  the answers of the specification, call by call, and ends in a state that represents what the
  specification ends with; it is stopped by the length assertion exactly when the
  specification says so.
\<close>

theorem store_refines_fifo:
  assumes "rep_for cf L (length ops) s B" and "\<forall>x \<in> set ops. int_args x"
  shows "case spec_run (\<lambda>k. qname_check (Some k) = 1) (body_ok cf) L (max_qlist_itmes cf) length ops B of
      None \<Rightarrow> run (api_put d) (api_get junk) ops s = None
    | Some (rs, B') \<Rightarrow> \<exists>s'. run (api_put d) (api_get junk) ops s = Some (rs, s') \<and> rep_for cf L 0 s' B'"
  using assms by (rule api.run_refines)

theorem store_refines_fifo_witness:
  "\<exists>s s'. mq_store_init 1 None ''/log'' ''/data'' start_state = Some (True, s)
     \<and> run (api_put 0) (api_get first_item) [Put ''q'' [1, 2, 3], Get ''q'' 3, Get ''q'' 3] s
       = Some ([Accepted True, Received (Some [1, 2, 3]), Received None], s')"
proof -
  let ?ops = "[Put ''q'' [1, 2, 3 :: byte], Get ''q'' 3, Get ''q'' 3]"
  obtain s where s: "mq_store_init 1 None ''/log'' ''/data'' start_state = Some (True, s)"
      "rep_for start_conf (\<lambda>_. 100000000) 9 s Map.empty" by (rule started)
  have r: "rep_for start_conf (\<lambda>_. 100000000) (length ?ops) s Map.empty"
    using s(2) by (rule rep_for_le) simp
  have "max_qlist_itmes start_conf = 32" by (simp add: start_state_def g_mq_conf_def)
  then have "spec_run (\<lambda>k. qname_check (Some k) = 1) (body_ok start_conf) (\<lambda>_. 100000000) (max_qlist_itmes start_conf) length ?ops Map.empty
      = Some ([Accepted True, Received (Some [1, 2, 3]), Received None], [''q'' \<mapsto> []])"
    using start_conf_ok(2) by (simp add: spec_put_def spec_get_def q_ok)
  then show ?thesis using store_refines_fifo [OF r, of 0 first_item] s(1) by auto
qed

text \<open>
  C2. First in, first out, from a start on an empty data path: whatever calls follow, the messages that a queue
  delivered are the first ones it accepted, in that order and byte for byte, and what it accepted and did not
  deliver yet is what its files still hold. Nothing is lost, repeated, reordered or mixed up between queues.
\<close>

theorem fifo_from_start:
  assumes "can_start lpath dpath (st_world s0)" and "g_has_init (st_log s0) \<noteq> LOG_INIT_ING" and "st_qlist s0 = []"
    and "conf_ok (st_conf s0)" and "length lpath < 128" and "length dpath + 1 + MAX_QUEUE_NAME_LEN \<le> 127"
    and "\<not> storage_short (st_conf s0) (st_world s0)" and "length ops < 2 ^ 62" and "\<forall>x \<in> set ops. int_args x"
    and "mq_store_init pid tz lpath dpath s0 = Some (ok, s)" and "run (api_put d) (api_get junk) ops s = Some (rs, s')"
  shows "ok \<and> (\<exists>B. rep_for (st_conf s) (\<lambda>_. unat (def_max_queue (st_conf s))) 0 s' B
     \<and> (\<forall>k. accepted k ops rs = delivered k ops rs @ content B k))"
proof -
  let ?cf = "(st_conf s0)\<lparr>data_file_path := dpath, output_log_path := lpath\<rparr>" and ?L = "\<lambda>_. unat (def_max_queue (st_conf s0))"
  have i: "ok" "rep_for ?cf ?L (length ops) s Map.empty"
    using init_rep_for [OF assms(1-8), of pid tz] assms(10) by auto
  obtain B where B: "rep_for ?cf ?L 0 s' B" "\<forall>k. accepted k ops rs = delivered k ops rs @ content B k"
    using api.run_fifo_all [OF i(2) assms(9,11)] by auto
  have "st_conf s = ?cf" using i(2) by (simp add: rep_for_def)
  then show ?thesis using i(1) B by auto
qed

theorem fifo_from_start_witness:
  "\<exists>s rs s' B. mq_store_init 1 None ''/log'' ''/data'' start_state = Some (True, s)
     \<and> run (api_put 0) (api_get first_item) [Put ''q'' [1, 2, 3], Put ''q'' [4, 5], Get ''q'' 3] s = Some (rs, s')
     \<and> rep_for (st_conf s) (\<lambda>_. unat (def_max_queue (st_conf s))) 0 s' B \<and> content B ''q'' = [[4, 5]]"
proof -
  let ?ops = "[Put ''q'' [1, 2, 3 :: byte], Put ''q'' [4, 5], Get ''q'' 3]"
    and ?rs = "[Accepted True, Accepted True, Received (Some [1, 2, 3 :: byte])]"
  obtain s where s: "mq_store_init 1 None ''/log'' ''/data'' start_state = Some (True, s)"
      "rep_for start_conf (\<lambda>_. 100000000) 9 s Map.empty" by (rule started)
  have r: "rep_for start_conf (\<lambda>_. 100000000) (length ?ops) s Map.empty"
    using s(2) by (rule rep_for_le) simp
  have "max_qlist_itmes start_conf = 32" "body_ok start_conf [4, 5]"
    using start_conf_ok(2) by (simp_all add: start_state_def g_mq_conf_def body_ok_def)
  then have "spec_run (\<lambda>k. qname_check (Some k) = 1) (body_ok start_conf) (\<lambda>_. 100000000) (max_qlist_itmes start_conf) length ?ops Map.empty
      = Some (?rs, [''q'' \<mapsto> [[4, 5]]])"
    using start_conf_ok(2) by (simp add: spec_put_def spec_get_def q_ok)
  then obtain s' where t: "run (api_put 0) (api_get first_item) ?ops s = Some (?rs, s')"
    using api.run_refines [OF r, of 0 first_item] by auto
  obtain B where "rep_for (st_conf s) (\<lambda>_. unat (def_max_queue (st_conf s))) 0 s' B"
      "\<forall>k. accepted k ?ops ?rs = delivered k ?ops ?rs @ content B k"
    using fifo_from_start [OF start_ok(1-4) _ _ start_ok(5) _ _ s(1) t] by (auto simp: store_consts)
  moreover from this(2) have "content B ''q'' = [[4, 5]]" by (auto dest: spec [of _ "''q''"])
  ultimately show ?thesis using s(1) t by blast
qed

section \<open>Single calls\<close>

text \<open>
  C22. Starting the library on a data path that holds nothing succeeds: the directories of the log path and the
  data directory are made where they are missing, and the store is empty.
\<close>

theorem init_opens_empty:
  assumes "can_start lpath dpath (st_world s)" and "g_has_init (st_log s) \<noteq> LOG_INIT_ING" and "st_qlist s = []"
    and "conf_ok (st_conf s)" and "length lpath < 128" and "length dpath + 1 + MAX_QUEUE_NAME_LEN \<le> 127"
  shows "\<exists>s'. mq_store_init pid tz lpath dpath s = Some (True, s') \<and> api_rep s' Map.empty
     \<and> has_dir (st_world s') dpath \<and> st_qlist s' = []"
proof -
  obtain s' where s': "mq_store_init pid tz lpath dpath s = Some (True, s')" "api_rep s' Map.empty"
      "st_conf s' = (st_conf s)\<lparr>data_file_path := dpath, output_log_path := lpath\<rparr>" "st_qlist s' = []"
    by (rule init_empty_store [OF assms])
  then show ?thesis using api_repD(4) [OF s'(2)] by simp
qed

theorem init_opens_empty_witness:
  "\<exists>s'. mq_store_init 1 None ''/log'' ''/data'' start_state = Some (True, s') \<and> api_rep s' Map.empty"
  using init_opens_empty [OF start_ok(1-4), of 1 None] by (auto simp: store_consts)

text \<open>
  C15. A put on a known queue with room appends the bytes of the buffer to that queue; no other queue changes.
\<close>

theorem put_appends:
  assumes "api_rep s M" and "qname_check (Some nm) = 1" and "M nm = Some ms" and "0 < n" and "n \<le> int (length buf)"
    and "body_ok (st_conf s) (take (nat n) buf)" and "limit_of s nm = 0 \<or> length ms < unat (limit_of s nm)"
    and "Suc (length ms) < 2 ^ 63" and "can_grow s nm"
  shows "\<exists>s'. mq_store_put d (Some nm) buf n s = Some (True, s') \<and> api_rep s' (M(nm \<mapsto> ms @ [(d, take (nat n) buf)]))"
  using put_found [OF assms] by blast

theorem put_appends_witness:
  "\<exists>s s'. api_rep s [''q'' \<mapsto> [(7, [1, 2, 3])]] \<and> mq_store_put 9 (Some ''q'') [1, 2, 3, 4] 3 s = Some (True, s')
     \<and> api_rep s' [''q'' \<mapsto> [(7, [1, 2, 3]), (9, [1, 2, 3])]]"
proof -
  obtain s where s: "api_rep s [''q'' \<mapsto> [(7, [1, 2, 3])]]" "st_conf s = start_conf" "can_grow s ''q''" "limit_of s ''q'' = 100000000"
    by (rule one_stored)
  have "\<exists>s'. mq_store_put 9 (Some ''q'') [1, 2, 3, 4] 3 s = Some (True, s') \<and> api_rep s' [''q'' \<mapsto> [(7, [1, 2, 3]), (9, [1, 2, 3])]]"
    using put_appends [OF s(1) q_ok, of "[(7, [1, 2, 3])]" 3 "[1, 2, 3, 4]" 9] s(2-4) start_conf_ok(2) by simp
  then show ?thesis using s(1) by blast
qed

text \<open>
  C14. A put on a name that is not in the table yet creates the queue with that message, as long as the table has a
  free place and the disk has the reserved space.
\<close>

theorem put_creates:
  assumes "api_rep s M" and "qname_check (Some nm) = 1" and "M nm = None" and "0 < n" and "n \<le> int (length buf)"
    and "body_ok (st_conf s) (take (nat n) buf)" and "can_grow s nm"
  shows "\<exists>s'. mq_store_put d (Some nm) buf n s = Some (True, s') \<and> api_rep s' (M(nm \<mapsto> [(d, take (nat n) buf)]))"
  using put_new [OF assms] by blast

theorem put_creates_witness:
  "\<exists>s s'. api_rep s Map.empty \<and> mq_store_put 9 (Some ''q'') [1, 2, 3] 3 s = Some (True, s')
     \<and> api_rep s' [''q'' \<mapsto> [(9, [1, 2, 3])]]"
proof -
  obtain s where s: "api_rep s Map.empty" "st_conf s = start_conf" "can_grow s ''q''" "st_qlist s = []" by (rule started_rep)
  have "\<exists>s'. mq_store_put 9 (Some ''q'') [1, 2, 3] 3 s = Some (True, s') \<and> api_rep s' [''q'' \<mapsto> [(9, [1, 2, 3])]]"
    using put_creates [OF s(1) q_ok, of 3 "[1, 2, 3]" 9] s(2,3) start_conf_ok(2) by simp
  then show ?thesis using s(1) by blast
qed

text \<open>
  C17. A put is refused, and the state stays exactly as it was, when the name is missing or illegal, the length
  is not positive or larger than a data file can take, the queue is full, or the table has no place for a new queue.
\<close>

theorem put_refuses:
  assumes "api_rep s M"
    and "case nm of None \<Rightarrow> True | Some k \<Rightarrow> qname_check (Some k) \<noteq> 1 \<or> n \<le> 0
       \<or> 0 < n \<and> n < 2 ^ 31 \<and> int (max_db (st_conf s)) < n + int (DB_FILE_HEAD_LEN + MSG_HEAD_LEN)
       \<or> n \<le> int (length buf) \<and> body_ok (st_conf s) (take (nat n) buf)
         \<and> (case M k of Some ms \<Rightarrow> limit_of s k \<noteq> 0 \<and> unat (limit_of s k) \<le> length ms
             | None \<Rightarrow> max_qlist_itmes (st_conf s) \<le> int (length (st_qlist s)))"
  shows "mq_store_put d nm buf n s = Some (False, s)"
proof (cases nm)
  case None
  then show ?thesis by (simp add: mq_store_put_def)
next
  case (Some k)
  consider "qname_check (Some k) \<noteq> 1" | "n \<le> 0" | "0 < n" "n < 2 ^ 31" "int (max_db (st_conf s)) < n + int (DB_FILE_HEAD_LEN + MSG_HEAD_LEN)"
    | "qname_check (Some k) = 1" "0 < n" "n \<le> int (length buf)" "body_ok (st_conf s) (take (nat n) buf)" "M k = None"
        "max_qlist_itmes (st_conf s) \<le> int (length (st_qlist s))"
    | ms where "qname_check (Some k) = 1" "0 < n" "n \<le> int (length buf)" "body_ok (st_conf s) (take (nat n) buf)" "M k = Some ms"
        "limit_of s k \<noteq> 0" "unat (limit_of s k) \<le> length ms"
    using assms(2) Some by (fastforce split: option.splits)
  then show ?thesis
  proof cases
    case 3
    then show ?thesis unfolding Some using too_large [OF api_repD(1) [OF assms(1)] 3] by (intro put_rejected) simp
  qed (use Some put_rejected put_no_slot [OF assms(1)] put_full [OF assms(1)] in blast)+
qed

theorem put_refuses_witness:
  "\<exists>s. api_rep s Map.empty \<and> mq_store_put 9 (Some ''_q'') [1, 2, 3] 3 s = Some (False, s)
     \<and> mq_store_put 9 (Some ''q'') [1, 2, 3] 0 s = Some (False, s)"
proof -
  obtain s where s: "api_rep s Map.empty" by (rule started_rep)
  have "qname_check (Some ''_q'') \<noteq> 1" by (simp add: qname_check_def name_char_def)
  then show ?thesis
    using s put_refuses [OF s, where nm = "Some ''_q''" and n = 3] put_refuses [OF s, where nm = "Some ''q''" and n = 0] by auto
qed

text \<open>
  C16. A get on a queue that holds a message, with the length of the oldest message, stores the bytes of
  that message into the caller's buffer and removes it; no other queue changes.
\<close>

theorem get_takes_oldest:
  assumes "api_rep s M" and "qname_check (Some nm) = 1" and "M nm = Some ((d, b) # ms)" and "n = int (length b)"
  shows "\<exists>s'. mq_store_get junk (Some nm) n s = Some (True, b, s') \<and> api_rep s' (M(nm \<mapsto> ms))"
  using get_message [OF assms] by blast

theorem get_takes_oldest_witness:
  "\<exists>s s'. api_rep s [''q'' \<mapsto> [(7, [1, 2, 3])]] \<and> mq_store_get first_item (Some ''q'') 3 s = Some (True, [1, 2, 3], s')
     \<and> api_rep s' [''q'' \<mapsto> []]"
proof -
  obtain s where s: "api_rep s [''q'' \<mapsto> [(7, [1, 2, 3])]]" by (rule one_stored)
  from get_takes_oldest [OF s q_ok, of 7 "[1, 2, 3]" "[]" 3 first_item] s show ?thesis by auto
qed

text \<open>
  C18. A get on an unknown or empty queue, or with a missing or illegal name, returns 0, stores nothing and
  leaves the state exactly as it was.
\<close>

theorem get_finds_nothing:
  assumes "api_rep s M"
    and "case nm of None \<Rightarrow> True | Some k \<Rightarrow> qname_check (Some k) \<noteq> 1 \<or> M k = None \<or> M k = Some []"
  shows "mq_store_get junk nm n s = Some (False, [], s)"
proof (cases nm)
  case None
  then show ?thesis by (simp add: mq_store_get_defs)
next
  case (Some k)
  then show ?thesis using assms(2) get_rejected [of nm] get_empty [OF assms(1), of k] by auto
qed

theorem get_finds_nothing_witness:
  "\<exists>s. api_rep s Map.empty \<and> mq_store_get first_item (Some ''q'') 3 s = Some (False, [], s)"
proof -
  obtain s where s: "api_rep s Map.empty" by (rule started_rep)
  from get_finds_nothing [OF s, of "Some ''q''" first_item 3] s show ?thesis by auto
qed

text \<open>
  C19. A get that names another length than the oldest message has does not return: the program is stopped by
  \<^verbatim>\<open>assert(msg_len == msg_item.len)\<close>. The message is already taken out of the queue then. When the queue was up to
  date on disk and the get does not reduce its counters, the disk is up to date without the message, so it is lost
  for a later start as well.
\<close>

theorem get_length_aborts:
  assumes "api_rep s M" and "qname_check (Some nm) = 1" and "M nm = Some ((d, b) # ms)"
    and "n \<noteq> int (length b)" and "- (2 ^ 31) \<le> n" and "n < 2 ^ 31"
  shows "\<exists>s' q q'. mq_store_get_call junk (Some nm) n s = Some (Aborts s') \<and> mq_store_get junk (Some nm) n s = None
     \<and> api_rep s' (M(nm \<mapsto> ms)) \<and> map_of (st_qlist s) nm = Some q \<and> map_of (st_qlist s') nm = Some q'
     \<and> (durable (st_conf s) q (st_world s) ((d, b) # ms) \<and> (maxque q = 0 \<or> get_num q + 1 < ucast (maxque q))
         \<and> tag_size (st_world s) (rtag_path (st_conf s) (q_name q) (ri_of q)) + Suc RTAG_ITEM_LEN < 2 ^ 31
        \<longrightarrow> durable (st_conf s) q' (st_world s') ms)"
proof -
  obtain s' q q' where a: "mq_store_get_call junk (Some nm) n s = Some (Aborts s')" "api_rep s' (M(nm \<mapsto> ms))"
      "map_of (st_qlist s) nm = Some q" "map_of (st_qlist s') nm = Some q'"
      "\<exists>it. mq_qm_pop_item (st_conf s) q junk (st_world s) = Some (QUEUE_GET_OK, it, q', st_world s')"
    using get_wrong_length [OF assms] by metis
  have "durable (st_conf s) q' (st_world s') ms"
    if "durable (st_conf s) q (st_world s) ((d, b) # ms)" "maxque q = 0 \<or> get_num q + 1 < ucast (maxque q)"
      "tag_size (st_world s) (rtag_path (st_conf s) (q_name q) (ri_of q)) + Suc RTAG_ITEM_LEN < 2 ^ 31"
    by (rule pop_durable [OF that, of junk]) (use a(5) in auto)
  moreover have "mq_store_get junk (Some nm) n s = None" using a(1) by (simp add: mq_store_get_def)
  ultimately show ?thesis using a(1-4) by blast
qed

theorem get_length_aborts_witness:
  "\<exists>s s' q. api_rep s [''q'' \<mapsto> [(7, [1, 2, 3])]] \<and> mq_store_get_call first_item (Some ''q'') 1024 s = Some (Aborts s')
     \<and> api_rep s' [''q'' \<mapsto> []] \<and> map_of (st_qlist s') ''q'' = Some q \<and> durable (st_conf s) q (st_world s') []"
proof -
  obtain q w where q: "api_rep (sample_state q w) [''q'' \<mapsto> [(7, [1, 2, 3])]]" "durable (limit_conf 0) q w [(7, [1, 2, 3])]"
      "maxque q = 0" "tag_size w (rtag_path (limit_conf 0) (q_name q) (ri_of q)) + Suc RTAG_ITEM_LEN < 2 ^ 31"
    by (rule sample_queue)
  obtain s' q0 q' where "mq_store_get_call first_item (Some ''q'') 1024 (sample_state q w) = Some (Aborts s')"
      "api_rep s' ([''q'' \<mapsto> [(7, [1, 2, 3])]](''q'' \<mapsto> []))"
      "map_of (st_qlist (sample_state q w)) ''q'' = Some q0" "map_of (st_qlist s') ''q'' = Some q'"
      "durable (limit_conf 0) q0 w [(7, [1, 2, 3])] \<and> (maxque q0 = 0 \<or> get_num q0 + 1 < ucast (maxque q0))
         \<and> tag_size w (rtag_path (limit_conf 0) (q_name q0) (ri_of q0)) + Suc RTAG_ITEM_LEN < 2 ^ 31
        \<longrightarrow> durable (limit_conf 0) q' (st_world s') []"
    using get_length_aborts [OF q(1) q_ok, of 7 "[1, 2, 3]" "[]" 1024 first_item] by (auto simp: sample_state_simps)
  then show ?thesis using q by (auto simp: sample_state_simps)
qed

lemma name_char_order:
  "name_char c \<longleftrightarrow> c \<in> {CHR ''A''..CHR ''Z''} \<union> {CHR ''a''..CHR ''z''} \<union> {CHR ''0''..CHR ''9''}"
  by (auto simp: name_char_def less_eq_char_def Let_def)

text \<open>
  C26. The names that \<^verbatim>\<open>qname_check\<close> accepts: between 1 and 32 characters, letters, digits and underscores, with no
  underscore at either end.
\<close>

theorem qname_check_accepts:
  "qname_check qname = 1 \<longleftrightarrow>
     (\<exists>s. qname = Some s \<and> 0 < length s \<and> length s \<le> 32
        \<and> (\<forall>c \<in> set s. c = CHR ''_'' \<or> c \<in> {CHR ''A''..CHR ''Z''} \<union> {CHR ''a''..CHR ''z''} \<union> {CHR ''0''..CHR ''9''})
        \<and> hd s \<noteq> CHR ''_'' \<and> last s \<noteq> CHR ''_'')"
proof (cases qname)
  case None
  then show ?thesis by (simp add: qname_check_def)
next
  case (Some s)
  then show ?thesis by (auto simp add: qname_check_iff name_char_order store_consts)
qed

theorem qname_check_accepts_witness:
  "qname_check (Some ''my_queue1'') = 1"
  by (subst qname_check_accepts) (simp add: less_eq_char_def)

end
